(* ===== verification/Prelude.thy ===== *)
theory Prelude
  imports Main "HOL-Library.Word" "HOL-Library.Monad_Syntax"
begin

text \<open>
  The shared layer of the development: the machine types, the parts of Rust's core and
  standard library that every component uses (checked and saturating arithmetic,
  slice accessors, \<^verbatim>\<open>Vec::resize\<close>), and the generic lemmas about them.

  Conventions of the whole development:
  \<^item> a \<^verbatim>\<open>u64\<close> is a \<open>64 word\<close>; a \<^verbatim>\<open>usize\<close> and a block number (the
    type parameter \<^verbatim>\<open>N: BlockNumberOps\<close> of the crate) is a \<open>nat\<close>, and a
    subtraction of block numbers goes through \<open>checked_sub\<close>, which has no result where
    the Rust subtraction underflows;
  \<^item> an operation that can panic, or whose loop can run for ever, returns an \<open>option\<close>:
    \<open>None\<close> is a panic or a run that never returns, so a theorem that the result
    is \<open>Some\<close> is a theorem of panic freedom and of termination;
  \<^item> a Rust \<^verbatim>\<open>Result\<close> is a sum, \<open>Inl\<close> being the error;
  \<^item> a method \<^verbatim>\<open>m\<close> of a type \<^verbatim>\<open>T\<close> is the constant \<open>t_m\<close>; a method with
    \<^verbatim>\<open>&mut self\<close> returns the new value of \<^verbatim>\<open>self\<close>.
\<close>

section \<open>Collections of simplification rules\<close>

named_theorems weight_simps \<open>weights read as natural numbers\<close>
named_theorems bitfield_simps \<open>bitfields read as sets of positions\<close>
named_theorems map_simps \<open>lookups in B-tree maps\<close>

section \<open>Machine integers\<close>

type_synonym u64 = "64 word"

definition saturating_add :: "u64 \<Rightarrow> u64 \<Rightarrow> u64" where
  "saturating_add a b = (if unat a + unat b < 2 ^ 64 then a + b else - 1)"

definition saturating_sub :: "u64 \<Rightarrow> u64 \<Rightarrow> u64" where
  "saturating_sub a b = (if b \<le> a then a - b else 0)"

definition checked_add :: "u64 \<Rightarrow> u64 \<Rightarrow> u64 option" where
  "checked_add a b = (if unat a + unat b < 2 ^ 64 then Some (a + b) else None)"

definition checked_sub :: "nat \<Rightarrow> nat \<Rightarrow> nat option" where
  "checked_sub a b = (if b \<le> a then Some (a - b) else None)"

lemma unat_less_u64 [simp]: "unat (a :: u64) < 18446744073709551616"
  using unsigned_less [of a] by simp

lemma unat_saturating_add [weight_simps]:
  "unat (saturating_add a b) = min (unat a + unat b) (2 ^ 64 - 1)"
proof (cases "unat a + unat b < 2 ^ 64")
  case True
  then show ?thesis
    by (simp add: saturating_add_def unat_word_ariths)
next
  case False
  then show ?thesis
    by (simp add: saturating_add_def unsigned_minus_1_eq_mask mask_eq_exp_minus_1)
qed

lemma unat_saturating_sub [weight_simps]:
  "unat (saturating_sub a b) = unat a - unat b"
  by (auto simp: saturating_sub_def unat_sub word_le_nat_alt)

lemma checked_add_Some:
  "checked_add a b = Some c \<longleftrightarrow> unat a + unat b < 2 ^ 64 \<and> c = a + b"
  by (auto simp: checked_add_def)

lemma unat_add_small: "unat a + unat b < 2 ^ 64 \<Longrightarrow> unat (a + b :: u64) = unat a + unat b"
  by (simp add: unat_word_ariths)

lemma checked_sub_Some [simp]: "checked_sub a b = Some c \<longleftrightarrow> b \<le> a \<and> c = a - b"
  by (auto simp: checked_sub_def)

lemma checked_sub_ge: "b \<le> a \<Longrightarrow> checked_sub a b = Some (a - b)"
  by simp

section \<open>Slices and vectors\<close>

text \<open>\<^verbatim>\<open>slice::get\<close>, \<^verbatim>\<open>slice::first\<close>, \<^verbatim>\<open>slice::last\<close> and
  \<^verbatim>\<open>Vec::resize\<close>.\<close>

definition slice_get :: "'a list \<Rightarrow> nat \<Rightarrow> 'a option" where
  "slice_get xs i = (if i < length xs then Some (xs ! i) else None)"

definition slice_first :: "'a list \<Rightarrow> 'a option" where
  "slice_first xs = (case xs of [] \<Rightarrow> None | x # _ \<Rightarrow> Some x)"

definition slice_last :: "'a list \<Rightarrow> 'a option" where
  "slice_last xs = (if xs = [] then None else Some (last xs))"

definition vec_resize :: "'a list \<Rightarrow> nat \<Rightarrow> 'a \<Rightarrow> 'a list" where
  "vec_resize xs n x = take n xs @ replicate (n - length xs) x"

lemma slice_get_Some: "slice_get xs i = Some x \<longleftrightarrow> i < length xs \<and> xs ! i = x"
  by (auto simp: slice_get_def)

lemma slice_get_None: "slice_get xs i = None \<longleftrightarrow> length xs \<le> i"
  by (auto simp: slice_get_def)

lemma slice_get_mem: "slice_get xs i = Some x \<Longrightarrow> x \<in> set xs"
  by (auto simp: slice_get_Some)

lemma slice_last_Some: "slice_last xs = Some x \<longleftrightarrow> xs \<noteq> [] \<and> last xs = x"
  by (auto simp: slice_last_def)

lemma slice_last_None [simp]: "slice_last xs = None \<longleftrightarrow> xs = []"
  by (auto simp: slice_last_def)

lemma slice_last_snoc [simp]: "slice_last (xs @ [x]) = Some x"
  by (simp add: slice_last_def)

lemma slice_first_None [simp]: "slice_first xs = None \<longleftrightarrow> xs = []"
  by (auto simp: slice_first_def split: list.splits)

lemma slice_first_Some: "slice_first xs = Some x \<longleftrightarrow> xs \<noteq> [] \<and> hd xs = x"
  by (auto simp: slice_first_def split: list.splits)

lemma length_vec_resize [simp]: "length (vec_resize xs n x) = n"
  by (simp add: vec_resize_def)

lemma nth_vec_resize:
  "i < n \<Longrightarrow> vec_resize xs n x ! i = (if i < length xs then xs ! i else x)"
  by (auto simp: vec_resize_def nth_append)

text \<open>\<^verbatim>\<open>slice::binary_search_by_key\<close> on the list of the keys: \<open>Inr i\<close> is \<^verbatim>\<open>Ok(i)\<close>, the
  index of a match, \<open>Inl i\<close> is \<^verbatim>\<open>Err(i)\<close>, the index at which the key could be inserted.\<close>

function binary_search_in :: "'k :: linorder list \<Rightarrow> 'k \<Rightarrow> nat \<Rightarrow> nat \<Rightarrow> nat + nat" where
  "binary_search_in ks k lo hi =
     (if lo < hi
      then let mid = lo + (hi - lo) div 2
           in if ks ! mid = k then Inr mid
              else if ks ! mid < k then binary_search_in ks k (mid + 1) hi
              else binary_search_in ks k lo mid
      else Inl lo)"
  by pat_completeness auto
termination
  by (relation "measure (\<lambda>(ks, k, lo, hi). hi - lo)") auto

declare binary_search_in.simps [simp del]

definition binary_search :: "'k :: linorder list \<Rightarrow> 'k \<Rightarrow> nat + nat" where
  "binary_search ks k = binary_search_in ks k 0 (length ks)"

lemma binary_search_in_sound:
  assumes "sorted_wrt (<) ks" "hi \<le> length ks" "lo \<le> hi"
    and "\<And>i. i < lo \<Longrightarrow> ks ! i < k" "\<And>i. hi \<le> i \<Longrightarrow> i < length ks \<Longrightarrow> k < ks ! i"
  shows "case binary_search_in ks k lo hi of
      Inr i \<Rightarrow> i < length ks \<and> ks ! i = k
    | Inl i \<Rightarrow> i \<le> length ks \<and> (\<forall>j < i. ks ! j < k) \<and> (\<forall>j < length ks. i \<le> j \<longrightarrow> k < ks ! j)"
  using assms
proof (induction ks k lo hi rule: binary_search_in.induct)
  case (1 ks k lo hi)
  let ?mid = "lo + (hi - lo) div 2"
  note mono = sorted_wrt_nth_less [OF "1.prems"(1)]
  show ?case
  proof (cases "lo < hi")
    case False
    then show ?thesis
      using "1.prems" by (subst binary_search_in.simps) auto
  next
    case lo: True
    then have mid: "?mid < hi" "lo \<le> ?mid" by auto
    consider "ks ! ?mid = k" | "ks ! ?mid < k" | "k < ks ! ?mid" by force
    then show ?thesis
    proof cases
      case 1
      then show ?thesis
        using lo mid "1.prems" by (subst binary_search_in.simps) (simp add: Let_def)
    next
      case 2
      have "ks ! i < k" if "i < ?mid + 1" for i
        using 2 mono [of i ?mid] mid "1.prems"(2) that by (cases "i = ?mid") auto
      then show ?thesis
        using "1.IH"(1) [OF lo refl] 2 lo mid "1.prems"
        by (subst binary_search_in.simps) (simp add: Let_def)
    next
      case 3
      have "k < ks ! i" if "?mid \<le> i" "i < length ks" for i
        using 3 mono [of ?mid i] that by (cases "i = ?mid") auto
      moreover have "\<not> ks ! ?mid < k" "ks ! ?mid \<noteq> k" using 3 by auto
      ultimately show ?thesis
        using "1.IH"(2) [OF lo refl] lo mid "1.prems"
        by (subst binary_search_in.simps) (simp add: Let_def)
    qed
  qed
qed

lemma binary_search_Inr:
  assumes "sorted_wrt (<) ks"
  shows "binary_search ks k = Inr i \<longleftrightarrow> i < length ks \<and> ks ! i = k"
proof -
  note sound = binary_search_in_sound [OF assms, of "length ks" 0 k, folded binary_search_def]
  show ?thesis
  proof
    assume "binary_search ks k = Inr i"
    then show "i < length ks \<and> ks ! i = k" using sound by simp
  next
    assume i: "i < length ks \<and> ks ! i = k"
    show "binary_search ks k = Inr i"
    proof (cases "binary_search ks k")
      case (Inl j)
      then have "ks ! i < k \<or> k < ks ! i" using sound i by (cases "i < j") auto
      with i show ?thesis by auto
    next
      case (Inr j)
      then have "j < length ks \<and> ks ! j = k" using sound by simp
      with i assms Inr show ?thesis
        using nth_eq_iff_index_eq [of ks i j] by (simp add: strict_sorted_iff)
    qed
  qed
qed

lemma binary_search_Inl:
  assumes "sorted_wrt (<) ks" "binary_search ks k = Inl i"
  shows "i \<le> length ks" "\<And>j. j < i \<Longrightarrow> ks ! j < k" "\<And>j. i \<le> j \<Longrightarrow> j < length ks \<Longrightarrow> k < ks ! j"
  using binary_search_in_sound [OF assms(1), of "length ks" 0 k, folded binary_search_def] assms(2)
  by auto

lemma binary_search_is_Inr:
  "sorted_wrt (<) ks \<Longrightarrow> (\<exists>i. binary_search ks k = Inr i) \<longleftrightarrow> k \<in> set ks"
  by (auto simp: binary_search_Inr in_set_conv_nth)

section \<open>Generic list lemmas\<close>

lemma distinct_map_filterI:
  "distinct xs \<Longrightarrow> inj_on f {x \<in> set xs. P x} \<Longrightarrow> distinct (map f (filter P xs))"
  by (simp add: distinct_map)

lemma sum_list_map_filter_set:
  fixes f :: "'a \<Rightarrow> 'b :: comm_monoid_add"
  assumes "distinct xs"
  shows "sum_list (map f (filter P xs)) = (\<Sum>x \<in> {x \<in> set xs. P x}. f x)"
  using assms by (simp add: sum_list_distinct_conv_sum_set)

lemma sum_list_less:
  fixes f g :: "'a \<Rightarrow> nat"
  assumes "x \<in> set xs" "f x < g x" "\<And>y. f y \<le> g y"
  shows "sum_list (map f xs) < sum_list (map g xs)"
proof -
  obtain ys zs where "xs = ys @ x # zs" using assms(1) by (meson split_list)
  then show ?thesis
    using assms(2) sum_list_mono [of ys f g] sum_list_mono [of zs f g] assms(3) by simp
qed

end
