(* ===== verification/Bitfield.thy ===== *)
theory Bitfield
  imports Prelude
begin

unbundle bit_operations_syntax

text \<open>
  Dynamically sized, write-once bitfields (\<^verbatim>\<open>src/bitfield.rs\<close>): a vector of 64-bit words,
  bit \<open>p\<close> being bit \<open>63 - p mod 64\<close> of word \<open>p div 64\<close>. The operations are
  \<open>set_bit\<close>, \<open>merge\<close>, \<open>test_bit\<close> and the iterators over the set bits at even or odd
  positions, of one bitfield or of two merged on the fly.

  Every operation is related to the set of positions \<open>bitfield_set\<close>: \<open>set_bit\<close> inserts,
  \<open>merge\<close> is the union, the iterators enumerate the set in increasing order. \<open>merge\<close>
  makes bitfields a commutative monoid (up to equality of the vectors), which is what the
  vote graph needs of its vote nodes.
\<close>

record bitfield =
  bits :: "u64 list"

datatype bit1 = Bit1 (position: nat)

definition bitfield_from :: "u64 list \<Rightarrow> bitfield" where
  "bitfield_from ws = \<lparr>bits = ws\<rparr>"

definition bitfield_new :: bitfield where
  "bitfield_new = \<lparr>bits = []\<rparr>"

definition bitfield_is_blank :: "bitfield \<Rightarrow> bool" where
  "bitfield_is_blank self = (bits self = [])"

definition bitfield_merge :: "bitfield \<Rightarrow> bitfield \<Rightarrow> bitfield" where
  "bitfield_merge self other =
     (let self = (if length (bits self) < length (bits other)
                  then self\<lparr>bits := vec_resize (bits self) (length (bits other)) 0\<rparr> else self)
      in fold (\<lambda>(i, word) s. s\<lparr>bits := (bits s)[i := bits s ! i OR word]\<rparr>)
           (enumerate 0 (bits other)) self)"

definition bitfield_set_bit :: "bitfield \<Rightarrow> nat \<Rightarrow> bitfield" where
  "bitfield_set_bit self p =
     (let word_off = p div 64;
          bit_off = p mod 64;
          self = (if length (bits self) \<le> word_off
                  then self\<lparr>bits := vec_resize (bits self) (word_off + 1) 0\<rparr> else self)
      in self\<lparr>bits := (bits self)[word_off := bits self ! word_off OR push_bit (63 - bit_off) 1]\<rparr>)"

definition test_bit_word :: "u64 \<Rightarrow> nat \<Rightarrow> bool" where
  "test_bit_word word p = (let mask = push_bit (63 - p) 1 in word AND mask = mask)"

definition bitfield_test_bit :: "bitfield \<Rightarrow> nat \<Rightarrow> bool" where
  "bitfield_test_bit self p =
     (let word_off = p div 64
      in if length (bits self) \<le> word_off then False
         else test_bit_word (bits self ! word_off) (p mod 64))"

text \<open>The free function \<^verbatim>\<open>iter1s\<close>; \<^verbatim>\<open>64 >> step\<close> is a division by a power of two.\<close>

definition iter1s_words :: "u64 list \<Rightarrow> nat \<Rightarrow> nat \<Rightarrow> bit1 list" where
  "iter1s_words ws start step =
     (let steps = 64 div 2 ^ step - start div 2 ^ step
      in concat (map (\<lambda>(i, word).
           let n = (if word = 0 then 0 else steps)
           in List.map_filter (\<lambda>j.
                let bit_pos = start + j * 2 ^ step
                in if test_bit_word word bit_pos then Some (Bit1 (i * 64 + bit_pos)) else None)
              [0..<n])
         (enumerate 0 ws)))"

definition bitfield_iter1s :: "bitfield \<Rightarrow> nat \<Rightarrow> nat \<Rightarrow> bit1 list" where
  "bitfield_iter1s self start step = iter1s_words (bits self) start step"

definition bitfield_iter1s_even :: "bitfield \<Rightarrow> bit1 list" where
  "bitfield_iter1s_even self = bitfield_iter1s self 0 1"

definition bitfield_iter1s_odd :: "bitfield \<Rightarrow> bit1 list" where
  "bitfield_iter1s_odd self = bitfield_iter1s self 1 1"

text \<open>The infinite iterator \<^verbatim>\<open>iter::repeat(&0)\<close> is cut to the length of the vector it is
  zipped with, which is all that \<^verbatim>\<open>zip\<close> takes of it.\<close>

definition bitfield_iter1s_merged :: "bitfield \<Rightarrow> bitfield \<Rightarrow> nat \<Rightarrow> nat \<Rightarrow> bit1 list" where
  "bitfield_iter1s_merged self other start step =
     (if length (bits self) = length (bits other)
      then iter1s_words (map (\<lambda>(a, b). a OR b) (zip (bits self) (bits other))) start step
      else if length (bits self) < length (bits other)
      then iter1s_words (map (\<lambda>(a, b). a OR b)
             (zip (bits self @ replicate (length (bits other)) 0) (bits other))) start step
      else iter1s_words (map (\<lambda>(a, b). a OR b)
             (zip (bits self) (bits other @ replicate (length (bits self)) 0))) start step)"

definition bitfield_iter1s_merged_even :: "bitfield \<Rightarrow> bitfield \<Rightarrow> bit1 list" where
  "bitfield_iter1s_merged_even self other = bitfield_iter1s_merged self other 0 1"

definition bitfield_iter1s_merged_odd :: "bitfield \<Rightarrow> bitfield \<Rightarrow> bit1 list" where
  "bitfield_iter1s_merged_odd self other = bitfield_iter1s_merged self other 1 1"

definition bitfield_bitor :: "bitfield \<Rightarrow> bitfield \<Rightarrow> bitfield" where
  "bitfield_bitor self rhs = bitfield_merge self rhs"

section \<open>Words\<close>

lemma and_exp_eq_iff: "(w :: u64) AND 2 ^ k = 2 ^ k \<longleftrightarrow> (k < 64 \<longrightarrow> bit w k)"
  by (auto simp: bit_eq_iff [where 'a = "64 word"] bit_and_iff bit_exp_iff)

lemma test_bit_word_iff: "p < 64 \<Longrightarrow> test_bit_word w p \<longleftrightarrow> bit w (63 - p)"
  by (auto simp: test_bit_word_def Let_def and_exp_eq_iff)

lemma test_bit_word_zero: "p < 64 \<Longrightarrow> \<not> test_bit_word 0 p"
  by (simp add: test_bit_word_iff)

lemma test_bit_word_or:
  "p < 64 \<Longrightarrow> test_bit_word (a OR b) p \<longleftrightarrow> test_bit_word a p \<or> test_bit_word b p"
  by (simp add: test_bit_word_iff bit_or_iff)

lemma test_bit_word_push:
  "p < 64 \<Longrightarrow> q < 64 \<Longrightarrow> test_bit_word (2 ^ (63 - q)) p \<longleftrightarrow> p = q"
  by (auto simp: test_bit_word_iff bit_exp_iff)

section \<open>Merging\<close>

lemma length_merge_fold [simp]:
  "length (bits (fold (\<lambda>(i, word) s. s\<lparr>bits := (bits s)[i := bits s ! i OR word]\<rparr>) iws s))
     = length (bits s)"
  by (induction iws arbitrary: s) auto

lemma nth_merge_fold:
  "k + length ws \<le> length (bits s) \<Longrightarrow> i < length (bits s) \<Longrightarrow>
   bits (fold (\<lambda>(i, word) s. s\<lparr>bits := (bits s)[i := bits s ! i OR word]\<rparr>) (enumerate k ws) s) ! i
     = (if k \<le> i \<and> i < k + length ws then bits s ! i OR ws ! (i - k) else bits s ! i)"
proof (induction ws arbitrary: k s)
  case (Cons w ws)
  show ?case
    using Cons.prems by (auto simp: Cons.IH nth_list_update nth_Cons' not_less_eq_eq)
qed auto

definition word_at :: "bitfield \<Rightarrow> nat \<Rightarrow> u64" where
  "word_at bf i = (if i < length (bits bf) then bits bf ! i else 0)"

lemma bitfield_eqI:
  assumes "length (bits a) = length (bits b)" "\<And>i. word_at a i = word_at b i"
  shows "a = (b :: bitfield)"
proof -
  have "bits a = bits b"
    using assms by (auto intro!: nth_equalityI simp: word_at_def split: if_splits) (metis)
  then show ?thesis by simp
qed

lemma length_bitfield_merge [simp]:
  "length (bits (bitfield_merge a b)) = max (length (bits a)) (length (bits b))"
  by (simp add: bitfield_merge_def)

lemma word_at_merge [simp]: "word_at (bitfield_merge a b) i = word_at a i OR word_at b i"
  by (auto simp: word_at_def bitfield_merge_def Let_def nth_merge_fold nth_vec_resize)

lemma bits_bitfield_merge:
  "bits (bitfield_merge a b)
     = map (\<lambda>i. word_at a i OR word_at b i) [0..<max (length (bits a)) (length (bits b))]"
proof (rule nth_equalityI)
  fix i assume "i < length (bits (bitfield_merge a b))"
  then show "bits (bitfield_merge a b) ! i
      = map (\<lambda>i. word_at a i OR word_at b i) [0..<max (length (bits a)) (length (bits b))] ! i"
    using word_at_merge [of a b i] by (auto simp: word_at_def)
qed simp

lemma length_bitfield_set_bit [simp]:
  "length (bits (bitfield_set_bit a p)) = max (length (bits a)) (p div 64 + 1)"
  by (simp add: bitfield_set_bit_def Let_def)

lemma word_at_set_bit:
  "word_at (bitfield_set_bit a p) i
     = (if i = p div 64 then word_at a i OR push_bit (63 - p mod 64) 1 else word_at a i)"
  by (auto simp: word_at_def bitfield_set_bit_def Let_def nth_list_update nth_vec_resize)

lemma word_at_new [simp]: "word_at bitfield_new i = 0"
  by (simp add: word_at_def bitfield_new_def)

lemma bits_new [simp]: "bits bitfield_new = []"
  by (simp add: bitfield_new_def)

text \<open>Merging is a commutative, associative and idempotent operation with the empty bitfield as
  its unit, as equations between the vectors of words.\<close>

lemma bitfield_merge_assoc:
  "bitfield_merge (bitfield_merge a b) c = bitfield_merge a (bitfield_merge b c)"
  by (rule bitfield_eqI) (auto simp: or.assoc)

lemma bitfield_merge_commute: "bitfield_merge a b = bitfield_merge b a"
  by (rule bitfield_eqI) (auto simp: or.commute)

lemma bitfield_merge_idem: "bitfield_merge a a = a"
  by (rule bitfield_eqI) auto

lemma bitfield_merge_new [simp]: "bitfield_merge a bitfield_new = a" "bitfield_merge bitfield_new a = a"
  by (rule bitfield_eqI; simp)+

text \<open>Setting a bit is merging a bitfield with this bit alone.\<close>

lemma bitfield_set_bit_merge:
  "bitfield_set_bit a p = bitfield_merge a (bitfield_set_bit bitfield_new p)"
  by (rule bitfield_eqI) (auto simp: word_at_set_bit)

section \<open>Bitfields as sets of positions\<close>

definition bitfield_set :: "bitfield \<Rightarrow> nat set" where
  "bitfield_set bf = {p. bitfield_test_bit bf p}"

lemma bitfield_test_bit_word_at:
  "bitfield_test_bit bf p \<longleftrightarrow> test_bit_word (word_at bf (p div 64)) (p mod 64)"
  by (auto simp: bitfield_test_bit_def word_at_def test_bit_word_zero Let_def)

lemma bitfield_set_new [bitfield_simps, simp]: "bitfield_set bitfield_new = {}"
  by (simp add: bitfield_set_def bitfield_test_bit_word_at test_bit_word_zero)

lemma bitfield_set_merge [bitfield_simps]:
  "bitfield_set (bitfield_merge a b) = bitfield_set a \<union> bitfield_set b"
  by (auto simp: bitfield_set_def bitfield_test_bit_word_at test_bit_word_or)

lemma bitfield_set_set_bit [bitfield_simps]:
  "bitfield_set (bitfield_set_bit a p) = insert p (bitfield_set a)"
proof -
  have "q \<in> bitfield_set (bitfield_set_bit a p) \<longleftrightarrow> q = p \<or> q \<in> bitfield_set a" for q
  proof (cases "q div 64 = p div 64")
    case True
    then have "q mod 64 = p mod 64 \<longleftrightarrow> q = p" by (metis div_mult_mod_eq)
    with True show ?thesis
      by (auto simp: bitfield_set_def bitfield_test_bit_word_at word_at_set_bit test_bit_word_or
          test_bit_word_push)
  next
    case False
    then show ?thesis
      by (auto simp: bitfield_set_def bitfield_test_bit_word_at word_at_set_bit)
  qed
  then show ?thesis by auto
qed

lemma bitfield_set_bound: "p \<in> bitfield_set bf \<Longrightarrow> p < 64 * length (bits bf)"
  by (auto simp: bitfield_set_def bitfield_test_bit_def Let_def split: if_splits)

lemma finite_bitfield_set [simp]: "finite (bitfield_set bf)"
  by (rule finite_subset [of _ "{..<64 * length (bits bf)}"]) (auto dest: bitfield_set_bound)

section \<open>The iterators\<close>

lemma map_filter_upt:
  "List.map_filter (\<lambda>j. if Q (g j) then Some (h (g j)) else None) js = map h (filter Q (map g js))"
  by (induction js) (simp_all add: map_filter_simps)

lemma even_positions: "map (\<lambda>j. 0 + j * 2 ^ 1) [0..<64 div 2 ^ 1 - 0 div 2 ^ 1] = filter even [0..<64 :: nat]"
  by code_simp

lemma odd_positions: "map (\<lambda>j. 1 + j * 2 ^ 1) [0..<64 div 2 ^ 1 - 1 div 2 ^ 1] = filter odd [0..<64 :: nat]"
  by code_simp

text \<open>The iterator over words whose step positions below 64 are those that satisfy \<open>R\<close>.\<close>

lemma iter1s_words_concat:
  assumes "map (\<lambda>j. start + j * 2 ^ step) [0..<64 div 2 ^ step - start div 2 ^ step] = filter R [0..<64]"
  shows "iter1s_words ws start step =
    concat (map (\<lambda>(i, w). map (\<lambda>p. Bit1 (i * 64 + p)) (filter (\<lambda>p. test_bit_word w p \<and> R p) [0..<64]))
      (enumerate 0 ws))"
proof -
  let ?steps = "64 div 2 ^ step - start div 2 ^ step"
  have word: "List.map_filter (\<lambda>j. let bit_pos = start + j * 2 ^ step
        in if test_bit_word w bit_pos then Some (Bit1 (i * 64 + bit_pos)) else None)
        [0..<if w = 0 then 0 else ?steps]
      = map (\<lambda>p. Bit1 (i * 64 + p)) (filter (\<lambda>p. test_bit_word w p \<and> R p) [0..<64])" for w i
  proof (cases "w = 0")
    case True
    then show ?thesis
      by (auto simp: map_filter_simps test_bit_word_zero filter_empty_conv)
  next
    case False
    then show ?thesis
      using map_filter_upt [of "test_bit_word w" "\<lambda>j. start + j * 2 ^ step" "\<lambda>p. Bit1 (i * 64 + p)"
          "[0..<?steps]"]
      by (simp add: Let_def assms conj_commute)
  qed
  show ?thesis
    unfolding iter1s_words_def Let_def [of "64 div _ - _"]
    by (intro arg_cong [where f = concat] map_cong refl)
      (use word in \<open>auto simp: Let_def split_beta\<close>)
qed

lemma upt_64_snoc: "[0..<64 + 64 * n] = [0..<64 * n] @ map (\<lambda>p. n * 64 + p) [0..<64]"
proof -
  have "map (\<lambda>p. n * 64 + p) [0..<64] = [64 * n..<64 + 64 * n]"
    using map_add_upt [of "64 * n" 64] by (simp only: ac_simps)
  then show ?thesis
    using upt_add_eq_append [of 0 "64 * n" 64] by (simp only: ac_simps zero_le)
qed

lemma concat_words_filter:
  "concat (map (\<lambda>(i, w). map (\<lambda>p. Bit1 (i * 64 + p)) (filter (\<lambda>p. test_bit_word w p \<and> R p) [0..<64]))
      (enumerate 0 ws))
    = map Bit1 (filter (\<lambda>p. test_bit_word (ws ! (p div 64)) (p mod 64) \<and> R (p mod 64)) [0..<64 * length ws])"
proof (induction ws rule: rev_induct)
  case (snoc w ws)
  let ?P = "\<lambda>ws p. test_bit_word (ws ! (p div 64)) (p mod 64) \<and> R (p mod 64)"
  have "filter (?P (ws @ [w])) [0..<64 * length ws] = filter (?P ws) [0..<64 * length ws]"
    by (rule filter_cong) (auto simp: nth_append)
  moreover have "filter (?P (ws @ [w])) (map (\<lambda>p. length ws * 64 + p) [0..<64])
      = map (\<lambda>p. length ws * 64 + p) (filter (\<lambda>p. test_bit_word w p \<and> R p) [0..<64])"
    unfolding filter_map by (rule arg_cong [where f = "map _"], rule filter_cong) auto
  ultimately show ?case
    using snoc.IH by (simp add: enumerate_append_eq upt_64_snoc o_def del: upt_Suc)
qed simp

lemma iter1s_words_filter:
  assumes "map (\<lambda>j. start + j * 2 ^ step) [0..<64 div 2 ^ step - start div 2 ^ step] = filter R [0..<64]"
    and R: "\<And>p. R (p mod 64) = R p"
  shows "iter1s_words (bits bf) start step
     = map Bit1 (filter (\<lambda>p. p \<in> bitfield_set bf \<and> R p) [0..<64 * length (bits bf)])"
  unfolding iter1s_words_concat [OF assms(1)] concat_words_filter R
  by (intro arg_cong [where f = "map _"] filter_cong refl)
     (auto simp: bitfield_set_def bitfield_test_bit_def Let_def)

lemma iter1s_even_eq:
  "bitfield_iter1s_even bf
     = map Bit1 (filter (\<lambda>p. p \<in> bitfield_set bf \<and> even p) [0..<64 * length (bits bf)])"
  unfolding bitfield_iter1s_even_def bitfield_iter1s_def
  by (rule iter1s_words_filter [OF even_positions]) presburger

lemma iter1s_odd_eq:
  "bitfield_iter1s_odd bf
     = map Bit1 (filter (\<lambda>p. p \<in> bitfield_set bf \<and> odd p) [0..<64 * length (bits bf)])"
  unfolding bitfield_iter1s_odd_def bitfield_iter1s_def
  by (rule iter1s_words_filter [OF odd_positions]) presburger

text \<open>Iterating over two bitfields merged on the fly is iterating over the merged bitfield.\<close>

lemma iter1s_merged_eq:
  "bitfield_iter1s_merged a b start step = bitfield_iter1s (bitfield_merge a b) start step"
proof -
  have "map (\<lambda>(x, y). x OR y) (zip (bits a @ replicate m 0) (bits b @ replicate n 0))
      = bits (bitfield_merge a b)"
    if "min (length (bits a) + m) (length (bits b) + n) = max (length (bits a)) (length (bits b))" for m n
    using that by (intro nth_equalityI) (auto simp: bits_bitfield_merge word_at_def nth_append)
  note this [of 0 0] this [of "length (bits b)" 0] this [of 0 "length (bits a)"]
  then show ?thesis
    by (simp add: bitfield_iter1s_merged_def bitfield_iter1s_def)
qed

lemma iter1s_merged_even_eq:
  "bitfield_iter1s_merged_even a b = bitfield_iter1s_even (bitfield_merge a b)"
  by (simp add: bitfield_iter1s_merged_even_def bitfield_iter1s_even_def iter1s_merged_eq)

lemma iter1s_merged_odd_eq:
  "bitfield_iter1s_merged_odd a b = bitfield_iter1s_odd (bitfield_merge a b)"
  by (simp add: bitfield_iter1s_merged_odd_def bitfield_iter1s_odd_def iter1s_merged_eq)

section \<open>Properties\<close>

text \<open>Setting a bit sets exactly that bit, merging is the union, and a new bitfield is empty, for every position
  and whatever the lengths of the vectors.\<close>

theorem bitfield_test_after_update:
  "bitfield_test_bit (bitfield_set_bit bf p) q = (q = p \<or> bitfield_test_bit bf q) \<and>
   bitfield_test_bit (bitfield_merge a b) q = (bitfield_test_bit a q \<or> bitfield_test_bit b q) \<and>
   \<not> bitfield_test_bit bitfield_new q"
  using bitfield_set_set_bit [of bf p] bitfield_set_merge [of a b] bitfield_set_new
  by (auto simp: bitfield_set_def)

text \<open>The iterators over the even and the odd positions list exactly the set positions of that parity, each
  once and in increasing order.\<close>

theorem bitfield_iterators:
  "(set (map position (bitfield_iter1s_even bf)) = {p. bitfield_test_bit bf p \<and> even p} \<and>
    sorted_wrt (<) (map position (bitfield_iter1s_even bf))) \<and>
   (set (map position (bitfield_iter1s_odd bf)) = {p. bitfield_test_bit bf p \<and> odd p} \<and>
    sorted_wrt (<) (map position (bitfield_iter1s_odd bf)))"
proof -
  have "sorted_wrt (<) (filter P [0..<n])" for P and n :: nat
    by (rule sorted_wrt_filter) simp
  then show ?thesis
    using bitfield_set_bound [of _ bf]
    by (auto simp: iter1s_even_eq iter1s_odd_eq bitfield_set_def comp_def)
qed

text \<open>C33. Iterating over two bitfields merged on the fly, without building the merge, visits the same positions in the
  same order as iterating over the merged bitfield.\<close>

theorem bitfield_iter_merged:
  "bitfield_iter1s_merged_even a b = bitfield_iter1s_even (bitfield_bitor a b) \<and>
   bitfield_iter1s_merged_odd a b = bitfield_iter1s_odd (bitfield_bitor a b)"
  by (simp add: iter1s_merged_even_eq iter1s_merged_odd_eq bitfield_bitor_def)

end
