(* ===== verification/BTree.thy ===== *)
theory BTree
  imports Prelude
begin

text \<open>
  \<^verbatim>\<open>std::collections::BTreeMap\<close> and \<^verbatim>\<open>BTreeSet\<close>, which the sources use for the
  vote-nodes, the votes of a round and the voters: finite maps that iterate in the order of
  their keys. A map is its list of entries in key order, a set its list of elements in order.

  The locale \<open>ordered_map\<close> is the interface its clients rely on (what a lookup returns
  after an insertion, that iteration is in key order and visits exactly the stored entries);
  it is interpreted on the model below.
\<close>

section \<open>The interface\<close>

locale ordered_map =
  fixes empty :: "'m"
    and get :: "'m \<Rightarrow> 'k :: linorder \<Rightarrow> 'v option"
    and ins :: "'k \<Rightarrow> 'v \<Rightarrow> 'm \<Rightarrow> 'm"
    and iter :: "'m \<Rightarrow> ('k \<times> 'v) list"
    and invar :: "'m \<Rightarrow> bool"
  assumes get_empty: "get empty = Map.empty"
    and get_ins: "get (ins k v m) = (get m)(k \<mapsto> v)"
    and invar_empty: "invar empty"
    and invar_ins: "invar m \<Longrightarrow> invar (ins k v m)"
    and sorted_iter: "invar m \<Longrightarrow> sorted_wrt (<) (map fst (iter m))"
    and iter_get: "invar m \<Longrightarrow> get m k = map_of (iter m) k"
begin

lemma distinct_iter: "invar m \<Longrightarrow> distinct (map fst (iter m))"
  using sorted_iter [of m] by (simp add: strict_sorted_iff)

lemma set_iter: "invar m \<Longrightarrow> (k, v) \<in> set (iter m) \<longleftrightarrow> get m k = Some v"
  by (simp add: iter_get distinct_iter)

lemma iter_keys: "invar m \<Longrightarrow> fst ` set (iter m) = dom (get m)"
  by (simp add: dom_map_of_conv_image_fst [symmetric] dom_def iter_get)

lemma finite_dom: "invar m \<Longrightarrow> finite (dom (get m))"
  by (simp flip: iter_keys)

lemma length_iter: "invar m \<Longrightarrow> length (iter m) = card (dom (get m))"
  by (metis distinct_card distinct_iter iter_keys length_map list.set_map)

lemma dom_get_ins: "dom (get (ins k v m)) = insert k (dom (get m))"
  by (simp add: get_ins)

text \<open>Summing over the entries: a fresh key adds its value, an update replaces it.\<close>

lemma sum_iter:
  fixes f :: "'k \<Rightarrow> 'v \<Rightarrow> nat"
  assumes "invar m"
  shows "sum_list (map (\<lambda>(k, v). f k v) (iter m)) = (\<Sum>k \<in> dom (get m). f k (the (get m k)))"
proof -
  have "inj_on fst (set (iter m))" and "distinct (iter m)"
    using distinct_iter [OF assms] by (auto simp: distinct_map)
  then have "sum_list (map (\<lambda>(k, v). f k v) (iter m)) = (\<Sum>(k, v) \<in> set (iter m). f k v)"
    by (simp add: sum_list_distinct_conv_sum_set)
  also have "\<dots> = (\<Sum>k \<in> fst ` set (iter m). f k (the (get m k)))"
    using \<open>inj_on fst (set (iter m))\<close> assms
    by (auto simp: sum.reindex set_iter split_beta intro!: sum.cong)
  finally show ?thesis by (simp add: iter_keys [OF assms])
qed

text \<open>Two maps with the same content are the same list of entries.\<close>

lemma iter_eqI:
  assumes "invar m" "invar m'" "get m = get m'"
  shows "iter m = iter m'"
proof (rule map_sorted_distinct_set_unique [where f = fst])
  show "inj_on fst (set (iter m) \<union> set (iter m'))"
    using assms by (auto simp: inj_on_def set_iter)
  show "set (iter m) = set (iter m')"
    using assms by (auto simp: set_iter)
qed (use assms sorted_iter distinct_iter in \<open>auto simp: strict_sorted_iff\<close>)

end

section \<open>B-tree maps\<close>

type_synonym ('k, 'v) btree = "('k \<times> 'v) list"

definition bt_empty :: "('k, 'v) btree" where
  "bt_empty = []"

fun bt_get :: "('k, 'v) btree \<Rightarrow> 'k \<Rightarrow> 'v option" where
  "bt_get [] k = None"
| "bt_get ((k', v) # m) k = (if k = k' then Some v else bt_get m k)"

fun bt_insert :: "'k :: linorder \<Rightarrow> 'v \<Rightarrow> ('k, 'v) btree \<Rightarrow> ('k, 'v) btree" where
  "bt_insert k v [] = [(k, v)]"
| "bt_insert k v ((k', v') # m) =
     (if k < k' then (k, v) # (k', v') # m
      else if k = k' then (k, v) # m
      else (k', v') # bt_insert k v m)"

definition bt_contains_key :: "('k, 'v) btree \<Rightarrow> 'k \<Rightarrow> bool" where
  "bt_contains_key m k = (bt_get m k \<noteq> None)"

definition bt_keys :: "('k, 'v) btree \<Rightarrow> 'k set" where
  "bt_keys m = fst ` set m"

definition bt_ok :: "('k :: linorder, 'v) btree \<Rightarrow> bool" where
  "bt_ok m = sorted_wrt (<) (map fst m)"

lemma bt_get_map_of: "bt_get m = map_of m"
  by (induction m) (auto simp: fun_eq_iff)

lemma bt_get_empty [simp]: "bt_get bt_empty k = None"
  by (simp add: bt_empty_def)

lemma bt_get_insert [simp, map_simps]:
  "bt_get (bt_insert k v m) k' = (if k' = k then Some v else bt_get m k')"
  by (induction k v m rule: bt_insert.induct) auto

lemma set_bt_insert_subset: "fst ` set (bt_insert k v m) = insert k (fst ` set m)"
  by (induction k v m rule: bt_insert.induct) auto

lemma bt_keys_dom: "bt_keys m = dom (bt_get m)"
  by (simp add: bt_keys_def bt_get_map_of dom_map_of_conv_image_fst)

lemma finite_bt_keys [simp]: "finite (bt_keys m)"
  by (simp add: bt_keys_def)

lemma bt_contains_key_iff [simp]: "bt_contains_key m k \<longleftrightarrow> k \<in> bt_keys m"
  by (auto simp: bt_contains_key_def bt_keys_dom)

lemma bt_keys_insert [simp]: "bt_keys (bt_insert k v m) = insert k (bt_keys m)"
  by (simp add: bt_keys_def set_bt_insert_subset)

lemma bt_get_keys: "bt_get m k = Some v \<Longrightarrow> k \<in> bt_keys m"
  by (auto simp: bt_keys_dom)

lemma bt_keysE:
  assumes "k \<in> bt_keys m" obtains v where "bt_get m k = Some v"
  using assms by (auto simp: bt_keys_dom)

lemma bt_ok_empty [simp]: "bt_ok bt_empty"
  by (simp add: bt_ok_def bt_empty_def)

lemma bt_ok_insert [simp]: "bt_ok m \<Longrightarrow> bt_ok (bt_insert k v m)"
  by (induction k v m rule: bt_insert.induct)
     (fastforce simp: bt_ok_def set_bt_insert_subset)+

interpretation bt: ordered_map bt_empty bt_get bt_insert "\<lambda>m. m" bt_ok
  by unfold_locales (auto simp: fun_eq_iff bt_get_map_of [symmetric], simp add: bt_ok_def)

section \<open>B-tree sets\<close>

type_synonym 'k btset = "'k list"

definition bs_insert :: "'k :: linorder \<Rightarrow> 'k btset \<Rightarrow> 'k btset" where
  "bs_insert k s = insort_insert k s"

definition bs_remove :: "'k \<Rightarrow> 'k btset \<Rightarrow> 'k btset" where
  "bs_remove k s = removeAll k s"

lemma set_bs_insert [simp]: "set (bs_insert k s) = insert k (set s)"
  by (simp add: bs_insert_def set_insort_insert)

lemma set_bs_remove [simp]: "set (bs_remove k s) = set s - {k}"
  by (auto simp: bs_remove_def)

lemma strict_sorted_bs_insert: "sorted_wrt (<) s \<Longrightarrow> sorted_wrt (<) (bs_insert k s)"
  by (simp add: bs_insert_def strict_sorted_iff sorted_insort_insert distinct_insort_insert)

lemma strict_sorted_bs_remove: "sorted_wrt (<) s \<Longrightarrow> sorted_wrt (<) (bs_remove k s)"
  by (simp add: bs_remove_def removeAll_filter_not_eq sorted_wrt_filter)

end
