(* ===== verification/Chain.thy ===== *)
theory Chain
  imports Prelude
begin

text \<open>
  The block tree the finality gadget votes on. The crate sees it only through the trait
  \<^verbatim>\<open>Chain\<close> (\<^verbatim>\<open>src/lib.rs\<close>), whose method \<^verbatim>\<open>ancestry\<close> is code of the user of the
  crate: here it is a parameter \<open>ancestry\<close>, an argument of every definition that calls it.

  The locale \<open>chain\<close> is the documented contract of the trait: there is a parent relation and a
  block number that grows by one from parent to child, and \<open>ancestry base block\<close> is the list of
  the blocks strictly between \<open>block\<close> and \<open>base\<close>, from the parent of \<open>block\<close> on, for a
  descendent of \<open>base\<close>, and an error otherwise. The lemmas in the locale are the facts on the
  tree order that the vote graph and the round rely on.
\<close>

datatype error = NotDescendent

definition is_equal_or_descendent_of ::
  "('h \<Rightarrow> 'h \<Rightarrow> error + 'h list) \<Rightarrow> 'h \<Rightarrow> 'h \<Rightarrow> bool" where
  "is_equal_or_descendent_of ancestry base block =
     (if base = block then True
      else case ancestry base block of Inr _ \<Rightarrow> True | Inl NotDescendent \<Rightarrow> False)"

section \<open>Paths in a tree of blocks\<close>

text \<open>\<open>path parent b xs\<close>: the list \<open>xs\<close> is the beginning of the ancestry of \<open>b\<close>, parent first.
  \<open>descends parent a b\<close>: the block \<open>b\<close> is equal to or a descendent of \<open>a\<close>.\<close>

fun path :: "('h \<Rightarrow> 'h option) \<Rightarrow> 'h \<Rightarrow> 'h list \<Rightarrow> bool" where
  "path parent b [] = True"
| "path parent b (a # as) = (parent b = Some a \<and> path parent a as)"

inductive descends :: "('h \<Rightarrow> 'h option) \<Rightarrow> 'h \<Rightarrow> 'h \<Rightarrow> bool" for parent where
  same: "descends parent a a"
| up: "parent b = Some b' \<Longrightarrow> descends parent a b' \<Longrightarrow> descends parent a b"

inductive_cases descendsE: "descends parent a b"

lemma path_append: "path parent b (xs @ ys) \<longleftrightarrow> path parent b xs \<and> path parent (last (b # xs)) ys"
  by (induction xs arbitrary: b) auto

lemma path_take: "path parent b xs \<Longrightarrow> path parent b (take n xs)"
  by (metis append_take_drop_id path_append)

lemma path_prefix: "path parent b xs \<Longrightarrow> path parent b ys \<Longrightarrow> length xs \<le> length ys \<Longrightarrow> xs = take (length xs) ys"
  by (induction parent b xs arbitrary: ys rule: path.induct) (case_tac ys; auto)+

lemma path_unique: "path parent b xs \<Longrightarrow> path parent b ys \<Longrightarrow> length xs = length ys \<Longrightarrow> xs = ys"
  using path_prefix [of parent b xs ys] by simp

lemma path_descends: "path parent b xs \<Longrightarrow> a \<in> set (b # xs) \<Longrightarrow> descends parent a b"
  by (induction parent b xs rule: path.induct) (auto intro: descends.intros)

lemma descends_path: "descends parent a b \<Longrightarrow> \<exists>xs. path parent b xs \<and> last (b # xs) = a"
proof (induction rule: descends.induct)
  case (same a)
  show ?case by (rule exI [of _ "[]"]) simp
next
  case (up b b' a)
  then obtain xs where "path parent b' xs" "last (b' # xs) = a" by blast
  with up.hyps(1) show ?case by (intro exI [of _ "b' # xs"]) simp
qed

lemma descends_trans [trans]: "descends parent b c \<Longrightarrow> descends parent a b \<Longrightarrow> descends parent a c"
  by (induction rule: descends.induct) (auto intro: descends.up)

lemma descends_refl [simp]: "descends parent a a"
  by (rule descends.same)

text \<open>Two ancestors of a block are comparable.\<close>

lemma descends_linear:
  "descends parent a c \<Longrightarrow> descends parent b c \<Longrightarrow> descends parent a b \<or> descends parent b a"
proof (induction rule: descends.induct)
  case (up c c' a)
  then show ?case by (auto elim: descendsE intro: descends.up)
qed simp

section \<open>The contract of the chain\<close>

locale chain =
  fixes ancestry :: "'h :: linorder \<Rightarrow> 'h \<Rightarrow> error + 'h list"
    and parent :: "'h \<Rightarrow> 'h option"
    and number :: "'h \<Rightarrow> nat"
  assumes number_parent: "parent b = Some a \<Longrightarrow> number b = Suc (number a)"
    and ancestry_path: "base \<noteq> block \<Longrightarrow> ancestry base block = Inr xs \<Longrightarrow> path parent block (xs @ [base])"
    and ancestry_total: "base \<noteq> block \<Longrightarrow> descends parent base block \<Longrightarrow> \<exists>xs. ancestry base block = Inr xs"
begin

lemma number_mono: "descends parent a b \<Longrightarrow> number a \<le> number b"
  by (induction rule: descends.induct) (auto dest: number_parent)

lemma number_strict: "descends parent a b \<Longrightarrow> a \<noteq> b \<Longrightarrow> number a < number b"
  by (erule descendsE) (auto dest!: number_mono number_parent)

lemma descends_number_eq: "descends parent a b \<Longrightarrow> number a = number b \<Longrightarrow> a = b"
  using number_strict by force

lemma descends_antisym: "descends parent a b \<Longrightarrow> descends parent b a \<Longrightarrow> a = b"
  by (meson descends_number_eq le_antisym number_mono)

lemma descends_unique:
  "descends parent a c \<Longrightarrow> descends parent b c \<Longrightarrow> number a = number b \<Longrightarrow> a = b"
  using descends_linear descends_number_eq by metis

lemma descends_le:
  "descends parent a c \<Longrightarrow> descends parent b c \<Longrightarrow> number a \<le> number b \<Longrightarrow> descends parent a b"
  using descends_linear descends_number_eq number_mono by (metis le_antisym)

lemma path_number: "path parent b xs \<Longrightarrow> i < length xs \<Longrightarrow> number b = number (xs ! i) + Suc i"
proof (induction xs arbitrary: b i)
  case (Cons a as)
  then show ?case using number_parent [of b a] by (cases i) auto
qed simp

lemma path_nth:
  assumes "path parent b xs" "descends parent a b" "number a < number b" "number b - number a - 1 < length xs"
  shows "xs ! (number b - number a - 1) = a"
proof (rule descends_unique)
  show "descends parent (xs ! (number b - number a - 1)) b"
    using assms(1,4) by (auto intro: path_descends)
  show "number (xs ! (number b - number a - 1)) = number a"
    using path_number [OF assms(1,4)] assms(3) by simp
qed (rule assms(2))

lemma path_mem:
  assumes "path parent b xs"
  shows "a \<in> set xs \<longleftrightarrow> descends parent a b \<and> number a < number b \<and> number b \<le> number a + length xs"
proof
  assume "a \<in> set xs"
  then obtain i where "i < length xs" "xs ! i = a" by (auto simp: in_set_conv_nth)
  then show "descends parent a b \<and> number a < number b \<and> number b \<le> number a + length xs"
    using path_number [OF assms, of i] path_descends [OF assms, of a] by auto
next
  assume a: "descends parent a b \<and> number a < number b \<and> number b \<le> number a + length xs"
  then have "number b - number a - 1 < length xs" by auto
  then show "a \<in> set xs" using path_nth [OF assms] a nth_mem by metis
qed

lemma path_last_number: "path parent b xs \<Longrightarrow> xs \<noteq> [] \<Longrightarrow> number b = number (last xs) + length xs"
  using path_number [of b xs "length xs - 1"] by (simp add: last_conv_nth)

lemma path_not_mem: "path parent b xs \<Longrightarrow> b \<notin> set xs"
  by (simp add: path_mem)

lemma path_distinct: "path parent b xs \<Longrightarrow> distinct xs"
  by (induction xs arbitrary: b) (auto dest: path_not_mem)

lemma path_last_descends: "path parent b xs \<Longrightarrow> xs \<noteq> [] \<Longrightarrow> descends parent (last xs) b"
  by (simp add: path_descends)

lemma path_between:
  assumes "path parent b xs"
  shows "h \<in> set (b # xs) \<longleftrightarrow> descends parent (last (b # xs)) h \<and> descends parent h b"
proof
  assume h: "h \<in> set (b # xs)"
  then obtain ys zs where split: "b # xs = ys @ h # zs" using split_list [OF h] by (elim exE) (rule that)
  have "path parent h zs \<and> last (h # zs) = last (b # xs)"
  proof (cases ys)
    case Nil
    then show ?thesis using split assms by simp
  next
    case (Cons y ys')
    then have "xs = (ys' @ [h]) @ zs" using split by simp
    then show ?thesis using assms path_append [of parent b "ys' @ [h]" zs] by (cases zs) simp_all
  qed
  then show "descends parent (last (b # xs)) h \<and> descends parent h b"
    using path_descends [OF assms h] path_descends [of parent h zs "last (h # zs)"] last_in_set [of "h # zs"] by fastforce
next
  assume h: "descends parent (last (b # xs)) h \<and> descends parent h b"
  show "h \<in> set (b # xs)"
  proof (cases "h = b")
    case False
    have "number b = number (last (b # xs)) + length xs" using path_last_number [OF assms] by (cases "xs = []") simp_all
    then have "number b \<le> number h + length xs" using number_mono [of "last (b # xs)" h] h by linarith
    then show ?thesis using path_mem [OF assms, of h] number_strict [OF _ False] h by simp
  qed simp
qed

text \<open>A path of any length up to the distance of an ancestor.\<close>

lemma descends_path_length:
  assumes "descends parent a b"
  shows "\<exists>xs. path parent b xs \<and> length xs = number b - number a \<and> last (b # xs) = a"
proof -
  obtain xs where xs: "path parent b xs" "last (b # xs) = a" using descends_path [OF assms] by blast
  then show ?thesis using path_last_number [of b xs] by (cases "xs = []") auto
qed

lemma ancestor_at:
  assumes "descends parent a b" "number a \<le> n" "n \<le> number b"
  shows "\<exists>c. number c = n \<and> descends parent c b \<and> descends parent a c"
proof -
  obtain xs where xs: "path parent b xs" "length xs = number b - number a" "last (b # xs) = a"
    using descends_path_length [OF assms(1)] by blast
  let ?ys = "take (number b - n) xs" and ?c = "last (b # take (number b - n) xs)"
  have ys: "path parent b ?ys" using xs(1) by (rule path_take)
  have "length ?ys = number b - n" using xs(2) assms(2) by simp
  then have "number ?c = n" using path_last_number [OF ys] assms(3) by (cases "?ys = []") auto
  moreover have "descends parent ?c b" by (rule path_descends [OF ys last_in_set]) simp
  ultimately show ?thesis using descends_le [OF assms(1), of ?c] assms(2) by (intro exI [of _ ?c]) simp
qed

lemma is_equal_or_descendent_of_iff:
  "is_equal_or_descendent_of ancestry base block \<longleftrightarrow> descends parent base block"
proof (cases "base = block")
  case False
  have "descends parent base block" if "ancestry base block = Inr xs" for xs
    using path_descends [OF ancestry_path [OF False that], of base] by simp
  then have "(\<exists>xs. ancestry base block = Inr xs) \<longleftrightarrow> descends parent base block"
    using ancestry_total [OF False] by blast
  with False show ?thesis
    by (auto simp: is_equal_or_descendent_of_def split: sum.splits error.splits)
qed (simp add: is_equal_or_descendent_of_def)

lemma ancestry_Inl: "base \<noteq> block \<Longrightarrow> ancestry base block = Inl e \<longleftrightarrow> \<not> descends parent base block"
  using is_equal_or_descendent_of_iff [of base block]
  by (cases e) (auto simp: is_equal_or_descendent_of_def split: sum.splits error.splits)

end

end
