(* ===== verification/Vote_Graph.thy ===== *)
theory Vote_Graph
  imports BTree Chain
begin

text \<open>
  The vote graph (\<^verbatim>\<open>src/vote_graph.rs\<close>): the tree of the blocks that have votes (the
  vote-nodes), each with the path of blocks back to the vote-node below it, its child vote-nodes,
  and the accumulated vote of itself and everything above. This theory holds the definitions:
  one per function of the source, in its order. The vote type \<^verbatim>\<open>V\<close> (\<^verbatim>\<open>AddAssign<&V> +
  Default\<close>) is a type of class \<open>{plus, zero}\<close>, \<^verbatim>\<open>+=\<close> being \<open>+\<close> and \<^verbatim>\<open>V::default()\<close> being
  \<open>0\<close>; the addition of a vote of another type \<^verbatim>\<open>W\<close> is an argument.

  \<open>None\<close> is a panic (an \<^verbatim>\<open>expect\<close>, an \<^verbatim>\<open>assert!\<close>, an out-of-range \<^verbatim>\<open>drain\<close>, an underflow of a
  block number) or a loop that does not end. That none of this happens on the graphs
  that the operations build is proved in the theories that follow.
\<close>

section \<open>Entries and subchains\<close>

record ('h, 'v) entry =
  e_number :: nat
  e_ancestors :: "'h list"
  e_descendents :: "'h list"
  e_cumulative_vote :: 'v

definition entry_ancestor_block :: "('h, 'v) entry \<Rightarrow> nat \<Rightarrow> 'h option" where
  "entry_ancestor_block self number =
     (if e_number self \<le> number then None
      else slice_get (e_ancestors self) (e_number self - number - 1))"

definition entry_in_direct_ancestry :: "('h, 'v) entry \<Rightarrow> 'h \<Rightarrow> nat \<Rightarrow> bool option" where
  "entry_in_direct_ancestry self hash number =
     map_option (\<lambda>h. h = hash) (entry_ancestor_block self number)"

definition entry_ancestor_node :: "('h, 'v) entry \<Rightarrow> 'h option" where
  "entry_ancestor_node self = slice_last (e_ancestors self)"

record 'h subchain =
  sc_hashes :: "'h list"
  sc_best_number :: nat

definition subchain_best :: "'h subchain \<Rightarrow> ('h \<times> nat) option" where
  "subchain_best self = map_option (\<lambda>x. (x, sc_best_number self)) (slice_last (sc_hashes self))"

section \<open>The graph\<close>

record ('h, 'v) vote_graph =
  g_entries :: "('h, ('h, 'v) entry) btree"
  g_heads :: "'h btset"
  g_base :: 'h
  g_base_number :: nat

abbreviation node :: "('h, 'v) vote_graph \<Rightarrow> 'h \<Rightarrow> ('h, 'v) entry option" where
  "node g h \<equiv> bt_get (g_entries g) h"

abbreviation nodes :: "('h, 'v) vote_graph \<Rightarrow> 'h set" where
  "nodes g \<equiv> bt_keys (g_entries g)"

definition vote_graph_new :: "'h :: linorder \<Rightarrow> nat \<Rightarrow> 'v \<Rightarrow> ('h, 'v) vote_graph" where
  "vote_graph_new base_hash base_number base_node =
     \<lparr>g_entries = bt_insert base_hash
        \<lparr>e_number = base_number, e_ancestors = [], e_descendents = [], e_cumulative_vote = base_node\<rparr> bt_empty,
      g_heads = bs_insert base_hash [],
      g_base = base_hash,
      g_base_number = base_number\<rparr>"

definition vote_graph_base :: "('h, 'v) vote_graph \<Rightarrow> 'h \<times> nat" where
  "vote_graph_base self = (g_base self, g_base_number self)"

definition adjust_base :: "('h :: linorder, 'v) vote_graph \<Rightarrow> 'h list \<Rightarrow> ('h, 'v) vote_graph option" where
  "adjust_base self ancestry_proof =
     (case slice_last ancestry_proof of
        None \<Rightarrow> Some self
      | Some new_hash \<Rightarrow>
          if g_base_number self < length ancestry_proof then Some self
          else do {
            let new_number = ((\<lambda>n. n - 1) ^^ length ancestry_proof) (g_base_number self);
            old_entry \<leftarrow> node self (g_base self);
            let entries = bt_insert (g_base self)
              (old_entry\<lparr>e_ancestors := e_ancestors old_entry @ ancestry_proof\<rparr>) (g_entries self);
            let entry = \<lparr>e_number = new_number, e_ancestors = [], e_descendents = [g_base self],
              e_cumulative_vote = e_cumulative_vote old_entry\<rparr>;
            Some (self\<lparr>g_entries := bt_insert new_hash entry entries,
                       g_base := new_hash, g_base_number := new_number\<rparr>)
          })"

text \<open>\<^verbatim>\<open>find_containing_nodes\<close>: the loop that walks back from one head, then the loop over the
  heads. Each step of the walk visits a node that was not visited before, so it ends on any
  graph.\<close>

function containing_walk ::
  "('h :: linorder, ('h, 'v) entry) btree \<Rightarrow> 'h \<Rightarrow> nat \<Rightarrow> 'h \<Rightarrow> 'h btset \<times> 'h list \<Rightarrow> 'h btset \<times> 'h list" where
  "containing_walk entries hash number head (visited, containing_keys) =
     (case bt_get entries head of
        None \<Rightarrow> (visited, containing_keys)
      | Some active_entry \<Rightarrow>
          if head \<in> set visited then (visited, containing_keys)
          else (case entry_in_direct_ancestry active_entry hash number of
              Some True \<Rightarrow> (bs_insert head visited, containing_keys @ [head])
            | Some False \<Rightarrow> (bs_insert head visited, containing_keys)
            | None \<Rightarrow>
                (case entry_ancestor_node active_entry of
                   Some prev \<Rightarrow> containing_walk entries hash number prev (bs_insert head visited, containing_keys)
                 | None \<Rightarrow> (bs_insert head visited, containing_keys))))"
  by pat_completeness auto
termination
proof (relation "measure (\<lambda>(entries, hash, number, head, visited, keys). card (bt_keys entries - set visited))")
  fix entries :: "('h :: linorder, ('h, 'v) entry) btree" and head visited keys hash number x xa
  assume "bt_get entries head = Some x" "head \<notin> set visited"
  then have "head \<in> bt_keys entries - set visited" by (simp add: bt_get_keys)
  then have "card (bt_keys entries - set (bs_insert head visited)) < card (bt_keys entries - set visited)"
    by (intro psubset_card_mono) auto
  then show "((entries, hash, number, xa, bs_insert head visited, keys),
      (entries, hash, number, head, visited, keys))
    \<in> measure (\<lambda>(entries, hash, number, head, visited, keys). card (bt_keys entries - set visited))"
    by simp
qed simp

declare containing_walk.simps [simp del]

definition find_containing_nodes :: "('h :: linorder, 'v) vote_graph \<Rightarrow> 'h \<Rightarrow> nat \<Rightarrow> 'h list option" where
  "find_containing_nodes self hash number =
     (if bt_contains_key (g_entries self) hash then None
      else Some (snd (fold (containing_walk (g_entries self) hash number) (g_heads self) ([], []))))"

text \<open>\<^verbatim>\<open>introduce_branch\<close>: the closure of the \<^verbatim>\<open>fold\<close> is one step of \<open>branch_fold\<close>, which threads
  the entries and the entry being built.\<close>

fun branch_fold ::
  "'h :: linorder list \<Rightarrow> 'h \<Rightarrow> nat \<Rightarrow> ('h, ('h, 'v :: {plus, zero}) entry) btree
     \<Rightarrow> (('h, 'v) entry \<times> 'h option) option
     \<Rightarrow> (('h, ('h, 'v) entry) btree \<times> (('h, 'v) entry \<times> 'h option) option) option" where
  "branch_fold [] ancestor_hash ancestor_number entries maybe_entry = Some (entries, maybe_entry)"
| "branch_fold (descendent # descendents) ancestor_hash ancestor_number entries maybe_entry = do {
     entry \<leftarrow> bt_get entries descendent;
     direct \<leftarrow> entry_in_direct_ancestry entry ancestor_hash ancestor_number;
     if \<not> direct then None
     else do {
       let prev_ancestor = entry_ancestor_node entry;
       offset \<leftarrow> checked_sub (e_number entry) ancestor_number;
       if length (e_ancestors entry) < offset then None
       else do {
         let new_ancestors = drop offset (e_ancestors entry);
         let entry' = entry\<lparr>e_ancestors := take offset (e_ancestors entry)\<rparr>;
         let (new_entry, prev) = (case maybe_entry of
             None \<Rightarrow> (\<lparr>e_number = ancestor_number, e_ancestors = new_ancestors, e_descendents = [],
                       e_cumulative_vote = 0\<rparr>, prev_ancestor)
           | Some x \<Rightarrow> x);
         let new_entry = new_entry\<lparr>e_descendents := e_descendents new_entry @ [descendent],
                                   e_cumulative_vote := e_cumulative_vote new_entry + e_cumulative_vote entry\<rparr>;
         branch_fold descendents ancestor_hash ancestor_number (bt_insert descendent entry' entries)
           (Some (new_entry, prev))
       }
     }
   }"

definition introduce_branch ::
  "('h :: linorder, 'v :: {plus, zero}) vote_graph \<Rightarrow> 'h list \<Rightarrow> 'h \<Rightarrow> nat \<Rightarrow> ('h, 'v) vote_graph option" where
  "introduce_branch self descendents ancestor_hash ancestor_number = do {
     (entries, produced_entry) \<leftarrow> branch_fold descendents ancestor_hash ancestor_number (g_entries self) None;
     case produced_entry of
       None \<Rightarrow> Some (self\<lparr>g_entries := entries\<rparr>)
     | Some (new_entry, prev_ancestor) \<Rightarrow> do {
         entries \<leftarrow> (case prev_ancestor of
             None \<Rightarrow> Some entries
           | Some prev \<Rightarrow> do {
               prev_node \<leftarrow> bt_get entries prev;
               Some (bt_insert prev (prev_node\<lparr>e_descendents :=
                 filter (\<lambda>h. h \<notin> set (e_descendents new_entry)) (e_descendents prev_node) @ [ancestor_hash]\<rparr>) entries)
             });
         if bt_contains_key entries ancestor_hash then None
         else Some (self\<lparr>g_entries := bt_insert ancestor_hash new_entry entries\<rparr>)
       }
   }"

text \<open>\<^verbatim>\<open>append\<close>: the index of the first block of the ancestry that is a vote-node, then the new
  head. The error of \<^verbatim>\<open>chain.ancestry\<close> is returned before anything changes.\<close>

fun first_entry_index :: "('h, 'e) btree \<Rightarrow> 'h list \<Rightarrow> nat option" where
  "first_entry_index entries [] = None"
| "first_entry_index entries (ancestor # ancestry) =
     (if bt_contains_key entries ancestor then Some 0
      else map_option Suc (first_entry_index entries ancestry))"

definition append_node ::
  "('h \<Rightarrow> 'h \<Rightarrow> error + 'h list) \<Rightarrow> ('h :: linorder, 'v :: zero) vote_graph \<Rightarrow> 'h \<Rightarrow> nat
     \<Rightarrow> (error + ('h, 'v) vote_graph) option" where
  "append_node chain_ancestry self hash number =
     (case chain_ancestry (g_base self) hash of
        Inl e \<Rightarrow> Some (Inl e)
      | Inr between \<Rightarrow> do {
          let ancestry = between @ [g_base self];
          ancestor_index \<leftarrow> first_entry_index (g_entries self) ancestry;
          let ancestor_hash = ancestry ! ancestor_index;
          entry \<leftarrow> node self ancestor_hash;
          let entries = bt_insert ancestor_hash
            (entry\<lparr>e_descendents := e_descendents entry @ [hash]\<rparr>) (g_entries self);
          Some (Inr (self\<lparr>
            g_entries := bt_insert hash
              \<lparr>e_number = number, e_ancestors = take (ancestor_index + 1) ancestry, e_descendents = [],
               e_cumulative_vote = 0\<rparr> entries,
            g_heads := bs_insert hash (bs_remove ancestor_hash (g_heads self))\<rparr>))
        })"

text \<open>\<^verbatim>\<open>insert\<close>: the loop that adds the vote to the node and all vote-nodes below it, then
  the whole operation. \<open>add_vote v w\<close> is \<^verbatim>\<open>v += &w\<close>.\<close>

partial_function (option) add_vote_back ::
  "('v \<Rightarrow> 'v) \<Rightarrow> 'h :: linorder \<Rightarrow> ('h, ('h, 'v) entry) btree \<Rightarrow> ('h, ('h, 'v) entry) btree option" where
  "add_vote_back add inspecting_hash entries =
     (case bt_get entries inspecting_hash of
        None \<Rightarrow> None
      | Some active_entry \<Rightarrow>
          (let active_entry = active_entry\<lparr>e_cumulative_vote := add (e_cumulative_vote active_entry)\<rparr>;
               entries = bt_insert inspecting_hash active_entry entries
           in case entry_ancestor_node active_entry of
                Some parent \<Rightarrow> add_vote_back add parent entries
              | None \<Rightarrow> Some entries))"

declare add_vote_back.simps [code]

definition vote_graph_insert ::
  "('h \<Rightarrow> 'h \<Rightarrow> error + 'h list) \<Rightarrow> ('v \<Rightarrow> 'w \<Rightarrow> 'v) \<Rightarrow> ('h :: linorder, 'v :: {plus, zero}) vote_graph
     \<Rightarrow> 'h \<Rightarrow> nat \<Rightarrow> 'w \<Rightarrow> (error + ('h, 'v) vote_graph) option" where
  "vote_graph_insert chain_ancestry add_vote self hash number vote = do {
     r \<leftarrow> (case find_containing_nodes self hash number of
         Some containing \<Rightarrow>
           if containing = [] then append_node chain_ancestry self hash number
           else map_option Inr (introduce_branch self containing hash number)
       | None \<Rightarrow> Some (Inr self));
     case r of
       Inl e \<Rightarrow> Some (Inl e)
     | Inr self \<Rightarrow> do {
         entries \<leftarrow> add_vote_back (\<lambda>v. add_vote v vote) hash (g_entries self);
         Some (Inr (self\<lparr>g_entries := entries\<rparr>))
       }
   }"

section \<open>Queries\<close>

text \<open>The sum of the votes of the given vote-nodes (the loops over \<^verbatim>\<open>children\<close> and \<^verbatim>\<open>nodes\<close>).\<close>

fun sum_votes :: "('h, ('h, 'v :: plus) entry) btree \<Rightarrow> 'h list \<Rightarrow> 'v \<Rightarrow> 'v option" where
  "sum_votes entries [] v = Some v"
| "sum_votes entries (c # cs) v = do {
     e \<leftarrow> bt_get entries c;
     sum_votes entries cs (v + e_cumulative_vote e)
   }"

partial_function (option) find_ancestor ::
  "('h :: linorder, 'v :: {plus, zero}) vote_graph \<Rightarrow> 'h \<Rightarrow> nat \<Rightarrow> ('v \<Rightarrow> bool) \<Rightarrow> ('h \<times> nat) option option" where
  "find_ancestor self hash number condition =
     (case find_containing_nodes self hash number of
        None \<Rightarrow>
          (case node self hash of
             None \<Rightarrow> None
           | Some nd \<Rightarrow>
               if condition (e_cumulative_vote nd) then Some (Some (hash, number))
               else (case slice_first (e_ancestors nd) of
                       None \<Rightarrow> Some None
                     | Some a \<Rightarrow> Option.bind (checked_sub (e_number nd) 1)
                                  (\<lambda>number. find_ancestor self a number condition)))
      | Some children \<Rightarrow>
          if children = [] then Some None
          else Option.bind (sum_votes (g_entries self) children 0) (\<lambda>v.
            if condition v then Some (Some (hash, number))
            else Option.bind (slice_last children) (\<lambda>child.
              Option.bind (node self child) (\<lambda>entry.
              Option.bind (checked_sub (e_number entry) number) (\<lambda>offset.
                case slice_get (e_ancestors entry) offset of
                  None \<Rightarrow> Some None
                | Some parent \<Rightarrow> Option.bind (checked_sub number 1)
                                  (\<lambda>number. find_ancestor self parent number condition))))))"

declare find_ancestor.simps [code]

definition cumulative_vote :: "('h :: linorder, 'v :: {plus, zero}) vote_graph \<Rightarrow> 'h \<Rightarrow> nat \<Rightarrow> 'v option" where
  "cumulative_vote self hash number =
     (case find_containing_nodes self hash number of
        None \<Rightarrow> map_option e_cumulative_vote (node self hash)
      | Some ns \<Rightarrow> sum_votes (g_entries self) ns 0)"

text \<open>\<^verbatim>\<open>ghost_find_merge_point\<close>: \<open>merge_scan\<close> is the inner loop over the descendent nodes, which
  accumulates votes per block in a vector sorted by block; \<open>merge_loop\<close> is the outer loop. The
  vector is empty whenever the outer loop starts a pass.\<close>

fun merge_scan ::
  "('v :: plus \<Rightarrow> bool) \<Rightarrow> nat \<Rightarrow> ('h :: linorder, 'v) entry list \<Rightarrow> ('h \<times> 'v) list \<Rightarrow> 'h option" where
  "merge_scan condition block_number [] descendent_blocks = None"
| "merge_scan condition block_number (d_node # d_nodes) descendent_blocks =
     (case entry_ancestor_block d_node block_number of
        None \<Rightarrow> merge_scan condition block_number d_nodes descendent_blocks
      | Some d_block \<Rightarrow>
          (case binary_search (map fst descendent_blocks) d_block of
             Inr idx \<Rightarrow>
               (let v = snd (descendent_blocks ! idx) + e_cumulative_vote d_node
                in if condition v then Some d_block
                   else merge_scan condition block_number d_nodes
                          (descendent_blocks[idx := (fst (descendent_blocks ! idx), v)]))
           | Inl idx \<Rightarrow>
               merge_scan condition block_number d_nodes
                 (take idx descendent_blocks @ (d_block, e_cumulative_vote d_node) # drop idx descendent_blocks)))"

lemma merge_scan_ancestor:
  "merge_scan condition n ds blocks = Some b \<Longrightarrow> \<exists>d \<in> set ds. entry_ancestor_block d n = Some b"
  by (induction condition n ds blocks rule: merge_scan.induct)
     (auto simp: Let_def split: option.splits sum.splits if_splits)

function merge_loop ::
  "('v :: plus \<Rightarrow> bool) \<Rightarrow> nat \<Rightarrow> ('h :: linorder, 'v) entry list \<Rightarrow> nat \<Rightarrow> nat \<Rightarrow> 'h list \<Rightarrow> 'h subchain" where
  "merge_loop condition base_number descendent_nodes offset best_number hashes =
     (let offset = offset + 1
      in case merge_scan condition (base_number + offset) descendent_nodes [] of
           Some new_best \<Rightarrow>
             (let best_number = best_number + 1
              in merge_loop condition base_number
                   (filter (\<lambda>n. entry_in_direct_ancestry n new_best best_number = Some True) descendent_nodes)
                   offset best_number (hashes @ [new_best]))
         | None \<Rightarrow> \<lparr>sc_hashes = hashes, sc_best_number = best_number\<rparr>)"
  by pat_completeness auto
termination
proof (relation "measure (\<lambda>(condition, base_number, ds, offset, best_number, hashes).
    sum_list (map (\<lambda>d. e_number d - (base_number + offset)) ds))")
  fix condition :: "'v :: plus \<Rightarrow> bool" and ds :: "('h :: linorder, 'v) entry list"
    and base_number offset best_number hashes offset' best_number' b
  assume *: "offset' = offset + 1"
    and "merge_scan condition (base_number + offset') ds [] = Some b"
  then obtain d where d: "d \<in> set ds" "base_number + offset' < e_number d"
    by (auto dest!: merge_scan_ancestor simp: entry_ancestor_block_def split: if_splits)
  have "sum_list (map (\<lambda>d. e_number d - (base_number + offset')) (filter P ds))
      \<le> sum_list (map (\<lambda>d. e_number d - (base_number + offset')) ds)" for P
    by (induction ds) auto
  also have "sum_list (map (\<lambda>d. e_number d - (base_number + offset')) ds)
      < sum_list (map (\<lambda>d. e_number d - (base_number + offset)) ds)"
    using d * by (intro sum_list_less [OF d(1)]) auto
  finally show "((condition, base_number,
      filter (\<lambda>n. entry_in_direct_ancestry n b best_number' = Some True) ds, offset', best_number', hashes @ [b]),
      condition, base_number, ds, offset, best_number, hashes)
    \<in> measure (\<lambda>(condition, base_number, ds, offset, best_number, hashes).
        sum_list (map (\<lambda>d. e_number d - (base_number + offset)) ds))"
    by simp
qed simp

declare merge_loop.simps [simp del]

text \<open>The descendents of a node with their entries (\<^verbatim>\<open>expect\<close> on each), and the filter on the
  forced constraint.\<close>

fun get_nodes :: "('h, ('h, 'v) entry) btree \<Rightarrow> 'h list \<Rightarrow> ('h \<times> ('h, 'v) entry) list option" where
  "get_nodes entries [] = Some []"
| "get_nodes entries (d # ds) = do {
     e \<leftarrow> bt_get entries d;
     es \<leftarrow> get_nodes entries ds;
     Some ((d, e) # es)
   }"

definition constrained :: "('h \<times> nat) option \<Rightarrow> ('h, 'v) entry \<Rightarrow> bool" where
  "constrained force e =
     (case force of
        None \<Rightarrow> True
      | Some (h, n) \<Rightarrow> entry_in_direct_ancestry e h n = Some True)"

definition ghost_find_merge_point ::
  "('h :: linorder, 'v :: {plus, zero}) vote_graph \<Rightarrow> 'h \<Rightarrow> ('h, 'v) entry \<Rightarrow> ('h \<times> nat) option \<Rightarrow> ('v \<Rightarrow> bool)
     \<Rightarrow> 'h subchain option" where
  "ghost_find_merge_point self node_key active_node force_constrain condition = do {
     descendent_nodes \<leftarrow> get_nodes (g_entries self) (e_descendents active_node);
     Some (merge_loop condition (e_number active_node)
       (filter (constrained force_constrain) (map snd descendent_nodes)) 0 (e_number active_node) [node_key])
   }"

text \<open>\<^verbatim>\<open>find_ghost\<close>: the start node, the descent from node to node, then the merge point.\<close>

definition ghost_start ::
  "('h :: linorder, 'v) vote_graph \<Rightarrow> ('h \<times> nat) option \<Rightarrow> ('h \<times> bool) option" where
  "ghost_start self current_best =
     (case current_best of
        None \<Rightarrow> Some (g_base self, False)
      | Some (hash, number) \<Rightarrow>
          (case find_containing_nodes self hash number of
             None \<Rightarrow> Some (hash, False)
           | Some [] \<Rightarrow> Some (g_base self, False)
           | Some (x # _) \<Rightarrow> do {
               e \<leftarrow> node self x;
               ancestor \<leftarrow> entry_ancestor_node e;
               Some (ancestor, True)
             }))"

partial_function (option) ghost_descend ::
  "('h :: linorder, ('h, 'v) entry) btree \<Rightarrow> ('h \<times> nat) option \<Rightarrow> ('v \<Rightarrow> bool) \<Rightarrow> 'h \<Rightarrow> ('h, 'v) entry \<Rightarrow> bool
     \<Rightarrow> ('h \<times> ('h, 'v) entry \<times> bool) option" where
  "ghost_descend entries current_best condition node_key active_node force_constrain =
     Option.bind (get_nodes entries (e_descendents active_node)) (\<lambda>ds.
       case List.find (\<lambda>(_, nd). condition (e_cumulative_vote nd))
              (filter (\<lambda>(_, nd). constrained (if force_constrain then current_best else None) nd) ds) of
         Some (key, nd) \<Rightarrow> ghost_descend entries current_best condition key nd False
       | None \<Rightarrow> Some (node_key, active_node, force_constrain))"

declare ghost_descend.simps [code]

definition find_ghost ::
  "('h :: linorder, 'v :: {plus, zero}) vote_graph \<Rightarrow> ('h \<times> nat) option \<Rightarrow> ('v \<Rightarrow> bool)
     \<Rightarrow> ('h \<times> nat) option option" where
  "find_ghost self current_best condition = do {
     (node_key, force_constrain) \<leftarrow> ghost_start self current_best;
     active_node \<leftarrow> node self node_key;
     if \<not> condition (e_cumulative_vote active_node) then Some None
     else do {
       (node_key, active_node, force_constrain) \<leftarrow>
         ghost_descend (g_entries self) current_best condition node_key active_node force_constrain;
       sc \<leftarrow> ghost_find_merge_point self node_key active_node
         (if force_constrain then current_best else None) condition;
       Some (subchain_best sc)
     }
   }"

end
