(* ===== verification/Graph_Inv.thy ===== *)
theory Graph_Inv
  imports Vote_Graph
begin

text \<open>
  The invariant of the vote graph over a chain that keeps its contract. \<open>graph_ok\<close> is the shape:
  every vote-node carries its block number and the path of blocks back to the next vote-node
  below it, the child lists are exactly the nodes that point back, the heads are
  the leaves. \<open>votes_ok\<close> is the content: the accumulated vote of a node is the sum of the votes
  cast on its block and on the blocks above it (\<open>tally\<close>).

  The lemmas in the context of the locale \<open>chain\<close> say where a block that is not a vote-node sits
  in the graph, and that \<^verbatim>\<open>find_containing_nodes\<close> finds exactly the vote-nodes whose
  ancestor-edge contains it.
\<close>

definition node_ok :: "('h \<Rightarrow> 'h option) \<Rightarrow> ('h \<Rightarrow> nat) \<Rightarrow> ('h, 'v) vote_graph \<Rightarrow> 'h \<Rightarrow> ('h, 'v) entry \<Rightarrow> bool" where
  "node_ok parent number g h e \<longleftrightarrow>
     e_number e = number h \<and>
     (if h = g_base g then e_ancestors e = []
      else e_ancestors e \<noteq> [] \<and> path parent h (e_ancestors e) \<and> last (e_ancestors e) \<in> nodes g \<and>
           set (butlast (e_ancestors e)) \<inter> nodes g = {})"

definition children :: "('h, 'v) vote_graph \<Rightarrow> 'h \<Rightarrow> 'h set" where
  "children g h = {c. \<exists>e. node g c = Some e \<and> entry_ancestor_node e = Some h}"

definition graph_ok :: "('h :: linorder \<Rightarrow> 'h option) \<Rightarrow> ('h \<Rightarrow> nat) \<Rightarrow> ('h, 'v) vote_graph \<Rightarrow> bool" where
  "graph_ok parent number g \<longleftrightarrow>
     g_base g \<in> nodes g \<and> g_base_number g = number (g_base g) \<and>
     (\<forall>h e. node g h = Some e \<longrightarrow> node_ok parent number g h e) \<and>
     (\<forall>h e. node g h = Some e \<longrightarrow> distinct (e_descendents e) \<and> set (e_descendents e) = children g h) \<and>
     sorted_wrt (<) (g_heads g) \<and> set (g_heads g) = {h \<in> nodes g. children g h = {}}"

definition tally :: "('h \<Rightarrow> 'h option) \<Rightarrow> ('h \<times> 'v :: comm_monoid_add) list \<Rightarrow> 'h \<Rightarrow> 'v" where
  "tally parent votes h = (\<Sum>(t, v) \<leftarrow> votes. if descends parent h t then v else 0)"

definition votes_ok ::
  "('h \<Rightarrow> 'h option) \<Rightarrow> ('h, 'v :: comm_monoid_add) vote_graph \<Rightarrow> ('h \<times> 'v) list \<Rightarrow> bool" where
  "votes_ok parent g votes \<longleftrightarrow>
     (\<forall>h e. node g h = Some e \<longrightarrow> e_cumulative_vote e = tally parent votes h) \<and>
     (\<forall>(t, v) \<in> set votes. t \<in> nodes g)"

definition containing :: "('h, 'v) vote_graph \<Rightarrow> 'h \<Rightarrow> 'h set" where
  "containing g b = {c. \<exists>e. node g c = Some e \<and> b \<in> set (e_ancestors e)}"

lemma tally_Nil [simp]: "tally parent [] h = 0"
  by (simp add: tally_def)

lemma tally_Cons [simp]:
  "tally parent ((t, v) # votes) h = (if descends parent h t then v else 0) + tally parent votes h"
  by (simp add: tally_def)

lemma tally_append: "tally parent (us @ vs) h = tally parent us h + tally parent vs h"
  by (simp add: tally_def)

lemma containing_nodes: "containing g b \<subseteq> nodes g"
  by (auto simp: containing_def bt_get_keys)

lemma children_nodes: "children g b \<subseteq> nodes g"
  by (auto simp: children_def bt_get_keys)

lemma finite_containing [simp]: "finite (containing g b)"
  using containing_nodes by (rule finite_subset) simp

lemma votes_okD:
  assumes "votes_ok parent g votes"
  shows votes_ok_node: "node g h = Some e \<Longrightarrow> e_cumulative_vote e = tally parent votes h"
    and votes_ok_target: "(t, v) \<in> set votes \<Longrightarrow> t \<in> nodes g"
  using assms by (auto simp: votes_ok_def)

lemma graph_okD:
  assumes "graph_ok parent number g"
  shows graph_ok_base: "g_base g \<in> nodes g"
    and graph_ok_base_number: "g_base_number g = number (g_base g)"
    and graph_ok_node: "node g h = Some e \<Longrightarrow> node_ok parent number g h e"
    and graph_ok_distinct: "node g h = Some e \<Longrightarrow> distinct (e_descendents e)"
    and graph_ok_descendents: "node g h = Some e \<Longrightarrow> set (e_descendents e) = children g h"
    and graph_ok_heads_sorted: "sorted_wrt (<) (g_heads g)"
    and graph_ok_heads: "set (g_heads g) = {h \<in> nodes g. children g h = {}}"
  using assms by (simp_all add: graph_ok_def)

lemma graph_ok_number: "graph_ok parent number g \<Longrightarrow> node g h = Some e \<Longrightarrow> e_number e = number h"
  by (drule (1) graph_ok_node) (simp add: node_ok_def)

lemma graph_ok_base_ancestors: "graph_ok parent number g \<Longrightarrow> node g (g_base g) = Some e \<Longrightarrow> e_ancestors e = []"
  by (drule (1) graph_ok_node) (simp add: node_ok_def)

lemma graph_ok_edge:
  assumes "graph_ok parent number g" "node g h = Some e" "h \<noteq> g_base g"
  shows edge_nonempty: "e_ancestors e \<noteq> []"
    and edge_path: "path parent h (e_ancestors e)"
    and edge_last: "last (e_ancestors e) \<in> nodes g"
    and edge_butlast: "set (butlast (e_ancestors e)) \<inter> nodes g = {}"
  using graph_ok_node [OF assms(1,2)] assms(3) by (simp_all add: node_ok_def)

lemma edge_ancestor_node:
  assumes "graph_ok parent number g" "node g h = Some e"
  shows "entry_ancestor_node e = (if h = g_base g then None else Some (last (e_ancestors e)))"
  using graph_ok_base_ancestors [OF assms(1)] edge_nonempty [OF assms] assms(2)
  by (auto simp: entry_ancestor_node_def slice_last_def)

lemma edge_path_any:
  "graph_ok parent number g \<Longrightarrow> node g h = Some e \<Longrightarrow> path parent h (e_ancestors e)"
  using edge_path graph_ok_base_ancestors by (metis path.simps(1))

lemma edge_mem_node:
  assumes "graph_ok parent number g" "node g h = Some e" "x \<in> set (e_ancestors e)" "x \<in> nodes g"
  shows "x = last (e_ancestors e)" "h \<noteq> g_base g"
proof -
  show h: "h \<noteq> g_base g" using graph_ok_base_ancestors [OF assms(1)] assms(2,3) by auto
  have "e_ancestors e = butlast (e_ancestors e) @ [last (e_ancestors e)]"
    using edge_nonempty [OF assms(1,2) h] by simp
  then show "x = last (e_ancestors e)"
    using edge_butlast [OF assms(1,2) h] assms(3,4)
    by (metis Int_iff Un_iff empty_iff list.set(1) set_ConsD set_append)
qed

context chain
begin

lemma edge_length:
  "graph_ok parent number g \<Longrightarrow> node g h = Some e \<Longrightarrow> h \<noteq> g_base g \<Longrightarrow>
   number h = number (last (e_ancestors e)) + length (e_ancestors e)"
  by (simp add: path_last_number edge_path edge_nonempty)

lemma edge_last_below:
  "graph_ok parent number g \<Longrightarrow> node g h = Some e \<Longrightarrow> h \<noteq> g_base g \<Longrightarrow>
   descends parent (last (e_ancestors e)) h \<and> number (last (e_ancestors e)) < number h"
  using edge_length [of g h e] edge_nonempty [of parent number g h e]
  by (simp add: path_last_descends edge_path)

text \<open>Every vote-node is a descendent of the base.\<close>

lemma base_below:
  assumes "graph_ok parent number g"
  shows "h \<in> nodes g \<Longrightarrow> descends parent (g_base g) h"
proof (induction "number h" arbitrary: h rule: less_induct)
  case less
  obtain e where e: "node g h = Some e" using less.prems by (rule bt_keysE)
  show ?case
  proof (cases "h = g_base g")
    case False
    note last = edge_last_below [OF assms e False]
    then have "descends parent (g_base g) (last (e_ancestors e))"
      using less.hyps edge_last [OF assms e False] by blast
    then show ?thesis by (rule descends_trans [OF conjunct1 [OF last]])
  qed simp
qed

text \<open>A vote-node strictly below another is at or below the next vote-node.\<close>

lemma node_below_last:
  assumes "graph_ok parent number g" "node g x = Some e" "c \<in> nodes g" "descends parent c x" "c \<noteq> x"
  shows "x \<noteq> g_base g" "descends parent c (last (e_ancestors e))"
proof -
  show x: "x \<noteq> g_base g"
    using base_below [OF assms(1,3)] assms(4,5) descends_antisym by metis
  have lt: "number c < number x" using number_strict assms(4,5) by blast
  show "descends parent c (last (e_ancestors e))"
  proof (cases "c \<in> set (e_ancestors e)")
    case True
    then show ?thesis using edge_mem_node(1) [OF assms(1,2) True assms(3)] by simp
  next
    case False
    then have "number c \<le> number (last (e_ancestors e))"
      using path_mem [OF edge_path [OF assms(1,2) x], of c] assms(4) lt edge_length [OF assms(1,2) x] by simp
    then show ?thesis
      using descends_le [OF assms(4), of "last (e_ancestors e)"] edge_last_below [OF assms(1,2) x] by blast
  qed
qed

text \<open>A block between the base and a vote-node that is not a vote-node is in the ancestor-edge of
  exactly one vote-node at or below this node.\<close>

lemma containing_exists:
  assumes "graph_ok parent number g" "descends parent (g_base g) b" "b \<notin> nodes g"
  shows "k \<in> nodes g \<Longrightarrow> descends parent b k \<Longrightarrow> \<exists>c \<in> containing g b. descends parent c k"
proof (induction "number k" arbitrary: k rule: less_induct)
  case less
  obtain e where e: "node g k = Some e" using less.prems(1) by (rule bt_keysE)
  have "b \<noteq> k" "b \<noteq> g_base g" using assms(3) less.prems(1) graph_ok_base [OF assms(1)] by auto
  then have lt: "number b < number k" and k: "k \<noteq> g_base g"
    using number_strict less.prems(2) assms(2) descends_antisym by blast+
  show ?case
  proof (cases "b \<in> set (e_ancestors e)")
    case True
    then show ?thesis using e by (auto simp: containing_def)
  next
    case False
    let ?p = "last (e_ancestors e)"
    have p: "descends parent ?p k" "number ?p < number k"
      using edge_last_below [OF assms(1) e k] by auto
    have "number b \<le> number ?p"
      using False path_mem [OF edge_path [OF assms(1) e k], of b] less.prems(2) lt edge_length [OF assms(1) e k]
      by simp
    then have "descends parent b ?p" using descends_le less.prems(2) p(1) by blast
    then obtain c where "c \<in> containing g b" "descends parent c ?p"
      using less.hyps [OF p(2) edge_last [OF assms(1) e k]] by blast
    then show ?thesis using descends_trans [OF p(1)] by blast
  qed
qed

lemma containing_above:
  assumes "graph_ok parent number g" "c \<in> containing g b"
  shows "descends parent b c" "number b < number c" "c \<noteq> g_base g"
proof -
  obtain e where e: "node g c = Some e" "b \<in> set (e_ancestors e)"
    using assms(2) by (auto simp: containing_def)
  show "descends parent b c" "number b < number c"
    using path_mem [OF edge_path_any [OF assms(1) e(1)], of b] e(2) by auto
  show "c \<noteq> g_base g" using graph_ok_base_ancestors [OF assms(1)] e by auto
qed

lemma containing_below_last:
  assumes "graph_ok parent number g" "node g c = Some e" "b \<in> set (e_ancestors e)" "b \<notin> nodes g"
  shows "descends parent (last (e_ancestors e)) b" "number (last (e_ancestors e)) < number b"
proof -
  have c: "c \<noteq> g_base g" using graph_ok_base_ancestors [OF assms(1)] assms(2,3) by auto
  have mem: "descends parent b c" "number c \<le> number b + length (e_ancestors e)"
    using path_mem [OF edge_path [OF assms(1,2) c], of b] assms(3) by auto
  have "number (last (e_ancestors e)) \<le> number b"
    using mem(2) edge_length [OF assms(1,2) c] by simp
  then show "descends parent (last (e_ancestors e)) b"
    using descends_le edge_last_below [OF assms(1,2) c] mem(1) by blast
  moreover have "last (e_ancestors e) \<noteq> b" using edge_last [OF assms(1,2) c] assms(4) by auto
  ultimately show "number (last (e_ancestors e)) < number b" by (rule number_strict)
qed

lemma containing_unique:
  assumes ok: "graph_ok parent number g" and b: "b \<notin> nodes g"
    and c1: "c1 \<in> containing g b" and c2: "c2 \<in> containing g b"
    and k: "descends parent c1 k" "descends parent c2 k"
  shows "c1 = c2"
proof -
  have aux: "c = d" if c: "c \<in> containing g b" and d: "d \<in> containing g b" and cd: "descends parent c d" for c d
  proof (rule ccontr)
    assume "c \<noteq> d"
    obtain e where e: "node g d = Some e" "b \<in> set (e_ancestors e)" using d by (auto simp: containing_def)
    have "descends parent c (last (e_ancestors e))"
      by (rule node_below_last(2) [OF ok e(1) subsetD [OF containing_nodes c] cd \<open>c \<noteq> d\<close>])
    then have "number c \<le> number (last (e_ancestors e))" by (rule number_mono)
    then show False
      using containing_below_last(2) [OF ok e b] containing_above(2) [OF ok c] by simp
  qed
  show ?thesis using descends_linear [OF k] aux c1 c2 by blast
qed

section \<open>Finding the containing nodes\<close>

text \<open>What \<^verbatim>\<open>in_direct_ancestry\<close> answers on a vote-node: whether the block of this number in
  the ancestor-edge is the given block, or that the edge does not reach the number.\<close>

lemma in_direct_ancestry_True:
  assumes "graph_ok parent number g" "node g h = Some e"
  shows "entry_in_direct_ancestry e b (number b) = Some True \<longleftrightarrow> b \<in> set (e_ancestors e)"
proof -
  note path = edge_path_any [OF assms] and num = graph_ok_number [OF assms]
  let ?i = "number h - number b - 1"
  have "entry_in_direct_ancestry e b (number b) = Some True
      \<longleftrightarrow> number b < number h \<and> ?i < length (e_ancestors e) \<and> e_ancestors e ! ?i = b"
    by (auto simp: entry_in_direct_ancestry_def entry_ancestor_block_def slice_get_def num)
  also have "\<dots> \<longleftrightarrow> b \<in> set (e_ancestors e)"
  proof
    assume "number b < number h \<and> ?i < length (e_ancestors e) \<and> e_ancestors e ! ?i = b"
    then show "b \<in> set (e_ancestors e)" using nth_mem by metis
  next
    assume "b \<in> set (e_ancestors e)"
    then have "descends parent b h \<and> number b < number h \<and> ?i < length (e_ancestors e)"
      using path_mem [OF path, of b] by auto
    then show "number b < number h \<and> ?i < length (e_ancestors e) \<and> e_ancestors e ! ?i = b"
      using path_nth [OF path, of b] by simp
  qed
  finally show ?thesis .
qed

lemma in_direct_ancestry_below:
  assumes "graph_ok parent number g" "node g h = Some e" "h \<noteq> g_base g" "n < number (last (e_ancestors e))"
  shows "entry_in_direct_ancestry e b n = None"
  using edge_length [OF assms(1-3)] assms(4) graph_ok_number [OF assms(1,2)]
  by (simp add: entry_in_direct_ancestry_def entry_ancestor_block_def slice_get_None)

text \<open>The walk from a head keeps: every visited node either decides or has its next node
  visited (\<open>visited_closed\<close>, up to the node the walk is at), and the keys found are the visited nodes
  that contain the block.\<close>

definition visited_closed :: "('h, 'v) vote_graph \<Rightarrow> 'h \<Rightarrow> 'h set \<Rightarrow> 'h set \<Rightarrow> bool" where
  "visited_closed g b at V \<longleftrightarrow> V \<subseteq> nodes g \<and>
     (\<forall>h \<in> V. \<forall>e p. node g h = Some e \<longrightarrow> entry_in_direct_ancestry e b (number b) = None \<longrightarrow>
        entry_ancestor_node e = Some p \<longrightarrow> p \<in> V \<union> at)"

lemma visited_closed_insert:
  assumes "visited_closed g b {head} V" "node g head = Some e"
    and "\<And>p. entry_in_direct_ancestry e b (number b) = None \<Longrightarrow> entry_ancestor_node e = Some p \<Longrightarrow> p \<in> at"
  shows "visited_closed g b at (insert head V)"
proof -
  have "p \<in> insert head V \<union> at"
    if "h \<in> insert head V" "node g h = Some e'" "entry_in_direct_ancestry e' b (number b) = None"
      "entry_ancestor_node e' = Some p" for h e' p
  proof (cases "h = head")
    case True
    then show ?thesis using that(2-) assms(2,3) by simp
  next
    case False
    then have "p \<in> V \<union> {head}" using that assms(1) unfolding visited_closed_def by simp
    then show ?thesis by blast
  qed
  then show ?thesis
    using assms(1) bt_get_keys [OF assms(2)] by (simp add: visited_closed_def)
qed

lemma visited_closed_mem: "visited_closed g b {head} V \<Longrightarrow> head \<in> V \<Longrightarrow> visited_closed g b {} V"
  unfolding visited_closed_def by blast

lemma containing_walk_inv:
  assumes ok: "graph_ok parent number g"
    and "head \<in> nodes g" "visited_closed g b {head} (set visited)"
    and "distinct keys" "set keys = containing g b \<inter> set visited"
    and "containing_walk (g_entries g) b (number b) head (visited, keys) = (visited', keys')"
  shows "visited_closed g b {} (set visited') \<and> head \<in> set visited' \<and> set visited \<subseteq> set visited' \<and>
    distinct keys' \<and> set keys' = containing g b \<inter> set visited'"
  using assms(2-)
proof (induction "g_entries g" b "number b" head "(visited, keys)" arbitrary: visited keys
    rule: containing_walk.induct)
  case (1 b head visited keys)
  obtain e where e: "node g head = Some e" using "1.prems"(1) by (rule bt_keysE)
  have cont: "head \<in> containing g b \<longleftrightarrow> entry_in_direct_ancestry e b (number b) = Some True"
    using in_direct_ancestry_True [OF ok e] e by (auto simp: containing_def)
  note unfold = containing_walk.simps [of "g_entries g" b "number b" head visited keys]
  show ?case
  proof (cases "head \<in> set visited")
    case True
    then show ?thesis
      using "1.prems" e visited_closed_mem [OF "1.prems"(2)] by (simp add: unfold)
  next
    case new: False
    let ?V = "bs_insert head visited"
    show ?thesis
    proof (cases "entry_in_direct_ancestry e b (number b)")
      case (Some d)
      then have "visited_closed g b {} (set ?V)"
        using visited_closed_insert [OF "1.prems"(2) e, of "{}"] by simp
      moreover have "visited' = ?V \<and> keys' = (if d then keys @ [head] else keys)"
        using "1.prems"(5) e new Some by (cases d) (simp_all add: unfold)
      ultimately show ?thesis
        using "1.prems"(3,4) new cont Some by auto
    next
      case undecided: None
      show ?thesis
      proof (cases "entry_ancestor_node e")
        case None
        then have "visited_closed g b {} (set ?V)"
          using visited_closed_insert [OF "1.prems"(2) e, of "{}"] by simp
        moreover have "visited' = ?V \<and> keys' = keys"
          using "1.prems"(5) e new undecided None by (simp add: unfold)
        ultimately show ?thesis
          using "1.prems"(3,4) new cont undecided by auto
      next
        case (Some p)
        have p: "p \<in> nodes g"
          using edge_ancestor_node [OF ok e] Some edge_last [OF ok e] by (auto split: if_splits)
        have "visited_closed g b {p} (set ?V)"
          using visited_closed_insert [OF "1.prems"(2) e, of "{p}"] Some by simp
        moreover have "set keys = containing g b \<inter> set ?V"
          using "1.prems"(4) cont undecided by auto
        moreover have "containing_walk (g_entries g) b (number b) p (?V, keys) = (visited', keys')"
          using "1.prems"(5) e new undecided Some by (simp add: unfold)
        ultimately show ?thesis
          using "1.hyps" [OF e new undecided Some p _ "1.prems"(3)] by auto
      qed
    qed
  qed
qed

lemma containing_fold_inv:
  assumes ok: "graph_ok parent number g"
    and "set hs \<subseteq> nodes g" "visited_closed g b {} (set visited)"
    and "distinct keys" "set keys = containing g b \<inter> set visited"
    and "fold (containing_walk (g_entries g) b (number b)) hs (visited, keys) = (visited', keys')"
  shows "visited_closed g b {} (set visited') \<and> set hs \<subseteq> set visited' \<and> set visited \<subseteq> set visited' \<and>
    distinct keys' \<and> set keys' = containing g b \<inter> set visited'"
  using assms(2-)
proof (induction hs arbitrary: visited keys)
  case (Cons h hs)
  obtain visited1 keys1 where w: "containing_walk (g_entries g) b (number b) h (visited, keys) = (visited1, keys1)"
    by fastforce
  have "visited_closed g b {h} (set visited)"
    using Cons.prems(2) unfolding visited_closed_def by blast
  then have 1: "visited_closed g b {} (set visited1)" "h \<in> set visited1" "set visited \<subseteq> set visited1"
    "distinct keys1" "set keys1 = containing g b \<inter> set visited1"
    using containing_walk_inv [OF ok _ _ Cons.prems(3,4) w] Cons.prems(1) by auto
  have "fold (containing_walk (g_entries g) b (number b)) hs (visited1, keys1) = (visited', keys')"
    using Cons.prems(5) w by simp
  then show ?case using Cons.IH [OF _ 1(1) 1(4,5)] Cons.prems(1) 1(2,3) by auto
qed simp

text \<open>From a visited node the walk visits every vote-node that contains the block below it.\<close>

lemma visited_containing:
  assumes ok: "graph_ok parent number g" and closed: "visited_closed g b {} V"
    and c: "c \<in> containing g b" and b: "b \<notin> nodes g"
  shows "x \<in> V \<Longrightarrow> descends parent c x \<Longrightarrow> c \<in> V"
proof (induction "number x" arbitrary: x rule: less_induct)
  case less
  show ?case
  proof (cases "c = x")
    case False
    have "x \<in> nodes g" using less.prems(1) closed unfolding visited_closed_def by blast
    then obtain e where e: "node g x = Some e" by (rule bt_keysE)
    note below = node_below_last [OF ok e subsetD [OF containing_nodes c] less.prems(2) False]
    let ?p = "last (e_ancestors e)"
    have "number b < number ?p"
      using containing_above(2) [OF ok c] number_mono [OF below(2)] by simp
    then have "entry_in_direct_ancestry e b (number b) = None"
      by (rule in_direct_ancestry_below [OF ok e below(1)])
    moreover have "entry_ancestor_node e = Some ?p"
      using edge_ancestor_node [OF ok e] below(1) by simp
    ultimately have "?p \<in> V"
      using closed e less.prems(1) unfolding visited_closed_def by blast
    then show ?thesis
      using less.hyps [OF _ _ below(2)] edge_last_below [OF ok e below(1)] by blast
  qed (use less.prems(1) in simp)
qed

lemma head_above:
  assumes ok: "graph_ok parent number g" and c: "c \<in> nodes g"
  shows "\<exists>h \<in> set (g_heads g). descends parent c h"
proof -
  let ?A = "{h \<in> nodes g. descends parent c h}"
  have fin: "finite (number ` ?A)" and ne: "?A \<noteq> {}" using c by auto
  have "Max (number ` ?A) \<in> number ` ?A" by (rule Max_in [OF fin]) (use ne in simp)
  then obtain h where h: "h \<in> ?A" "number h = Max (number ` ?A)" by force
  have "children g h = {}"
  proof (rule ccontr)
    assume "children g h \<noteq> {}"
    then obtain d e where e: "node g d = Some e" "entry_ancestor_node e = Some h"
      unfolding children_def by blast
    then have d: "d \<noteq> g_base g" "last (e_ancestors e) = h"
      using edge_ancestor_node [OF ok e(1)] by (auto split: if_splits)
    then have hd: "descends parent h d" "number h < number d"
      using edge_last_below [OF ok e(1)] by auto
    have "d \<in> ?A" using h(1) bt_get_keys [OF e(1)] descends_trans [OF hd(1)] by simp
    then have "number d \<le> number h" using fin h(2) by simp
    then show False using hd(2) by simp
  qed
  then show ?thesis using h(1) graph_ok_heads [OF ok] by blast
qed

text \<open>\<^verbatim>\<open>find_containing_nodes\<close> lists the vote-nodes that contain the block, each once.\<close>

lemma find_containing_nodes_Some:
  assumes ok: "graph_ok parent number g" and b: "b \<notin> nodes g"
  shows "\<exists>cs. find_containing_nodes g b (number b) = Some cs \<and> distinct cs \<and> set cs = containing g b"
proof -
  obtain V cs where f: "fold (containing_walk (g_entries g) b (number b)) (g_heads g) ([], []) = (V, cs)"
    by fastforce
  have "visited_closed g b {} (set ([] :: 'h list))" by (simp add: visited_closed_def)
  then have inv: "visited_closed g b {} (set V)" "set (g_heads g) \<subseteq> set V" "distinct cs"
    "set cs = containing g b \<inter> set V"
    using containing_fold_inv [OF ok _ _ _ _ f] graph_ok_heads [OF ok] by auto
  have "containing g b \<subseteq> set V"
  proof
    fix c assume c: "c \<in> containing g b"
    then obtain h where "h \<in> set (g_heads g)" "descends parent c h"
      using head_above [OF ok subsetD [OF containing_nodes c]] by blast
    then show "c \<in> set V" using visited_containing [OF ok inv(1) c b, of h] inv(2) by blast
  qed
  then show ?thesis
    using f b inv(3,4) by (auto simp: find_containing_nodes_def)
qed

lemma find_containing_nodes_None:
  "find_containing_nodes g b n = None \<longleftrightarrow> b \<in> nodes g"
  by (simp add: find_containing_nodes_def)

section \<open>The tally of a block that is not a vote-node\<close>

lemma tally_containing:
  assumes ok: "graph_ok parent number g" and b: "b \<notin> nodes g" "descends parent (g_base g) b"
    and targets: "\<And>t v. (t, v) \<in> set votes \<Longrightarrow> t \<in> nodes g"
  shows "tally parent votes b = (\<Sum>c \<in> containing g b. tally parent votes c)"
  using targets
proof (induction votes)
  case Nil
  then show ?case by simp
next
  case (Cons tv votes)
  obtain t v where tv: "tv = (t, v)" by (cases tv)
  have t: "t \<in> nodes g" using Cons.prems [of t v] tv by simp
  have IH: "tally parent votes b = (\<Sum>c \<in> containing g b. tally parent votes c)"
    by (rule Cons.IH, rule Cons.prems, erule list.set_intros(2))
  have "(\<Sum>c \<in> containing g b. if descends parent c t then v else 0) = (if descends parent b t then v else 0)"
  proof (cases "descends parent b t")
    case True
    then obtain c where c: "c \<in> containing g b" "descends parent c t"
      using containing_exists [OF ok b(2,1) t] by blast
    have "descends parent d t \<longleftrightarrow> d = c" if "d \<in> containing g b" for d
      using containing_unique [OF ok b(1) that c(1) _ c(2)] c(2) by blast
    then have "(\<Sum>d \<in> containing g b. if descends parent d t then v else 0)
        = (\<Sum>d \<in> containing g b. if d = c then v else 0)"
      by (intro sum.cong) auto
    then show ?thesis using c(1) True by simp
  next
    case False
    have "\<not> descends parent c t" if "c \<in> containing g b" for c
      using False descends_trans [OF _ containing_above(1) [OF ok that], of t] by blast
    then have "(\<Sum>c \<in> containing g b. if descends parent c t then v else 0) = (\<Sum>c \<in> containing g b. 0)"
      by (intro sum.cong) auto
    then show ?thesis using False by simp
  qed
  then show ?case using IH tv by (simp add: sum.distrib)
qed

lemma tally_outside:
  assumes ok: "graph_ok parent number g" and b: "b \<notin> nodes g" "descends parent (g_base g) b"
    and "containing g b = {}" and targets: "\<And>t v. (t, v) \<in> set votes \<Longrightarrow> t \<in> nodes g"
  shows "tally parent votes b = 0"
  using tally_containing [OF ok b targets] assms(4) by simp

lemma sum_votes_eq:
  assumes "\<And>c. c \<in> set cs \<Longrightarrow> \<exists>e. bt_get entries c = Some e \<and> e_cumulative_vote e = f c"
  shows "sum_votes entries cs v = Some (v + sum_list (map f cs))"
  using assms
proof (induction cs arbitrary: v)
  case (Cons c cs)
  obtain e where "bt_get entries c = Some e" "e_cumulative_vote e = f c"
    using Cons.prems [of c] by auto
  moreover have "sum_votes entries cs (v + f c) = Some (v + f c + sum_list (map f cs))"
    by (rule Cons.IH) (use Cons.prems in auto)
  ultimately show ?case by (simp add: add.assoc)
qed simp

end

end
