(* ===== verification/Graph_Ops.thy ===== *)
theory Graph_Ops
  imports Graph_Inv
begin

text \<open>
  The operations that change the vote graph keep its invariant: \<^verbatim>\<open>append\<close>,
  \<^verbatim>\<open>introduce_branch\<close>, the loop that adds a vote, \<^verbatim>\<open>insert\<close> as a whole, \<^verbatim>\<open>new\<close> and
  \<^verbatim>\<open>adjust_base\<close>. Each lemma states that the operation returns (no \<^verbatim>\<open>expect\<close> or \<^verbatim>\<open>assert!\<close>
  fires, the loops end) and what the new graph holds.
\<close>

text \<open>A graph that differs from \<open>g\<close> only in its accumulated votes has the same shape.\<close>

definition same_shape :: "('h, 'v) vote_graph \<Rightarrow> ('h, 'v) vote_graph \<Rightarrow> bool" where
  "same_shape g g' \<longleftrightarrow> g_base g' = g_base g \<and> g_base_number g' = g_base_number g \<and> g_heads g' = g_heads g \<and>
     (\<forall>h. map_option (\<lambda>e. (e_number e, e_ancestors e, e_descendents e)) (node g' h)
        = map_option (\<lambda>e. (e_number e, e_ancestors e, e_descendents e)) (node g h))"

lemma same_shapeD:
  assumes "same_shape g g'"
  shows same_shape_base: "g_base g' = g_base g" "g_base_number g' = g_base_number g" "g_heads g' = g_heads g"
    and same_shape_node: "node g' h = Some e' \<Longrightarrow> \<exists>e. node g h = Some e \<and> e_number e' = e_number e \<and>
      e_ancestors e' = e_ancestors e \<and> e_descendents e' = e_descendents e"
    and same_shape_nodes: "nodes g' = nodes g"
proof -
  show "g_base g' = g_base g" "g_base_number g' = g_base_number g" "g_heads g' = g_heads g"
    using assms by (simp_all add: same_shape_def)
  have *: "map_option (\<lambda>e. (e_number e, e_ancestors e, e_descendents e)) (node g' h)
      = map_option (\<lambda>e. (e_number e, e_ancestors e, e_descendents e)) (node g h)" for h
    using assms by (simp add: same_shape_def)
  show "node g' h = Some e' \<Longrightarrow> \<exists>e. node g h = Some e \<and> e_number e' = e_number e \<and>
      e_ancestors e' = e_ancestors e \<and> e_descendents e' = e_descendents e"
    using * [of h] by (cases "node g h") auto
  have "node g' h = None \<longleftrightarrow> node g h = None" for h
    using * [of h] by (cases "node g h"; cases "node g' h") auto
  then show "nodes g' = nodes g" by (auto simp: bt_keys_dom dom_def)
qed

lemma same_shape_sym: "same_shape g g' \<Longrightarrow> same_shape g' g"
  by (simp add: same_shape_def)

lemma same_shape_children:
  assumes "same_shape g g'"
  shows "children g' h = children g h"
proof -
  have "children g2 h \<subseteq> children g1 h" if "same_shape g1 g2" for g1 g2 :: "('a, 'b) vote_graph"
  proof
    fix c assume "c \<in> children g2 h"
    then obtain e where e: "node g2 c = Some e" "entry_ancestor_node e = Some h"
      unfolding children_def by blast
    then show "c \<in> children g1 h"
      using same_shape_node [OF that e(1)] by (auto simp: children_def entry_ancestor_node_def)
  qed
  from this [OF assms] this [OF same_shape_sym [OF assms]] show ?thesis by blast
qed

lemma graph_ok_same_shape:
  assumes "graph_ok parent number g" "same_shape g g'"
  shows "graph_ok parent number g'"
proof -
  note sh = same_shape_base [OF assms(2)] same_shape_nodes [OF assms(2)] same_shape_children [OF assms(2)]
  have "node_ok parent number g' h e' \<and> distinct (e_descendents e') \<and> set (e_descendents e') = children g h"
    if e': "node g' h = Some e'" for h e'
  proof -
    obtain e where e: "node g h = Some e" "e_number e' = e_number e" "e_ancestors e' = e_ancestors e"
      "e_descendents e' = e_descendents e"
      using same_shape_node [OF assms(2) e'] by blast
    then show ?thesis
      using graph_ok_node [OF assms(1) e(1)] graph_ok_distinct [OF assms(1) e(1)]
        graph_ok_descendents [OF assms(1) e(1)]
      by (simp add: node_ok_def sh)
  qed
  then show ?thesis
    using assms(1) unfolding graph_ok_def [of _ _ g'] sh
    by (simp add: graph_ok_base graph_ok_base_number graph_ok_heads_sorted graph_ok_heads)
qed

section \<open>Appending a head\<close>

lemma first_entry_index_Some:
  "first_entry_index entries xs = Some i \<Longrightarrow>
     i < length xs \<and> xs ! i \<in> bt_keys entries \<and> set (take i xs) \<inter> bt_keys entries = {}"
  by (induction xs arbitrary: i) (auto split: if_splits)

lemma first_entry_index_exists:
  "\<exists>x \<in> set xs. x \<in> bt_keys entries \<Longrightarrow> \<exists>i. first_entry_index entries xs = Some i"
  by (induction xs) auto

lemma butlast_take_Suc: "i < length xs \<Longrightarrow> butlast (take (Suc i) xs) = take i xs"
  by (simp add: take_Suc_conv_app_nth)

lemma last_take_Suc: "i < length xs \<Longrightarrow> last (take (Suc i) xs) = xs ! i"
  by (simp add: take_Suc_conv_app_nth)

text \<open>Adding a vote-node that no edge contains, as a child of an existing node.\<close>

lemma graph_ok_add_leaf:
  assumes ok: "graph_ok parent number g" and new: "h \<notin> nodes g" "containing g h = {}" "h \<notin> set anc"
    and a: "node g a = Some ea"
    and anc: "anc \<noteq> []" "path parent h anc" "last anc = a" "set (butlast anc) \<inter> nodes g = {}"
    and g': "g' = g\<lparr>g_entries := bt_insert h \<lparr>e_number = number h, e_ancestors = anc, e_descendents = [],
        e_cumulative_vote = v\<rparr> (bt_insert a (ea\<lparr>e_descendents := e_descendents ea @ [h]\<rparr>) (g_entries g)),
      g_heads := bs_insert h (bs_remove a (g_heads g))\<rparr>"
  shows "graph_ok parent number g'"
proof -
  let ?new = "\<lparr>e_number = number h, e_ancestors = anc, e_descendents = [], e_cumulative_vote = v\<rparr>"
  let ?ea = "ea\<lparr>e_descendents := e_descendents ea @ [h]\<rparr>"
  have ah: "a \<in> nodes g" "a \<noteq> h" using bt_get_keys [OF a] new(1) by auto
  have node: "node g' k = (if k = h then Some ?new else if k = a then Some ?ea else node g k)" for k
    by (simp add: g')
  have nodes: "nodes g' = insert h (nodes g)" using ah by (auto simp: g')
  have base: "g_base g' = g_base g" "g_base g \<noteq> h" "g_base_number g' = g_base_number g"
    using graph_ok_base [OF ok] new(1) by (auto simp: g')
  have shape: "\<exists>e'. node g k = Some e' \<and> e_number e = e_number e' \<and> e_ancestors e = e_ancestors e'"
    if "node g' k = Some e" "k \<noteq> h" for k e
    using that a by (auto simp: node split: if_splits)
  have not_h: "h \<notin> set (e_ancestors e)" if "node g k = Some e" for k e
    using new(2) that by (auto simp: containing_def)
  have node_ok': "node_ok parent number g' k e" if e: "node g' k = Some e" for k e
  proof (cases "k = h")
    case True
    have "h \<notin> set (butlast anc)" using new(3) by (auto dest: in_set_butlastD)
    then show ?thesis
      using True e base anc ah by (auto simp: node node_ok_def nodes)
  next
    case False
    then obtain e' where e': "node g k = Some e'" "e_number e = e_number e'" "e_ancestors e = e_ancestors e'"
      using shape [OF e] by blast
    have "h \<notin> set (butlast (e_ancestors e'))" using not_h [OF e'(1)] by (auto dest: in_set_butlastD)
    then show ?thesis
      using graph_ok_node [OF ok e'(1)] e' by (auto simp: node_ok_def nodes base)
  qed
  have last_h: "entry_ancestor_node e \<noteq> Some h" if "node g k = Some e" for k e
    using not_h [OF that] by (auto simp: entry_ancestor_node_def slice_last_def)
  have last_new: "entry_ancestor_node ?new = Some a"
    using anc by (simp add: entry_ancestor_node_def slice_last_def)
  have anc_ea: "entry_ancestor_node ?ea = entry_ancestor_node ea"
    by (simp add: entry_ancestor_node_def)
  have other: "k \<in> children g' x \<longleftrightarrow> (if k = h then x = a else k \<in> children g x)" for k x
    by (auto simp: children_def node last_new anc_ea a)
  have h_child: "h \<notin> children g x" for x using new(1) children_nodes [of g x] by blast
  have children: "children g' x = (if x = a then insert h (children g x) else children g x)" for x
    using h_child [of x] by (auto simp: other split: if_splits)
  have children_h: "children g h = {}" using last_h by (auto simp: children_def)
  have desc: "distinct (e_descendents e) \<and> set (e_descendents e) = children g' k" if e: "node g' k = Some e" for k e
  proof -
    consider "k = h" "e = ?new" | "k = a" "k \<noteq> h" "e = ?ea" | "k \<noteq> h" "k \<noteq> a" "node g k = Some e"
      using e by (auto simp: node split: if_splits)
    then show ?thesis
      using graph_ok_distinct [OF ok] graph_ok_descendents [OF ok] a ah children_h h_child
      by cases (auto simp: children)
  qed
  have heads: "set (g_heads g') = {k \<in> nodes g'. children g' k = {}}"
  proof -
    have "set (g_heads g') = insert h (set (g_heads g) - {a})" by (simp add: g')
    then show ?thesis using ah children_h by (auto simp: nodes children graph_ok_heads [OF ok])
  qed
  have sorted: "sorted_wrt (<) (g_heads g')"
    by (simp add: g' strict_sorted_bs_insert strict_sorted_bs_remove graph_ok_heads_sorted [OF ok])
  show ?thesis
    unfolding graph_ok_def using node_ok' desc heads sorted graph_ok_base [OF ok] graph_ok_base_number [OF ok]
    by (simp add: nodes base)
qed

context chain
begin

lemma append_node_Inl:
  assumes "\<not> descends parent (g_base g) h"
  shows "append_node ancestry g h n = Some (Inl NotDescendent)"
proof -
  have "g_base g \<noteq> h" using assms by auto
  then have "ancestry (g_base g) h = Inl NotDescendent" using ancestry_Inl assms by blast
  then show ?thesis by (simp add: append_node_def)
qed

lemma append_node_Inr:
  fixes g :: "('h, 'v :: comm_monoid_add) vote_graph"
  assumes ok: "graph_ok parent number g" and votes: "votes_ok parent g votes"
    and desc: "descends parent (g_base g) h" and new: "h \<notin> nodes g" "containing g h = {}"
  shows "\<exists>g'. append_node ancestry g h (number h) = Some (Inr g') \<and> graph_ok parent number g' \<and>
    votes_ok parent g' votes \<and> nodes g' = insert h (nodes g) \<and> g_base g' = g_base g"
proof -
  have ne: "g_base g \<noteq> h" using graph_ok_base [OF ok] new by auto
  then obtain between where between: "ancestry (g_base g) h = Inr between"
    using ancestry_total desc by blast
  let ?xs = "between @ [g_base g]"
  have path: "path parent h ?xs" by (rule ancestry_path [OF ne between])
  obtain i where i: "first_entry_index (g_entries g) ?xs = Some i"
    using first_entry_index_exists [of ?xs "g_entries g"] graph_ok_base [OF ok] by auto
  note idx = first_entry_index_Some [OF i]
  obtain ea where ea: "node g (?xs ! i) = Some ea" using idx by (auto elim: bt_keysE)
  let ?anc = "take (i + 1) ?xs"
  let ?g' = "g\<lparr>g_entries := bt_insert h \<lparr>e_number = number h, e_ancestors = ?anc, e_descendents = [],
        e_cumulative_vote = 0\<rparr> (bt_insert (?xs ! i) (ea\<lparr>e_descendents := e_descendents ea @ [h]\<rparr>) (g_entries g)),
      g_heads := bs_insert h (bs_remove (?xs ! i) (g_heads g))\<rparr>"
  have res: "append_node ancestry g h (number h) = Some (Inr ?g')"
    by (simp add: append_node_def between i ea Let_def del: take_append)
  have "graph_ok parent number ?g'"
  proof (rule graph_ok_add_leaf [OF ok new _ ea _ _ _ _ refl])
    show "h \<notin> set ?anc" by (rule path_not_mem [OF path_take [OF path]])
    show "?anc \<noteq> []" by (cases between) auto
    show "path parent h ?anc" by (rule path_take [OF path])
    show "last ?anc = ?xs ! i" using last_take_Suc [of i ?xs] idx by simp
    have "butlast ?anc = take i ?xs" using butlast_take_Suc [of i ?xs] idx by (simp only: Suc_eq_plus1)
    then show "set (butlast ?anc) \<inter> nodes g = {}" using idx by (simp only:)
  qed
  moreover have "votes_ok parent ?g' votes"
    using tally_outside [OF ok new(1) desc new(2), of votes] votes_ok_target [OF votes]
      votes_ok_node [OF votes] ea
    unfolding votes_ok_def by auto
  moreover have "nodes ?g' = insert h (nodes g)" using bt_get_keys [OF ea] by auto
  ultimately show ?thesis using res by (intro exI [of _ ?g']) simp
qed

end

section \<open>Introducing a branch\<close>

text \<open>\<open>cut_edge n e\<close> is the entry with its ancestor-edge cut at the block of number \<open>n\<close>.\<close>

definition cut_edge :: "nat \<Rightarrow> ('h, 'v) entry \<Rightarrow> ('h, 'v) entry" where
  "cut_edge n e = e\<lparr>e_ancestors := take (e_number e - n) (e_ancestors e)\<rparr>"

lemma cut_edge_simps [simp]:
  "e_number (cut_edge n e) = e_number e" "e_descendents (cut_edge n e) = e_descendents e"
  "e_cumulative_vote (cut_edge n e) = e_cumulative_vote e"
  "e_ancestors (cut_edge n e) = take (e_number e - n) (e_ancestors e)"
  by (simp_all add: cut_edge_def)

lemma in_direct_ancestry_TrueD:
  assumes "entry_in_direct_ancestry e b n = Some True"
  shows "n < e_number e" "e_number e - n \<le> length (e_ancestors e)" "e_ancestors e ! (e_number e - n - 1) = b"
  using assms by (auto simp: entry_in_direct_ancestry_def entry_ancestor_block_def slice_get_def split: if_splits)

lemma branch_fold_Some:
  fixes entries :: "('h :: linorder, ('h, 'v :: comm_monoid_add) entry) btree"
  assumes "distinct ds"
    and "\<And>d. d \<in> set ds \<Longrightarrow> \<exists>e. bt_get entries d = Some e \<and> entry_in_direct_ancestry e b n = Some True"
  shows "\<exists>entries'. branch_fold ds b n entries (Some (nw, prev)) = Some (entries',
      Some (nw\<lparr>e_descendents := e_descendents nw @ ds,
        e_cumulative_vote := e_cumulative_vote nw
          + sum_list (map (\<lambda>d. e_cumulative_vote (the (bt_get entries d))) ds)\<rparr>, prev)) \<and>
    (\<forall>k. bt_get entries' k = (if k \<in> set ds then map_option (cut_edge n) (bt_get entries k) else bt_get entries k))"
  using assms
proof (induction ds arbitrary: entries nw)
  case Nil
  then show ?case by simp
next
  case (Cons d ds)
  obtain e where e: "bt_get entries d = Some e" "entry_in_direct_ancestry e b n = Some True"
    using Cons.prems(2) [of d] by auto
  let ?entries = "bt_insert d (cut_edge n e) entries"
  let ?nw = "nw\<lparr>e_descendents := e_descendents nw @ [d],
    e_cumulative_vote := e_cumulative_vote nw + e_cumulative_vote e\<rparr>"
  have "\<exists>e. bt_get ?entries x = Some e \<and> entry_in_direct_ancestry e b n = Some True" if "x \<in> set ds" for x
    using Cons.prems(2) [of x] Cons.prems(1) that by auto
  then obtain entries' where IH: "branch_fold ds b n ?entries (Some (?nw, prev)) = Some (entries',
      Some (?nw\<lparr>e_descendents := e_descendents ?nw @ ds,
        e_cumulative_vote := e_cumulative_vote ?nw
          + sum_list (map (\<lambda>d. e_cumulative_vote (the (bt_get ?entries d))) ds)\<rparr>, prev))"
    "\<And>k. bt_get entries' k = (if k \<in> set ds then map_option (cut_edge n) (bt_get ?entries k) else bt_get ?entries k)"
    using Cons.IH [of ?entries ?nw] Cons.prems(1) by auto
  have step: "branch_fold (d # ds) b n entries (Some (nw, prev)) = branch_fold ds b n ?entries (Some (?nw, prev))"
    using e in_direct_ancestry_TrueD [OF e(2)] by (simp add: Let_def cut_edge_def checked_sub_ge)
  have "map (\<lambda>x. e_cumulative_vote (the (bt_get ?entries x))) ds
      = map (\<lambda>x. e_cumulative_vote (the (bt_get entries x))) ds"
    using Cons.prems(1) by auto
  note IH1 = IH(1) [unfolded this]
  show ?case
    using IH1 IH(2) Cons.prems(1) e unfolding step by (intro exI [of _ entries']) (auto simp: add.assoc)
qed

lemma branch_fold_None:
  fixes entries :: "('h :: linorder, ('h, 'v :: comm_monoid_add) entry) btree"
  assumes "distinct (d # ds)"
    and "\<And>d'. d' \<in> set (d # ds) \<Longrightarrow>
      \<exists>e. bt_get entries d' = Some e \<and> entry_in_direct_ancestry e b n = Some True"
    and e: "bt_get entries d = Some e"
  shows "\<exists>entries'. branch_fold (d # ds) b n entries None = Some (entries',
      Some (\<lparr>e_number = n, e_ancestors = drop (e_number e - n) (e_ancestors e), e_descendents = d # ds,
        e_cumulative_vote = sum_list (map (\<lambda>d. e_cumulative_vote (the (bt_get entries d))) (d # ds))\<rparr>,
        entry_ancestor_node e)) \<and>
    (\<forall>k. bt_get entries' k = (if k \<in> set (d # ds) then map_option (cut_edge n) (bt_get entries k) else bt_get entries k))"
proof -
  let ?nw = "\<lparr>e_number = n, e_ancestors = drop (e_number e - n) (e_ancestors e), e_descendents = [],
    e_cumulative_vote = 0\<rparr>"
  have "entry_in_direct_ancestry e b n = Some True" using assms(2) [of d] e by auto
  then have "branch_fold (d # ds) b n entries None
      = branch_fold (d # ds) b n entries (Some (?nw, entry_ancestor_node e))"
    using e in_direct_ancestry_TrueD [of e b n] by (simp add: Let_def checked_sub_ge)
  then show ?thesis
    using branch_fold_Some [OF assms(1,2), of ?nw "entry_ancestor_node e"] by simp
qed

lemma take_drop_edge:
  assumes "0 < i" "i \<le> length xs" "xs ! (i - 1) = b" "last xs \<noteq> b"
  shows "take i xs \<noteq> []" "last (take i xs) = b" "drop i xs \<noteq> []" "last (drop i xs) = last xs"
    "set (butlast (take i xs)) \<subseteq> set (butlast xs)" "set (butlast (drop i xs)) \<subseteq> set (butlast xs)"
    "xs = take i xs @ drop i xs"
proof -
  have ne: "xs \<noteq> []" using assms by auto
  show t: "take i xs \<noteq> []" using assms ne by simp
  show "last (take i xs) = b" using assms t by (simp add: last_conv_nth min_def)
  have "i \<noteq> length xs" using assms ne by (auto simp: last_conv_nth)
  then show d: "drop i xs \<noteq> []" using assms(2) by simp
  then show "last (drop i xs) = last xs" by (simp add: last_drop)
  show "set (butlast (take i xs)) \<subseteq> set (butlast xs)"
    using d by (simp add: butlast_take set_take_subset_set_take butlast_conv_take)
  show "set (butlast (drop i xs)) \<subseteq> set (butlast xs)"
    by (simp add: butlast_drop set_drop_subset)
qed simp

text \<open>What \<^verbatim>\<open>introduce_branch\<close> writes: the edges of the nodes \<open>ds\<close> are cut at the block \<open>b\<close>, which
  becomes the node between them and the node \<open>p\<close> below.\<close>

definition branched ::
  "('h :: linorder, 'v) vote_graph \<Rightarrow> 'h list \<Rightarrow> 'h \<Rightarrow> nat \<Rightarrow> 'h \<Rightarrow> ('h, 'v) entry \<Rightarrow> ('h, 'v) vote_graph \<Rightarrow> bool" where
  "branched g ds b n p nw g' \<longleftrightarrow>
     g_base g' = g_base g \<and> g_base_number g' = g_base_number g \<and> g_heads g' = g_heads g \<and>
     (\<forall>k. node g' k = (if k = b then Some nw
        else if k = p then map_option (\<lambda>e. e\<lparr>e_descendents := filter (\<lambda>h. h \<notin> set ds) (e_descendents e) @ [b]\<rparr>) (node g k)
        else if k \<in> set ds then map_option (cut_edge n) (node g k) else node g k))"

lemma branched_nodes: "branched g ds b n p nw g' \<Longrightarrow> nodes g' = insert b (nodes g)"
  by (auto simp: branched_def bt_keys_dom dom_def split: if_splits)

context chain
begin

text \<open>The nodes whose edges contain a block have the same node below them.\<close>

lemma containing_same_last:
  assumes ok: "graph_ok parent number g" and b: "b \<notin> nodes g"
    and c: "node g c = Some e" "b \<in> set (e_ancestors e)" and d: "node g d = Some f" "b \<in> set (e_ancestors f)"
  shows "last (e_ancestors e) = last (e_ancestors f)"
proof -
  have "descends parent (last (e_ancestors f)) (last (e_ancestors e))"
    if c: "node g c = Some e" "b \<in> set (e_ancestors e)" and d: "node g d = Some f" "b \<in> set (e_ancestors f)" for c d e f
  proof -
    have mem: "c \<in> containing g b" "d \<in> containing g b" using c d by (auto simp: containing_def)
    note f = containing_below_last [OF ok d b]
    note above = containing_above [OF ok mem(1)]
    have "last (e_ancestors f) \<in> nodes g"
      by (rule edge_last [OF ok d(1) containing_above(3) [OF ok mem(2)]])
    moreover have "descends parent (last (e_ancestors f)) c" by (rule descends_trans [OF above(1) f(1)])
    moreover have "last (e_ancestors f) \<noteq> c" using f(2) above(2) by auto
    ultimately show ?thesis by (rule node_below_last(2) [OF ok c(1)])
  qed
  from this [OF c d] this [OF d c] show ?thesis by (rule descends_antisym [symmetric])
qed

lemma containing_split:
  assumes ok: "graph_ok parent number g" and b: "b \<notin> nodes g"
    and c: "node g c = Some e" "b \<in> set (e_ancestors e)"
  defines "i \<equiv> e_number e - number b"
  shows "path parent c (take i (e_ancestors e))" "take i (e_ancestors e) \<noteq> []"
    "last (take i (e_ancestors e)) = b"
    "path parent b (drop i (e_ancestors e))" "drop i (e_ancestors e) \<noteq> []"
    "last (drop i (e_ancestors e)) = last (e_ancestors e)"
    "set (butlast (take i (e_ancestors e))) \<inter> insert b (nodes g) = {}"
    "set (butlast (drop i (e_ancestors e))) \<inter> insert b (nodes g) = {}"
proof -
  let ?xs = "e_ancestors e"
  have cb: "c \<noteq> g_base g" using graph_ok_base_ancestors [OF ok] c by auto
  note path = edge_path [OF ok c(1) cb]
  have "entry_in_direct_ancestry e b (number b) = Some True" using in_direct_ancestry_True [OF ok c(1)] c(2) by simp
  note direct = in_direct_ancestry_TrueD [OF this]
  have "last ?xs \<noteq> b" using edge_last [OF ok c(1) cb] b by auto
  then have split: "take i ?xs \<noteq> []" "last (take i ?xs) = b" "drop i ?xs \<noteq> []" "last (drop i ?xs) = last ?xs"
    "set (butlast (take i ?xs)) \<subseteq> set (butlast ?xs)" "set (butlast (drop i ?xs)) \<subseteq> set (butlast ?xs)"
    "?xs = take i ?xs @ drop i ?xs"
    using take_drop_edge [of i ?xs b] direct unfolding i_def by auto
  have both: "path parent c (take i ?xs)" "path parent b (drop i ?xs)"
    using path split(1,2,7) path_append [of parent c "take i ?xs" "drop i ?xs"] by auto
  show "path parent c (take i ?xs)" "take i ?xs \<noteq> []" "last (take i ?xs) = b"
    "path parent b (drop i ?xs)" "drop i ?xs \<noteq> []" "last (drop i ?xs) = last ?xs"
    by (fact both split)+
  have "take i ?xs = butlast (take i ?xs) @ [b]" using split(1,2) by (metis append_butlast_last_id)
  then have "b \<notin> set (butlast (take i ?xs))"
    using path_distinct [OF both(1)] by (metis disjoint_iff distinct_append list.set_intros(1))
  then show "set (butlast (take i ?xs)) \<inter> insert b (nodes g) = {}"
    using split(5) edge_butlast [OF ok c(1) cb] by auto
  have "b \<notin> set (butlast (drop i ?xs))" using path_not_mem [OF both(2)] by (auto dest: in_set_butlastD)
  then show "set (butlast (drop i ?xs)) \<inter> insert b (nodes g) = {}"
    using split(6) edge_butlast [OF ok c(1) cb] by auto
qed

lemma branched_edges:
  assumes ok: "graph_ok parent number g" and b: "b \<notin> nodes g"
    and ds: "set ds = containing g b" and br: "branched g ds b (number b) p nw g'"
    and e': "node g' k = Some e'" and k: "k \<noteq> b" and p: "p \<notin> set ds"
  shows "\<exists>e. node g k = Some e \<and> e_number e' = number k \<and> e_cumulative_vote e' = e_cumulative_vote e \<and>
    (if k \<in> set ds then b \<in> set (e_ancestors e) \<and> e_ancestors e' = take (e_number e - number b) (e_ancestors e)
     else b \<notin> set (e_ancestors e) \<and> e_ancestors e' = e_ancestors e) \<and>
    e_descendents e' = (if k = p then filter (\<lambda>h. h \<notin> set ds) (e_descendents e) @ [b] else e_descendents e)"
proof -
  have node: "node g' k = (if k = p then map_option (\<lambda>e. e\<lparr>e_descendents := filter (\<lambda>h. h \<notin> set ds) (e_descendents e) @ [b]\<rparr>) (node g k)
        else if k \<in> set ds then map_option (cut_edge (number b)) (node g k) else node g k)"
    using br k by (simp add: branched_def)
  obtain e where e: "node g k = Some e" using e' node by (auto split: if_splits)
  have "k \<in> set ds \<longleftrightarrow> b \<in> set (e_ancestors e)" using e by (simp add: ds containing_def)
  then show ?thesis
    using e e' node p graph_ok_number [OF ok e] by (auto split: if_splits)
qed

lemma branched_children:
  assumes ok: "graph_ok parent number g" and b: "b \<notin> nodes g"
    and ds: "set ds = containing g b" and br: "branched g ds b (number b) p nw g'"
    and nw: "entry_ancestor_node nw = Some p" and p: "p \<in> nodes g" "p \<notin> set ds"
    and same: "\<And>c e. node g c = Some e \<Longrightarrow> b \<in> set (e_ancestors e) \<Longrightarrow> last (e_ancestors e) = p"
  shows "children g' x = (if x = b then set ds else if x = p then insert b (children g p - set ds) else children g x)"
proof -
  have pb: "p \<noteq> b" using p b by auto
  have nwb: "node g' b = Some nw" using br by (simp add: branched_def)
  have b_child: "b \<in> children g' x \<longleftrightarrow> x = p" for x
    using nwb nw by (auto simp: children_def)
  have nodes: "nodes g' = insert b (nodes g)" by (rule branched_nodes [OF br])
  have anc: "entry_ancestor_node e' = (if k \<in> set ds then Some b else entry_ancestor_node e)"
    if k: "k \<noteq> b" and e': "node g' k = Some e'" and e: "node g k = Some e" for k e e'
  proof -
    have *: "if k \<in> set ds then b \<in> set (e_ancestors e) \<and> e_ancestors e' = take (e_number e - number b) (e_ancestors e)
     else b \<notin> set (e_ancestors e) \<and> e_ancestors e' = e_ancestors e"
      using branched_edges [OF ok b ds br e' k p(2)] e by auto
    show ?thesis
    proof (cases "k \<in> set ds")
      case True
      with * show ?thesis using containing_split(2,3) [OF ok b e]
        by (simp add: entry_ancestor_node_def slice_last_def)
    qed (use * in \<open>simp add: entry_ancestor_node_def\<close>)
  qed
  have other: "k \<in> children g' x \<longleftrightarrow> (if k \<in> set ds then x = b else k \<in> children g x)" if k: "k \<noteq> b" for k x
  proof (cases "k \<in> nodes g")
    case True
    then obtain e e' where e: "node g k = Some e" "node g' k = Some e'"
      using nodes by (metis bt_keysE insertCI)
    then show ?thesis using anc [OF k e(2,1)] by (auto simp: children_def)
  next
    case False
    have "k \<notin> children g x" using False children_nodes [of g x] by blast
    moreover have "k \<notin> children g' x" using False k children_nodes [of g' x] unfolding nodes by blast
    moreover have "k \<notin> set ds" using False containing_nodes [of g b] unfolding ds by blast
    ultimately show ?thesis by simp
  qed
  have ds_p: "set ds \<inter> children g x = {}" if "x \<noteq> p" for x
  proof -
    have False if "node g k = Some e" "b \<in> set (e_ancestors e)" "entry_ancestor_node e = Some x" for k e
      using same [OF that(1,2)] that(3) \<open>x \<noteq> p\<close> by (simp add: entry_ancestor_node_def slice_last_Some)
    then show ?thesis unfolding ds containing_def children_def by force
  qed
  have b_not: "b \<notin> children g x" "b \<notin> set ds" for x
    using b children_nodes [of g x] ds containing_nodes [of g b] by auto
  have no_b: "children g b = {}"
  proof -
    have False if e: "node g k = Some e" and "entry_ancestor_node e = Some b" for k e
      using edge_ancestor_node [OF ok e] edge_last [OF ok e] that(2) b by (auto split: if_splits)
    then show ?thesis unfolding children_def by blast
  qed
  have "k \<in> children g' x \<longleftrightarrow>
      k \<in> (if x = b then set ds else if x = p then insert b (children g p - set ds) else children g x)" for k
  proof (cases "k = b")
    case True
    then show ?thesis using b_child [of x] b_not pb by simp
  next
    case False
    then show ?thesis using other [OF False, of x] ds_p [of x] no_b by auto
  qed
  then show ?thesis by blast
qed

lemma graph_ok_branched:
  assumes ok: "graph_ok parent number g" and b: "b \<notin> nodes g"
    and ds: "distinct ds" "set ds = containing g b" "c \<in> set ds" and c: "node g c = Some e"
    and nw: "nw = \<lparr>e_number = number b, e_ancestors = drop (e_number e - number b) (e_ancestors e),
      e_descendents = ds, e_cumulative_vote = v\<rparr>"
    and br: "branched g ds b (number b) (last (e_ancestors e)) nw g'"
  shows "graph_ok parent number g'"
proof -
  let ?p = "last (e_ancestors e)"
  have be: "b \<in> set (e_ancestors e)" using ds(2,3) c by (auto simp: containing_def)
  have cb: "c \<noteq> g_base g" using containing_above(3) [OF ok] ds(2,3) by blast
  have p: "?p \<in> nodes g" by (rule edge_last [OF ok c cb])
  have p_ds: "?p \<notin> set ds"
    using containing_below_last(2) [OF ok c be b] containing_above(2) [OF ok, of ?p b] ds(2) by auto
  have pb: "?p \<noteq> b" using p b by auto
  note split = containing_split [OF ok b c be]
  have nw_anc: "entry_ancestor_node nw = Some ?p"
    using split(5,6) by (simp add: nw entry_ancestor_node_def slice_last_def)
  have same: "last (e_ancestors f) = ?p" if "node g d = Some f" "b \<in> set (e_ancestors f)" for d f
    by (rule containing_same_last [OF ok b that c be])
  have ch: "children g' x = (if x = b then set ds else if x = ?p then insert b (children g ?p - set ds) else children g x)" for x
    by (rule branched_children [OF ok b ds(2) br nw_anc p p_ds same])
  have nodes: "nodes g' = insert b (nodes g)" by (rule branched_nodes [OF br])
  have base: "g_base g' = g_base g" "g_base_number g' = g_base_number g" "g_heads g' = g_heads g"
    using br by (auto simp: branched_def)
  have base_b: "g_base g \<noteq> b" using graph_ok_base [OF ok] b by auto
  have nwb: "node g' b = Some nw" using br by (simp add: branched_def)
  have node_ok': "node_ok parent number g' k e'" if e': "node g' k = Some e'" for k e'
  proof (cases "k = b")
    case True
    then have "e' = nw" using e' nwb by simp
    then show ?thesis using split base base_b p True by (auto simp: nw node_ok_def nodes)
  next
    case False
    obtain f where f: "node g k = Some f" "e_number e' = number k"
      and anc: "if k \<in> set ds then b \<in> set (e_ancestors f) \<and> e_ancestors e' = take (e_number f - number b) (e_ancestors f)
       else b \<notin> set (e_ancestors f) \<and> e_ancestors e' = e_ancestors f"
      using branched_edges [OF ok b ds(2) br e' False p_ds] by blast
    show ?thesis
    proof (cases "k \<in> set ds")
      case True
      then have "b \<in> set (e_ancestors f)" and e'f: "e_ancestors e' = take (e_number f - number b) (e_ancestors f)"
        using anc by auto
      then show ?thesis
        using containing_split(1-3,7) [OF ok b f(1)] containing_above(3) [OF ok, of k b] True ds(2) f(2)
        by (simp add: node_ok_def nodes base)
    next
      case no: False
      then have bf: "b \<notin> set (e_ancestors f)" and "e_ancestors e' = e_ancestors f" using anc by auto
      moreover have "b \<notin> set (butlast (e_ancestors f))" using bf by (auto dest: in_set_butlastD)
      ultimately show ?thesis
        using graph_ok_node [OF ok f(1)] f(2) by (auto simp: node_ok_def nodes base)
    qed
  qed
  have b_not: "b \<notin> children g x" for x using b children_nodes [of g x] by blast
  have desc: "distinct (e_descendents e') \<and> set (e_descendents e') = children g' k" if e': "node g' k = Some e'" for k e'
  proof (cases "k = b")
    case True
    then show ?thesis using e' nwb ds(1) ch by (auto simp: nw)
  next
    case False
    obtain f where f: "node g k = Some f"
      "e_descendents e' = (if k = ?p then filter (\<lambda>h. h \<notin> set ds) (e_descendents f) @ [b] else e_descendents f)"
      using branched_edges [OF ok b ds(2) br e' False p_ds] by blast
    then show ?thesis
      using graph_ok_distinct [OF ok f(1)] graph_ok_descendents [OF ok f(1)] b_not [of k] False ch [of k]
      by auto
  qed
  have "c \<in> children g ?p" using c edge_ancestor_node [OF ok c] cb by (auto simp: children_def)
  then have heads: "set (g_heads g') = {k \<in> nodes g'. children g' k = {}}"
    using ds(3) ch b by (auto simp: nodes base graph_ok_heads [OF ok])
  show ?thesis
    unfolding graph_ok_def
    using node_ok' desc heads graph_ok_base [OF ok] graph_ok_base_number [OF ok] graph_ok_heads_sorted [OF ok]
    by (simp add: nodes base)
qed

lemma introduce_branch_Some:
  fixes g :: "('h, 'v :: comm_monoid_add) vote_graph"
  assumes ok: "graph_ok parent number g" and votes: "votes_ok parent g votes"
    and b: "b \<notin> nodes g" and ds: "distinct ds" "set ds = containing g b" "ds \<noteq> []"
  shows "\<exists>g'. introduce_branch g ds b (number b) = Some g' \<and> graph_ok parent number g' \<and>
    votes_ok parent g' votes \<and> nodes g' = insert b (nodes g) \<and> g_base g' = g_base g"
proof -
  obtain c cs where cs: "ds = c # cs" using ds(3) by (cases ds) auto
  have direct: "\<exists>e. node g d = Some e \<and> entry_in_direct_ancestry e b (number b) = Some True" if d: "d \<in> set ds" for d
  proof -
    obtain e where e: "node g d = Some e" "b \<in> set (e_ancestors e)" using d ds(2) by (auto simp: containing_def)
    then show ?thesis using in_direct_ancestry_True [OF ok e(1)] by blast
  qed
  have c: "c \<in> set ds" by (simp add: cs)
  obtain e where e: "node g c = Some e" "b \<in> set (e_ancestors e)" using c ds(2) by (auto simp: containing_def)
  have cb: "c \<noteq> g_base g" using containing_above(3) [OF ok] c ds(2) by blast
  let ?p = "last (e_ancestors e)" and ?sum = "sum_list (map (\<lambda>d. e_cumulative_vote (the (node g d))) ds)"
  let ?nw = "\<lparr>e_number = number b, e_ancestors = drop (e_number e - number b) (e_ancestors e),
    e_descendents = ds, e_cumulative_vote = ?sum\<rparr>"
  have "distinct (c # cs)" using ds(1) cs by simp
  then obtain entries' where fold: "branch_fold ds b (number b) (g_entries g) None = Some (entries', Some (?nw, Some ?p))"
    "\<And>k. bt_get entries' k = (if k \<in> set ds then map_option (cut_edge (number b)) (node g k) else node g k)"
    using branch_fold_None [of c cs "g_entries g" b "number b" e] direct e(1)
      edge_ancestor_node [OF ok e(1)] cb unfolding cs by auto
  have p: "?p \<in> nodes g" by (rule edge_last [OF ok e(1) cb])
  have p_ds: "?p \<notin> set ds"
    using containing_below_last(2) [OF ok e b] containing_above(2) [OF ok, of ?p b] ds(2) by auto
  obtain ep where ep: "node g ?p = Some ep" using p by (rule bt_keysE)
  let ?ep = "ep\<lparr>e_descendents := filter (\<lambda>h. h \<notin> set ds) (e_descendents ep) @ [b]\<rparr>"
  let ?g' = "g\<lparr>g_entries := bt_insert b ?nw (bt_insert ?p ?ep entries')\<rparr>"
  have pb: "?p \<noteq> b" using p b by auto
  have gb: "bt_get entries' b = None"
    using b ds(2) containing_nodes [of g b] by (auto simp: fold(2) bt_keys_dom)
  then have "b \<notin> bt_keys entries'" by (auto simp: bt_keys_dom)
  moreover have gp: "bt_get entries' ?p = Some ep" using p_ds ep by (simp add: fold(2))
  ultimately have res: "introduce_branch g ds b (number b) = Some ?g'"
    using pb by (simp add: introduce_branch_def fold(1))
  have br: "branched g ds b (number b) ?p ?nw ?g'"
    using p_ds ep by (auto simp: branched_def fold(2))
  have ok': "graph_ok parent number ?g'" by (rule graph_ok_branched [OF ok b ds(1,2) c e(1) refl br])
  have desc: "descends parent (g_base g) b"
    by (rule descends_trans [OF containing_below_last(1) [OF ok e b] base_below [OF ok p]])
  have "?sum = (\<Sum>d \<in> containing g b. tally parent votes d)"
  proof -
    have "e_cumulative_vote (the (node g d)) = tally parent votes d" if "d \<in> set ds" for d
      using direct [OF that] votes_ok_node [OF votes] by auto
    then have "map (\<lambda>d. e_cumulative_vote (the (node g d))) ds = map (tally parent votes) ds" by simp
    then show ?thesis using ds(1,2) by (simp add: sum_list_distinct_conv_sum_set)
  qed
  also have "\<dots> = tally parent votes b"
    by (rule tally_containing [OF ok b desc votes_ok_target [OF votes], symmetric])
  finally have sum: "?sum = tally parent votes b" .
  have nodes: "nodes ?g' = insert b (nodes g)" by (rule branched_nodes [OF br])
  have "e_cumulative_vote e' = tally parent votes k" if e': "node ?g' k = Some e'" for k e'
  proof (cases "k = b")
    case True
    then show ?thesis using e' sum by auto
  next
    case False
    then obtain f where "node g k = Some f" "e_cumulative_vote e' = e_cumulative_vote f"
      using branched_edges [OF ok b ds(2) br e' False p_ds] by blast
    then show ?thesis using votes_ok_node [OF votes] by simp
  qed
  then have "votes_ok parent ?g' votes"
    using votes_ok_target [OF votes] unfolding votes_ok_def nodes by blast
  then show ?thesis using res ok' nodes by (intro exI [of _ ?g']) simp
qed

section \<open>Adding a vote\<close>

text \<open>The loop of \<^verbatim>\<open>insert\<close> ends, changes no shape, and adds the vote at the node and at every
  vote-node below it.\<close>

lemma add_vote_back_Some:
  assumes "graph_ok parent number g" "h \<in> nodes g"
  shows "\<exists>g'. add_vote_back add h (g_entries g) = Some (g_entries g') \<and> same_shape g g' \<and>
    g' = g\<lparr>g_entries := g_entries g'\<rparr> \<and>
    (\<forall>k. node g' k = map_option (\<lambda>e. if descends parent k h
       then e\<lparr>e_cumulative_vote := add (e_cumulative_vote e)\<rparr> else e) (node g k))"
  using assms
proof (induction "number h" arbitrary: h g rule: less_induct)
  case less
  note ok = less.prems(1)
  obtain e where e: "node g h = Some e" using less.prems(2) by (rule bt_keysE)
  let ?e = "e\<lparr>e_cumulative_vote := add (e_cumulative_vote e)\<rparr>"
  let ?g = "g\<lparr>g_entries := bt_insert h ?e (g_entries g)\<rparr>"
  have node: "node ?g k = (if k = h then Some ?e else node g k)" for k by simp
  have sh: "same_shape g ?g" using e by (auto simp: same_shape_def)
  have ok': "graph_ok parent number ?g" by (rule graph_ok_same_shape [OF ok sh])
  have anc: "entry_ancestor_node ?e = entry_ancestor_node e" by (simp add: entry_ancestor_node_def)
  note unfold = add_vote_back.simps [of add h "g_entries g"]
  show ?case
  proof (cases "h = g_base g")
    case True
    then have "entry_ancestor_node ?e = None" using anc edge_ancestor_node [OF ok e] by simp
    then have "add_vote_back add h (g_entries g) = Some (g_entries ?g)"
      using e unfold by (simp add: Let_def)
    moreover have "node ?g k = map_option (\<lambda>e. if descends parent k h
       then e\<lparr>e_cumulative_vote := add (e_cumulative_vote e)\<rparr> else e) (node g k)" for k
    proof (cases "node g k")
      case (Some f)
      have "descends parent k h \<longleftrightarrow> k = h"
        using base_below [OF ok bt_get_keys [OF Some]] True descends_antisym by auto
      then show ?thesis using Some e by (auto simp: node)
    qed (use e in \<open>auto simp: node\<close>)
    ultimately show ?thesis using sh by (intro exI [of _ ?g]) simp
  next
    case False
    let ?p = "last (e_ancestors e)"
    have p: "descends parent ?p h" "number ?p < number h" using edge_last_below [OF ok e False] by auto
    have "?p \<in> nodes ?g" using edge_last [OF ok e False] by simp
    from less.hyps [OF p(2) ok' this] obtain g' where
      g': "add_vote_back add ?p (g_entries ?g) = Some (g_entries g')" "same_shape ?g g'" "g' = ?g\<lparr>g_entries := g_entries g'\<rparr>"
      "\<And>k. node g' k = map_option (\<lambda>e. if descends parent k ?p
         then e\<lparr>e_cumulative_vote := add (e_cumulative_vote e)\<rparr> else e) (node ?g k)"
      by blast
    have "entry_ancestor_node ?e = Some ?p" using anc edge_ancestor_node [OF ok e] False by simp
    then have "add_vote_back add h (g_entries g) = Some (g_entries g')"
      using e g'(1) unfold by (simp add: Let_def)
    moreover have "same_shape g g'" using sh g'(2) by (simp add: same_shape_def)
    moreover have "g' = g\<lparr>g_entries := g_entries g'\<rparr>" using g'(3) by simp
    moreover have "node g' k = map_option (\<lambda>e. if descends parent k h
       then e\<lparr>e_cumulative_vote := add (e_cumulative_vote e)\<rparr> else e) (node g k)" for k
    proof (cases "node g k")
      case None
      then show ?thesis using e g'(4) [of k] by (auto simp: node)
    next
      case (Some f)
      have "\<not> descends parent h ?p" using p(2) number_mono [of h ?p] by auto
      moreover have "descends parent k h \<longleftrightarrow> descends parent k ?p" if "k \<noteq> h"
        using node_below_last(2) [OF ok e bt_get_keys [OF Some] _ that] descends_trans [OF p(1), of k] by blast
      ultimately show ?thesis using Some e g'(4) [of k] by (cases "k = h") (auto simp: node)
    qed
    ultimately show ?thesis by (intro exI [of _ g']) simp
  qed
qed

section \<open>Inserting a vote\<close>

lemma containing_outside:
  assumes ok: "graph_ok parent number g" and b: "\<not> descends parent (g_base g) b"
  shows "b \<notin> nodes g" "containing g b = {}"
proof -
  show nb: "b \<notin> nodes g" using base_below [OF ok] b by blast
  have False if c: "node g c = Some e" "b \<in> set (e_ancestors e)" for c e
  proof -
    have "c \<noteq> g_base g" using graph_ok_base_ancestors [OF ok] c by auto
    then show False
      using descends_trans [OF containing_below_last(1) [OF ok c nb] base_below [OF ok edge_last [OF ok c(1)]]] b
      by blast
  qed
  then show "containing g b = {}" unfolding containing_def by blast
qed

lemma insert_Inl:
  assumes ok: "graph_ok parent number g" and h: "\<not> descends parent (g_base g) h"
  shows "vote_graph_insert ancestry add_vote g h (number h) w = Some (Inl NotDescendent)"
proof -
  have "find_containing_nodes g h (number h) = Some []"
    using find_containing_nodes_Some [OF ok, of h] containing_outside [OF ok h] by auto
  then show ?thesis using append_node_Inl [OF h] by (simp add: vote_graph_insert_def)
qed

lemma insert_Inr:
  fixes g :: "('h, 'v :: comm_monoid_add) vote_graph"
  assumes ok: "graph_ok parent number g" and votes: "votes_ok parent g votes"
    and h: "descends parent (g_base g) h" and add: "\<And>v. add_vote v w = v + x"
  shows "\<exists>g'. vote_graph_insert ancestry add_vote g h (number h) w = Some (Inr g') \<and> graph_ok parent number g' \<and>
    votes_ok parent g' (votes @ [(h, x)]) \<and> nodes g' = insert h (nodes g) \<and> g_base g' = g_base g"
proof -
  define made where "made = (case find_containing_nodes g h (number h) of
         Some cs \<Rightarrow>
           if cs = [] then append_node ancestry g h (number h)
           else map_option Inr (introduce_branch g cs h (number h))
       | None \<Rightarrow> Some (Inr g))"
  have "\<exists>g1. made = Some (Inr g1) \<and> graph_ok parent number g1 \<and> votes_ok parent g1 votes \<and>
      nodes g1 = insert h (nodes g) \<and> g_base g1 = g_base g"
  proof (cases "h \<in> nodes g")
    case True
    then show ?thesis
      using ok votes by (auto simp: made_def find_containing_nodes_None [THEN iffD2])
  next
    case False
    obtain cs where cs: "find_containing_nodes g h (number h) = Some cs" "distinct cs" "set cs = containing g h"
      using find_containing_nodes_Some [OF ok False] by blast
    show ?thesis
    proof (cases "cs = []")
      case True
      then have "containing g h = {}" using cs(3) by simp
      from append_node_Inr [OF ok votes h False this] show ?thesis using cs(1) True by (simp add: made_def)
    next
      case ne: False
      from introduce_branch_Some [OF ok votes False cs(2,3) ne] show ?thesis
        using cs(1) ne by (auto simp: made_def)
    qed
  qed
  then obtain g1 where g1: "made = Some (Inr g1)" "graph_ok parent number g1" "votes_ok parent g1 votes"
    "nodes g1 = insert h (nodes g)" "g_base g1 = g_base g" by blast
  have "h \<in> nodes g1" using g1(4) by simp
  from add_vote_back_Some [OF g1(2) this] obtain g' where
    g': "add_vote_back (\<lambda>v. add_vote v w) h (g_entries g1) = Some (g_entries g')" "same_shape g1 g'"
    "g' = g1\<lparr>g_entries := g_entries g'\<rparr>"
    "\<And>k. node g' k = map_option (\<lambda>e. if descends parent k h
       then e\<lparr>e_cumulative_vote := add_vote (e_cumulative_vote e) w\<rparr> else e) (node g1 k)"
    by blast
  have "vote_graph_insert ancestry add_vote g h (number h) w = Some (Inr (g1\<lparr>g_entries := g_entries g'\<rparr>))"
    using g1(1) g'(1) by (simp add: vote_graph_insert_def made_def [symmetric])
  then have res: "vote_graph_insert ancestry add_vote g h (number h) w = Some (Inr g')"
    by (simp only: g'(3) [symmetric])
  have nodes: "nodes g' = insert h (nodes g)" using same_shape_nodes [OF g'(2)] g1(4) by simp
  have "e_cumulative_vote e' = tally parent (votes @ [(h, x)]) k" if e': "node g' k = Some e'" for k e'
  proof -
    obtain e where "node g1 k = Some e" using e' g'(4) by auto
    then show ?thesis
      using e' g'(4) [of k] votes_ok_node [OF g1(3), of k e] by (auto simp: tally_append add)
  qed
  then have "votes_ok parent g' (votes @ [(h, x)])"
    using votes_ok_target [OF votes] unfolding votes_ok_def nodes by auto
  then show ?thesis
    using res graph_ok_same_shape [OF g1(2) g'(2)] nodes same_shape_base [OF g'(2)] g1(5)
    by (intro exI [of _ g']) simp
qed

end

section \<open>New graphs\<close>

lemma children_new: "children (vote_graph_new b n v) h = {}"
  by (auto simp: children_def vote_graph_new_def entry_ancestor_node_def slice_last_def split: if_splits)

lemma graph_ok_new: "graph_ok parent number (vote_graph_new b (number b) v)"
proof -
  have "node (vote_graph_new b (number b) v) h = Some e \<longleftrightarrow> h = b \<and>
     e = \<lparr>e_number = number b, e_ancestors = [], e_descendents = [], e_cumulative_vote = v\<rparr>" for h e
    by (auto simp: vote_graph_new_def)
  moreover have "nodes (vote_graph_new b (number b) v) = {b}" "g_base (vote_graph_new b (number b) v) = b"
    "g_base_number (vote_graph_new b (number b) v) = number b" "g_heads (vote_graph_new b (number b) v) = [b]"
    by (auto simp: vote_graph_new_def bs_insert_def bt_empty_def bt_keys_def insort_insert_key_def)
  ultimately show ?thesis by (auto simp: graph_ok_def node_ok_def children_new)
qed

lemma votes_ok_new: "votes_ok parent (vote_graph_new b n 0) []"
  by (auto simp: votes_ok_def vote_graph_new_def split: if_splits)

section \<open>Adjusting the base\<close>

lemma funpow_pred: "((\<lambda>n. n - Suc 0) ^^ k) n = n - (k :: nat)"
  by (induction k) auto

context chain
begin

lemma adjust_base_Some:
  fixes g :: "('h, 'v :: comm_monoid_add) vote_graph"
  assumes ok: "graph_ok parent number g" and votes: "votes_ok parent g votes"
    and path: "path parent (g_base g) xs"
  shows "\<exists>g'. adjust_base g xs = Some g' \<and> graph_ok parent number g' \<and> votes_ok parent g' votes \<and>
    g_base g' = last (g_base g # xs) \<and> nodes g' = insert (last (g_base g # xs)) (nodes g)"
proof (cases "xs = []")
  case True
  then show ?thesis
    using ok votes graph_ok_base [OF ok] by (auto simp: adjust_base_def slice_last_def)
next
  case False
  let ?b = "last xs" and ?o = "g_base g"
  obtain oe where oe: "node g ?o = Some oe" using graph_ok_base [OF ok] by (rule bt_keysE)
  have oe_shape: "e_ancestors oe = []" "e_number oe = number ?o"
    using graph_ok_base_ancestors [OF ok oe] graph_ok_number [OF ok oe] by auto
  have num: "number ?o = number ?b + length xs" by (rule path_last_number [OF path False])
  let ?oe = "oe\<lparr>e_ancestors := xs\<rparr>"
  let ?be = "\<lparr>e_number = number ?b, e_ancestors = [], e_descendents = [?o], e_cumulative_vote = e_cumulative_vote oe\<rparr>"
  define g' where "g' = g\<lparr>g_entries := bt_insert ?b ?be (bt_insert ?o ?oe (g_entries g)), g_base := ?b, g_base_number := number ?b\<rparr>"
  have res: "adjust_base g xs = Some g'"
    using False oe oe_shape num graph_ok_base_number [OF ok]
    by (simp add: adjust_base_def slice_last_def funpow_pred Let_def g'_def)
  have below: "x \<notin> nodes g" if "x \<in> set xs" for x
    using base_below [OF ok, of x] number_mono [of ?o x] path_mem [OF path, of x] that by force
  then have bn: "?b \<notin> nodes g" and bo: "?b \<noteq> ?o" using last_in_set [OF False] path_not_mem [OF path] by auto
  have node: "node g' k = (if k = ?b then Some ?be else if k = ?o then Some ?oe else node g k)" for k by (simp add: g'_def)
  have nodes: "nodes g' = insert ?b (nodes g)" using graph_ok_base [OF ok] by (auto simp: g'_def)
  have base: "g_base g' = ?b" "g_base_number g' = number ?b" "g_heads g' = g_heads g" by (simp_all add: g'_def)
  have not_b: "?b \<notin> set (e_ancestors e)" if e: "node g k = Some e" and k: "k \<noteq> ?o" for k e
  proof
    assume "?b \<in> set (e_ancestors e)"
    then have "number (last (e_ancestors e)) \<le> number ?b"
      using path_mem [OF edge_path [OF ok e k], of ?b] edge_length [OF ok e k] by simp
    moreover have "number ?o \<le> number (last (e_ancestors e))"
      by (rule number_mono [OF base_below [OF ok edge_last [OF ok e k]]])
    moreover have "0 < length xs" using False by simp
    ultimately show False using num by linarith
  qed
  have node_ok': "node_ok parent number g' k e" if e: "node g' k = Some e" for k e
  proof -
    consider "k = ?b" "e = ?be" | "k = ?o" "k \<noteq> ?b" "e = ?oe" | "k \<noteq> ?b" "k \<noteq> ?o" "node g k = Some e"
      using e by (auto simp: node split: if_splits)
    then show ?thesis
    proof cases
      case 2
      have "set (butlast xs) \<inter> nodes g = {}" using below by (auto dest: in_set_butlastD)
      moreover have "?b \<notin> set (butlast xs)"
      proof -
        have "xs = butlast xs @ [?b]" using False by simp
        then show ?thesis using path_distinct [OF path] by (metis distinct_append disjoint_iff list.set_intros(1))
      qed
      ultimately show ?thesis using 2 path False oe_shape nodes by (simp add: node_ok_def base)
    next
      case 3
      have "?b \<notin> set (butlast (e_ancestors e))" using not_b [OF 3(3,2)] by (auto dest: in_set_butlastD)
      then show ?thesis
        using graph_ok_node [OF ok 3(3)] 3 nodes by (auto simp: node_ok_def base)
    qed (simp add: node_ok_def base)
  qed
  have anc: "entry_ancestor_node ?be = None" "entry_ancestor_node ?oe = Some ?b"
    using False by (simp_all add: entry_ancestor_node_def slice_last_def)
  have anc_o: "entry_ancestor_node oe = None" using oe_shape by (simp add: entry_ancestor_node_def slice_last_def)
  have anc_b: "entry_ancestor_node e \<noteq> Some ?b" if "node g k = Some e" "k \<noteq> ?o" for k e
    using not_b [OF that] by (metis entry_ancestor_node_def last_in_set slice_last_Some)
  have b_none: "node g ?b = None" using bn by (auto simp: bt_keys_dom)
  have children: "children g' x = (if x = ?b then {?o} else children g x)" for x
  proof -
    have "k \<in> children g' x \<longleftrightarrow> k \<in> (if x = ?b then {?o} else children g x)" for k
      using anc anc_o bo b_none oe anc_b [of k] unfolding children_def node by auto
    then show ?thesis by blast
  qed
  have cb: "children g ?b = {}" using anc_b anc_o oe unfolding children_def by force
  have desc: "distinct (e_descendents e) \<and> set (e_descendents e) = children g' k" if e: "node g' k = Some e" for k e
    unfolding children using e graph_ok_distinct [OF ok] graph_ok_descendents [OF ok] oe bo
    by (auto simp: node split: if_splits)
  have heads: "set (g_heads g') = {k \<in> nodes g'. children g' k = {}}"
    unfolding children nodes base using bn by (auto simp: graph_ok_heads [OF ok])
  have ok': "graph_ok parent number g'"
    unfolding graph_ok_def using node_ok' desc heads nodes graph_ok_heads_sorted [OF ok] by (simp add: base)
  have "tally parent votes ?b = tally parent votes ?o"
  proof -
    have "descends parent ?b t \<and> descends parent ?o t" if "(t, v) \<in> set votes" for t v
    proof -
      have "descends parent ?o t" by (rule base_below [OF ok votes_ok_target [OF votes that]])
      then show ?thesis using descends_trans [OF _ path_last_descends [OF path False]] by simp
    qed
    then show ?thesis unfolding tally_def by (intro arg_cong [where f = sum_list] map_cong) auto
  qed
  then have "votes_ok parent g' votes"
    using votes_ok_target [OF votes] votes_ok_node [OF votes] oe unfolding votes_ok_def nodes node by auto
  then show ?thesis using res ok' nodes False by (intro exI [of _ g']) (simp add: base)
qed

end

end
