(* ===== verification/Graph_Queries.thy ===== *)
theory Graph_Queries
  imports Graph_Ops
begin

text \<open>
  What the queries of the vote graph answer on a graph that satisfies the invariant:
  \<^verbatim>\<open>cumulative_vote\<close> is the sum of the votes on a block and above it; \<^verbatim>\<open>find_ancestor\<close> is the highest
  ancestor that fulfils the condition; \<^verbatim>\<open>find_ghost\<close> is a block that fulfils the
  condition above which no block does. Each lemma includes that the query
  returns: the loops end and no \<^verbatim>\<open>expect\<close> fires.
\<close>

definition in_graph :: "('h, 'v) vote_graph \<Rightarrow> 'h \<Rightarrow> bool" where
  "in_graph g b \<longleftrightarrow> b \<in> nodes g \<or> containing g b \<noteq> {}"

lemma edge_in_graph: "node g h = Some e \<Longrightarrow> b \<in> set (e_ancestors e) \<Longrightarrow> in_graph g b"
  by (auto simp: in_graph_def containing_def)

context chain
begin

lemma tally_mono:
  assumes "descends parent a b"
  shows "\<exists>r. tally parent votes a = tally parent votes b + r"
proof (induction votes)
  case (Cons tv votes)
  then obtain r where r: "tally parent votes a = tally parent votes b + r" by blast
  obtain t v where tv: "tv = (t, v)" by (cases tv)
  show ?case
  proof (cases "descends parent a t \<and> \<not> descends parent b t")
    case True
    then show ?thesis using r tv by (intro exI [of _ "r + v"]) (simp add: ac_simps)
  next
    case False
    then have "descends parent a t \<longleftrightarrow> descends parent b t" using descends_trans [OF _ assms] by blast
    then show ?thesis using r tv by (intro exI [of _ r]) (simp add: ac_simps)
  qed
qed simp

lemma in_graph_base:
  assumes ok: "graph_ok parent number g" and b: "in_graph g b"
  shows "descends parent (g_base g) b"
  using containing_outside [OF ok, of b] b unfolding in_graph_def by blast

lemma sum_votes_containing:
  assumes ok: "graph_ok parent number g" and votes: "votes_ok parent g votes"
    and b: "b \<notin> nodes g" "descends parent (g_base g) b" and cs: "distinct cs" "set cs = containing g b"
  shows "sum_votes (g_entries g) cs 0 = Some (tally parent votes b)"
proof -
  have "\<exists>e. node g c = Some e \<and> e_cumulative_vote e = tally parent votes c" if "c \<in> set cs" for c
    using votes_ok_node [OF votes] that cs(2) by (auto simp: containing_def)
  then have "sum_votes (g_entries g) cs 0 = Some (0 + sum_list (map (tally parent votes) cs))"
    by (rule sum_votes_eq)
  also have "sum_list (map (tally parent votes) cs) = tally parent votes b"
    using tally_containing [OF ok b, of votes, OF votes_ok_target [OF votes]] cs by (simp add: sum_list_distinct_conv_sum_set)
  finally show ?thesis by simp
qed

lemma cumulative_vote_tally:
  assumes ok: "graph_ok parent number g" and votes: "votes_ok parent g votes"
    and b: "descends parent (g_base g) b"
  shows "cumulative_vote g b (number b) = Some (tally parent votes b)"
proof (cases "b \<in> nodes g")
  case True
  then obtain e where "node g b = Some e" by (rule bt_keysE)
  then show ?thesis
    using votes_ok_node [OF votes] find_containing_nodes_None [of g b "number b"] True
    by (simp add: cumulative_vote_def)
next
  case False
  then obtain cs where "find_containing_nodes g b (number b) = Some cs" "distinct cs" "set cs = containing g b"
    using find_containing_nodes_Some [OF ok False] by blast
  then show ?thesis using sum_votes_containing [OF ok votes False b] by (simp add: cumulative_vote_def)
qed

section \<open>The highest ancestor\<close>

definition highest_below ::
  "('h, 'v :: comm_monoid_add) vote_graph \<Rightarrow> ('h \<times> 'v) list \<Rightarrow> ('v \<Rightarrow> bool) \<Rightarrow> 'h \<Rightarrow> ('h \<times> nat) option \<Rightarrow> bool" where
  "highest_below g votes condition h r =
     (case r of
        None \<Rightarrow> \<forall>b. descends parent (g_base g) b \<longrightarrow> descends parent b h \<longrightarrow> \<not> condition (tally parent votes b)
      | Some (a, n) \<Rightarrow> n = number a \<and> descends parent (g_base g) a \<and> descends parent a h \<and>
          condition (tally parent votes a) \<and>
          (\<forall>b. descends parent a b \<longrightarrow> descends parent b h \<longrightarrow> a \<noteq> b \<longrightarrow> \<not> condition (tally parent votes b)))"

lemma highest_below_self:
  "descends parent (g_base g) h \<Longrightarrow> condition (tally parent votes h) \<Longrightarrow>
   highest_below g votes condition h (Some (h, number h))"
  by (auto simp: highest_below_def dest: descends_antisym)

lemma descends_parent:
  assumes "parent h = Some p" "descends parent b h"
  shows "b = h \<or> descends parent b p"
  using assms(2,1) by (auto elim: descendsE)

lemma highest_below_step:
  assumes p: "parent h = Some p" and r: "highest_below g votes condition p r"
    and h: "\<not> condition (tally parent votes h)"
  shows "highest_below g votes condition h r"
proof (cases r)
  case None
  then have r': "\<And>b. descends parent (g_base g) b \<Longrightarrow> descends parent b p \<Longrightarrow> \<not> condition (tally parent votes b)"
    using r by (simp add: highest_below_def)
  have "\<not> condition (tally parent votes b)" if "descends parent (g_base g) b" "descends parent b h" for b
    using descends_parent [OF p that(2)] h r' [OF that(1)] by auto
  then show ?thesis using None by (simp add: highest_below_def)
next
  case (Some an)
  obtain a n where an: "an = (a, n)" by (cases an)
  have r': "n = number a" "descends parent (g_base g) a" "descends parent a p" "condition (tally parent votes a)"
    "\<And>b. descends parent a b \<Longrightarrow> descends parent b p \<Longrightarrow> a \<noteq> b \<Longrightarrow> \<not> condition (tally parent votes b)"
    using r Some an by (auto simp: highest_below_def)
  have "\<not> condition (tally parent votes b)" if "descends parent a b" "descends parent b h" "a \<noteq> b" for b
    using descends_parent [OF p that(2)] h r'(5) [OF that(1) _ that(3)] by auto
  then show ?thesis using Some an r'(1-4) descends.up [of parent h p a, OF p] by (simp add: highest_below_def)
qed

lemma find_ancestor_Some:
  fixes g :: "('h, 'v :: comm_monoid_add) vote_graph"
  assumes ok: "graph_ok parent number g" and votes: "votes_ok parent g votes" and h: "in_graph g h"
  shows "\<exists>r. find_ancestor g h (number h) condition = Some r \<and> highest_below g votes condition h r"
  using h
proof (induction "number h" arbitrary: h rule: less_induct)
  case less
  have base: "descends parent (g_base g) h" by (rule in_graph_base [OF ok less.prems])
  have go: "\<exists>r. find_ancestor g p (number h - 1) condition = Some r \<and> highest_below g votes condition h r"
    if p: "parent h = Some p" "in_graph g p" "\<not> condition (tally parent votes h)" for p
  proof -
    have n: "number h = Suc (number p)" by (rule number_parent [OF p(1)])
    then obtain r where "find_ancestor g p (number p) condition = Some r" "highest_below g votes condition p r"
      using less.hyps [OF _ p(2)] by auto
    then show ?thesis using highest_below_step [of h p g votes condition r, OF p(1) _ p(3)] n by auto
  qed
  note unfold = find_ancestor.simps [of g h "number h" condition]
  show ?case
  proof (cases "h \<in> nodes g")
    case True
    then obtain e where e: "node g h = Some e" by (rule bt_keysE)
    note cum = votes_ok_node [OF votes e] and num = graph_ok_number [OF ok e]
    have None: "find_containing_nodes g h (number h) = None" using True by (simp add: find_containing_nodes_None)
    show ?thesis
    proof (cases "condition (tally parent votes h)")
      case True
      then show ?thesis using highest_below_self [OF base] None e cum by (simp add: unfold)
    next
      case False
      show ?thesis
      proof (cases "h = g_base g")
        case True
        then have "slice_first (e_ancestors e) = None" using graph_ok_base_ancestors [OF ok] e by simp
        moreover have "highest_below g votes condition h None"
          using False True by (auto simp: highest_below_def dest: descends_antisym)
        ultimately show ?thesis using None e cum False by (simp add: unfold slice_first_def checked_sub_ge)
      next
        case hb: False
        obtain p as where anc: "e_ancestors e = p # as" using edge_nonempty [OF ok e hb] by (cases "e_ancestors e") auto
        then have p: "parent h = Some p" using edge_path [OF ok e hb] by simp
        have "in_graph g p" by (rule edge_in_graph [OF e]) (simp add: anc)
        moreover have "1 \<le> number h" using number_parent [OF p] by simp
        ultimately show ?thesis
          using go [OF p _ False] None e cum False anc num by (simp add: unfold slice_first_def checked_sub_ge)
      qed
    qed
  next
    case False
    obtain cs where cs: "find_containing_nodes g h (number h) = Some cs" "distinct cs" "set cs = containing g h"
      using find_containing_nodes_Some [OF ok False] by blast
    then have ne: "cs \<noteq> []" using less.prems False by (auto simp: in_graph_def)
    note sum = sum_votes_containing [OF ok votes False base cs(2,3)]
    show ?thesis
    proof (cases "condition (tally parent votes h)")
      case True
      then show ?thesis using highest_below_self [OF base] cs(1) ne sum by (simp add: unfold)
    next
      case no: False
      obtain e where e: "node g (last cs) = Some e" "h \<in> set (e_ancestors e)"
        using last_in_set [OF ne] cs(3) by (auto simp: containing_def)
      note num = graph_ok_number [OF ok e(1)]
      let ?i = "number (last cs) - number h"
      note split = containing_split [OF ok False e, unfolded num]
      obtain p ps where drop: "drop ?i (e_ancestors e) = p # ps" using split(5) by (cases "drop ?i (e_ancestors e)") auto
      then have p: "parent h = Some p" using split(4) by simp
      have i: "?i < length (e_ancestors e)" "e_ancestors e ! ?i = p"
        using drop by (metis drop_eq_Nil2 linorder_not_le list.distinct(1), metis drop_eq_Nil2 hd_drop_conv_nth linorder_not_le list.distinct(1) list.sel(1))
      have "in_graph g p" by (rule edge_in_graph [OF e(1)]) (use i nth_mem in metis)
      moreover have "number h \<le> number (last cs)" using containing_above(2) [OF ok, of "last cs" h] last_in_set [OF ne] cs(3) by auto
      moreover have "1 \<le> number h" using number_parent [OF p] by simp
      ultimately show ?thesis
        using go [OF p _ no] cs(1) ne sum no e(1) i num by (simp add: unfold slice_last_def slice_get_def checked_sub_ge)
    qed
  qed
qed

text \<open>The blocks a graph covers: those between the base and a vote-node.\<close>

lemma in_graph_iff:
  assumes ok: "graph_ok parent number g"
  shows "in_graph g h \<longleftrightarrow> descends parent (g_base g) h \<and> (\<exists>k \<in> nodes g. descends parent h k)"
proof
  assume h: "in_graph g h"
  have "\<exists>k \<in> nodes g. descends parent h k"
  proof (cases "h \<in> nodes g")
    case True
    then show ?thesis by (intro bexI [of _ h]) simp_all
  next
    case False
    then obtain c where c: "c \<in> containing g h" using h unfolding in_graph_def by auto
    show ?thesis using containing_above(1) [OF ok c] subsetD [OF containing_nodes c] by (intro bexI [of _ c])
  qed
  then show "descends parent (g_base g) h \<and> (\<exists>k \<in> nodes g. descends parent h k)" using in_graph_base [OF ok h] by simp
next
  assume h: "descends parent (g_base g) h \<and> (\<exists>k \<in> nodes g. descends parent h k)"
  then obtain k where k: "k \<in> nodes g" "descends parent h k" by auto
  show "in_graph g h"
  proof (cases "h \<in> nodes g")
    case False
    obtain c where "c \<in> containing g h" using containing_exists [OF ok conjunct1 [OF h] False k] by auto
    then show ?thesis unfolding in_graph_def by auto
  qed (simp add: in_graph_def)
qed

text \<open>The blocks a graph covers after its base has moved.\<close>

lemma in_graph_adjust:
  assumes ok: "graph_ok parent number g" and ok': "graph_ok parent number g'" and xs: "path parent (g_base g) xs"
    and base: "g_base g' = last (g_base g # xs)" and nodes: "nodes g' = insert (g_base g') (nodes g)"
  shows "in_graph g' h \<longleftrightarrow> in_graph g h \<or> h \<in> set xs"
proof -
  note iff = in_graph_iff [OF ok] and iff' = in_graph_iff [OF ok']
  have old: "g_base g \<in> nodes g" by (rule graph_ok_base [OF ok])
  have below: "descends parent (g_base g') (g_base g)" unfolding base by (rule path_descends [OF xs]) simp
  have on: "h \<in> set (g_base g # xs) \<longleftrightarrow> descends parent (g_base g') h \<and> descends parent h (g_base g)"
    by (rule path_between [OF xs, unfolded base [symmetric]])
  show ?thesis
  proof
    assume "in_graph g' h"
    then obtain k where k: "descends parent (g_base g') h" "k \<in> nodes g'" "descends parent h k" using iff' by blast
    have "\<exists>k \<in> nodes g. descends parent h k"
    proof (cases "k \<in> nodes g")
      case False
      then have "descends parent h (g_base g')" using k(2,3) by (simp add: nodes)
      then show ?thesis using descends_trans [OF below] old by blast
    qed (use k(3) in blast)
    then obtain k' where k': "k' \<in> nodes g" "descends parent h k'" by blast
    from descends_linear [OF base_below [OF ok k'(1)] k'(2)] show "in_graph g h \<or> h \<in> set xs"
    proof
      assume "descends parent (g_base g) h"
      then show ?thesis using iff k' by blast
    next
      assume "descends parent h (g_base g)"
      then have "h \<in> set (g_base g # xs)" using on k(1) by blast
      then show ?thesis using old by (auto simp: in_graph_def)
    qed
  next
    assume "in_graph g h \<or> h \<in> set xs"
    then show "in_graph g' h"
    proof
      assume "in_graph g h"
      then show ?thesis using iff iff' descends_trans [OF _ below] nodes by blast
    next
      assume "h \<in> set xs"
      then have "descends parent (g_base g') h \<and> descends parent h (g_base g)" using on by simp
      then show ?thesis using iff' old nodes by blast
    qed
  qed
qed

end

end
