(* ===== verification/Ghost.thy ===== *)
theory Ghost
  imports Graph_Queries
begin

text \<open>
  \<^verbatim>\<open>find_ghost\<close> (\<^verbatim>\<open>src/vote_graph.rs\<close>): for a condition that more votes cannot falsify, it
  returns a block that fulfils the condition, at or above the current best, such that no
  block above it does. The proof follows the code: the descent from vote-node to vote-node
  (\<open>ghost_descend\<close>), then the merge point above the last node
  (\<open>ghost_find_merge_point\<close>), block number by block number.
\<close>

section \<open>One pass over the descendents\<close>

text \<open>\<open>share n ds x\<close>: what the entries whose edge goes through block \<open>x\<close> at number \<open>n\<close> add up to.\<close>

definition share :: "nat \<Rightarrow> ('h, 'v :: comm_monoid_add) entry list \<Rightarrow> 'h \<Rightarrow> 'v" where
  "share n ds x = sum_list (map e_cumulative_vote (filter (\<lambda>d. entry_ancestor_block d n = Some x) ds))"

definition acc :: "('h \<times> 'v :: zero) list \<Rightarrow> 'h \<Rightarrow> 'v" where
  "acc blocks x = (case map_of blocks x of None \<Rightarrow> 0 | Some v \<Rightarrow> v)"

lemma share_simps [simp]:
  "share n [] x = 0"
  "share n (d # ds) x = (if entry_ancestor_block d n = Some x then e_cumulative_vote d else 0) + share n ds x"
  by (simp_all add: share_def)

lemma acc_Nil [simp]: "acc [] x = 0"
  by (simp add: acc_def)

lemma acc_notin: "x \<notin> set (map fst blocks) \<Longrightarrow> acc blocks x = 0"
  by (metis acc_def map_of_eq_None_iff option.simps(4) set_map)

lemma map_of_insert_at:
  assumes "k \<notin> set (map fst xs)"
  shows "map_of (take i xs @ (k, v) # drop i xs) = (map_of xs)(k \<mapsto> v)"
proof -
  have "map_of (take i xs) k = None" using assms by (auto simp: map_of_eq_None_iff dest: in_set_takeD)
  moreover have "map_of xs = map_of (drop i xs) ++ map_of (take i xs)" by (metis append_take_drop_id map_of_append)
  ultimately show ?thesis by (auto simp: fun_eq_iff map_add_def split: option.splits)
qed

lemma sorted_insert_at:
  fixes ks :: "'k :: linorder list"
  assumes "sorted_wrt (<) ks" "binary_search ks k = Inl i"
  shows "sorted_wrt (<) (take i ks @ k # drop i ks)" "k \<notin> set ks"
proof -
  note bs = binary_search_Inl [OF assms]
  have t: "x < k" if "x \<in> set (take i ks)" for x
    using that bs(1,2) by (auto simp: in_set_conv_nth)
  have d: "k < x" if "x \<in> set (drop i ks)" for x
    using that bs(1,3) by (auto simp: in_set_conv_nth)
  have "x < y" if "x \<in> set (take i ks)" "y \<in> set (drop i ks)" for x y
    using t [OF that(1)] d [OF that(2)] by simp
  then show "sorted_wrt (<) (take i ks @ k # drop i ks)"
    using t d assms(1) by (simp add: sorted_wrt_append sorted_wrt_take sorted_wrt_drop)
  show "k \<notin> set ks" using binary_search_is_Inr [OF assms(1), of k] assms(2) by auto
qed

lemma map_of_update_at:
  "distinct (map fst xs) \<Longrightarrow> i < length xs \<Longrightarrow>
   map_of (xs[i := (fst (xs ! i), v)]) = (map_of xs)(fst (xs ! i) \<mapsto> v)"
proof (induction xs arbitrary: i)
  case (Cons x xs)
  then show ?case
    by (cases i) (auto simp: fun_eq_iff, metis in_set_conv_nth length_map nth_map nth_mem set_map image_eqI fst_conv)
qed simp

lemma map_fst_update_at: "i < length xs \<Longrightarrow> map fst (xs[i := (fst (xs ! i), v)]) = map fst xs"
  by (simp add: map_update) (metis length_map list_update_id nth_map)

lemma merge_scan_Some:
  fixes ds :: "('h :: linorder, 'v :: comm_monoid_add) entry list"
  assumes "sorted_wrt (<) (map fst blocks)" "merge_scan condition n ds blocks = Some b"
  shows "\<exists>v r. condition v \<and> acc blocks b + share n ds b = v + r"
  using assms
proof (induction ds arbitrary: blocks)
  case (Cons d ds)
  show ?case
  proof (cases "entry_ancestor_block d n")
    case None
    then show ?thesis using Cons by simp
  next
    case (Some x)
    show ?thesis
    proof (cases "binary_search (map fst blocks) x")
      case (Inl i)
      let ?blocks = "take i blocks @ (x, e_cumulative_vote d) # drop i blocks"
      note ins = sorted_insert_at [OF Cons.prems(1) Inl]
      have "sorted_wrt (<) (map fst ?blocks)" using ins(1) by (simp add: take_map drop_map)
      moreover have "merge_scan condition n ds ?blocks = Some b" using Cons.prems(2) Some Inl by simp
      ultimately obtain v r where vr: "condition v" "acc ?blocks b + share n ds b = v + r"
        using Cons.IH by blast
      have "acc blocks x = 0" by (rule acc_notin [OF ins(2)])
      then have "acc ?blocks b = acc blocks b + (if x = b then e_cumulative_vote d else 0)"
        using map_of_insert_at [OF ins(2)] by (auto simp: acc_def)
      then have "acc blocks b + share n (d # ds) b = v + r" using vr(2) Some by (simp add: add.assoc)
      then show ?thesis using vr(1) by blast
    next
      case (Inr i)
      have i: "i < length blocks" "fst (blocks ! i) = x"
        using Inr binary_search_Inr [OF Cons.prems(1)] by auto
      have dist: "distinct (map fst blocks)" using Cons.prems(1) by (simp add: strict_sorted_iff)
      let ?v = "snd (blocks ! i) + e_cumulative_vote d"
      have "map_of blocks x = Some (snd (blocks ! i))"
        using dist i by (metis map_of_eq_Some_iff nth_mem prod.collapse)
      then have ax: "acc blocks x = snd (blocks ! i)" by (simp add: acc_def)
      show ?thesis
      proof (cases "condition ?v")
        case True
        then have "b = x" using Cons.prems(2) Some Inr by (simp add: Let_def)
        then show ?thesis
          using True ax Some by (intro exI [of _ ?v] exI [of _ "share n ds b"]) (simp add: ac_simps)
      next
        case False
        let ?blocks = "blocks[i := (fst (blocks ! i), ?v)]"
        have "sorted_wrt (<) (map fst ?blocks)" using Cons.prems(1) map_fst_update_at [OF i(1)] by simp
        moreover have "merge_scan condition n ds ?blocks = Some b"
          using Cons.prems(2) Some Inr False by (simp add: Let_def)
        ultimately obtain v r where vr: "condition v" "acc ?blocks b + share n ds b = v + r"
          using Cons.IH by blast
        have "acc ?blocks b = acc blocks b + (if x = b then e_cumulative_vote d else 0)"
          using map_of_update_at [OF dist i(1)] i(2) ax by (auto simp: acc_def)
        then have "acc blocks b + share n (d # ds) b = v + r" using vr(2) Some by (simp add: add.assoc)
        then show ?thesis using vr(1) by blast
      qed
    qed
  qed
qed simp

lemma merge_scan_None:
  fixes ds :: "('h :: linorder, 'v :: comm_monoid_add) entry list"
  assumes "sorted_wrt (<) (map fst blocks)" "merge_scan condition n ds blocks = None"
    and "\<And>x. x \<in> fst ` set blocks \<Longrightarrow> \<not> condition (acc blocks x)"
    and "\<And>d. d \<in> set ds \<Longrightarrow> \<not> condition (e_cumulative_vote d)"
    and "x \<in> fst ` set blocks \<or> (\<exists>d \<in> set ds. entry_ancestor_block d n = Some x)"
  shows "\<not> condition (acc blocks x + share n ds x)"
  using assms
proof (induction ds arbitrary: blocks)
  case (Cons d ds)
  show ?case
  proof (cases "entry_ancestor_block d n")
    case None
    then have "\<not> condition (acc blocks x + share n ds x)"
      using Cons.prems by (intro Cons.IH) auto
    then show ?thesis using None by simp
  next
    case (Some y)
    show ?thesis
    proof (cases "binary_search (map fst blocks) y")
      case (Inl i)
      let ?blocks = "take i blocks @ (y, e_cumulative_vote d) # drop i blocks"
      note ins = sorted_insert_at [OF Cons.prems(1) Inl]
      have ay: "acc blocks y = 0" by (rule acc_notin [OF ins(2)])
      have acc: "acc ?blocks z = acc blocks z + (if y = z then e_cumulative_vote d else 0)" for z
        using map_of_insert_at [OF ins(2)] ay by (auto simp: acc_def)
      have keys: "fst ` set ?blocks = insert y (fst ` set blocks)"
      proof -
        have "set blocks = set (take i blocks) \<union> set (drop i blocks)" by (metis append_take_drop_id set_append)
        then show ?thesis by auto
      qed
      have "\<not> condition (acc ?blocks x + share n ds x)"
      proof (rule Cons.IH)
        show "sorted_wrt (<) (map fst ?blocks)" using ins(1) by (simp add: take_map drop_map)
        show "merge_scan condition n ds ?blocks = None" using Cons.prems(2) Some Inl by simp
        show "\<not> condition (acc ?blocks z)" if "z \<in> fst ` set ?blocks" for z
          using that Cons.prems(3) [of z] Cons.prems(4) [of d] ay unfolding keys acc by auto
        show "x \<in> fst ` set ?blocks \<or> (\<exists>d \<in> set ds. entry_ancestor_block d n = Some x)"
          using Cons.prems(5) Some unfolding keys by auto
      qed (use Cons.prems(4) in auto)
      then show ?thesis using Some unfolding acc by (simp add: ac_simps split: if_splits)
    next
      case (Inr i)
      have i: "i < length blocks" "fst (blocks ! i) = y"
        using Inr binary_search_Inr [OF Cons.prems(1)] by auto
      have dist: "distinct (map fst blocks)" using Cons.prems(1) by (simp add: strict_sorted_iff)
      let ?v = "snd (blocks ! i) + e_cumulative_vote d"
      let ?blocks = "blocks[i := (fst (blocks ! i), ?v)]"
      have "map_of blocks y = Some (snd (blocks ! i))"
        using dist i by (metis map_of_eq_Some_iff nth_mem prod.collapse)
      then have ay: "acc blocks y = snd (blocks ! i)" by (simp add: acc_def)
      have acc: "acc ?blocks z = acc blocks z + (if y = z then e_cumulative_vote d else 0)" for z
        using map_of_update_at [OF dist i(1)] i(2) ay by (auto simp: acc_def)
      have keys: "fst ` set ?blocks = fst ` set blocks"
        using map_fst_update_at [OF i(1), of ?v] by (metis set_map)
      have no: "\<not> condition ?v" and scan: "merge_scan condition n ds ?blocks = None"
        using Cons.prems(2) Some Inr by (auto simp: Let_def split: if_splits)
      have yk: "y \<in> fst ` set blocks" using i by force
      have "\<not> condition (acc ?blocks x + share n ds x)"
      proof (rule Cons.IH [OF _ scan])
        show "sorted_wrt (<) (map fst ?blocks)" using Cons.prems(1) map_fst_update_at [OF i(1)] by simp
        show "\<not> condition (acc ?blocks z)" if "z \<in> fst ` set ?blocks" for z
          using that Cons.prems(3) [of z] no ay unfolding keys acc by auto
        show "x \<in> fst ` set ?blocks \<or> (\<exists>d \<in> set ds. entry_ancestor_block d n = Some x)"
          using Cons.prems(5) Some yk unfolding keys by auto
      qed (use Cons.prems(4) in auto)
      then show ?thesis using Some unfolding acc by (simp add: ac_simps split: if_splits)
    qed
  qed
qed auto

section \<open>The merge point above a vote-node\<close>

text \<open>\<open>through C x\<close>: the listed children whose edge contains \<open>x\<close>, and what they add up to. The child list
  is given with the entries, as \<^verbatim>\<open>ghost_find_merge_point\<close> has it.\<close>

definition through :: "('h \<times> ('h, 'v) entry) list \<Rightarrow> 'h \<Rightarrow> ('h \<times> ('h, 'v) entry) list" where
  "through C x = filter (\<lambda>(d, e). x \<in> set (e_ancestors e)) C"

definition merged :: "('h \<times> ('h, 'v :: comm_monoid_add) entry) list \<Rightarrow> 'h \<Rightarrow> 'v" where
  "merged C x = sum_list (map (\<lambda>(d, e). e_cumulative_vote e) (through C x))"

definition child_list :: "('h, 'v) vote_graph \<Rightarrow> 'h \<Rightarrow> ('h \<times> ('h, 'v) entry) list \<Rightarrow> bool" where
  "child_list g k C \<longleftrightarrow> distinct (map fst C) \<and>
     (\<forall>(d, e) \<in> set C. node g d = Some e \<and> entry_ancestor_node e = Some k)"

lemma child_listD:
  assumes "child_list g k C" "(d, e) \<in> set C"
  shows "node g d = Some e" "entry_ancestor_node e = Some k"
  using assms by (auto simp: child_list_def)

lemma through_all: "(\<And>d e. (d, e) \<in> set C \<Longrightarrow> x \<in> set (e_ancestors e)) \<Longrightarrow> through C x = C"
  by (auto simp: through_def filter_id_conv)

lemma child_list_filter: "child_list g k C \<Longrightarrow> child_list g k (filter P C)"
  by (auto simp: child_list_def distinct_map_filter)

context chain
begin

lemma child_edge:
  assumes ok: "graph_ok parent number g" and e: "node g d = Some e" "entry_ancestor_node e = Some k"
  shows "d \<noteq> g_base g" "last (e_ancestors e) = k" "number d = number k + length (e_ancestors e)"
    "e_ancestors e \<noteq> []" "descends parent k d" "number k < number d"
proof -
  show d: "d \<noteq> g_base g" "last (e_ancestors e) = k"
    using edge_ancestor_node [OF ok e(1)] e(2) by (auto split: if_splits)
  show "number d = number k + length (e_ancestors e)" using edge_length [OF ok e(1) d(1)] d(2) by simp
  show "e_ancestors e \<noteq> []" by (rule edge_nonempty [OF ok e(1) d(1)])
  show "descends parent k d" "number k < number d" using edge_last_below [OF ok e(1) d(1)] d(2) by auto
qed

text \<open>The blocks in the edge of a child of \<open>k\<close> are the ancestors of the child from \<open>k\<close> on.\<close>

lemma child_edge_mem:
  assumes ok: "graph_ok parent number g" and e: "node g d = Some e" "entry_ancestor_node e = Some k"
  shows "x \<in> set (e_ancestors e) \<longleftrightarrow> descends parent x d \<and> x \<noteq> d \<and> descends parent k x"
proof -
  note edge = child_edge [OF ok e]
  have mem: "x \<in> set (e_ancestors e) \<longleftrightarrow> descends parent x d \<and> number x < number d \<and> number k \<le> number x"
    using path_mem [OF edge_path [OF ok e(1) edge(1)], of x] edge(3) by auto
  show ?thesis
  proof
    assume "x \<in> set (e_ancestors e)"
    then show "descends parent x d \<and> x \<noteq> d \<and> descends parent k x"
      using mem descends_le [OF edge(5), of x] by auto
  next
    assume "descends parent x d \<and> x \<noteq> d \<and> descends parent k x"
    then show "x \<in> set (e_ancestors e)"
      using mem number_strict [of x d] number_mono [of k x] by auto
  qed
qed

lemma ancestor_block_mem:
  assumes ok: "graph_ok parent number g" and e: "node g d = Some e"
  shows "entry_ancestor_block e n = Some x \<longleftrightarrow> x \<in> set (e_ancestors e) \<and> number x = n"
proof
  note num = graph_ok_number [OF ok e] and path = edge_path_any [OF ok e]
  assume a: "entry_ancestor_block e n = Some x"
  then have i: "n < number d" "number d - n - 1 < length (e_ancestors e)" "e_ancestors e ! (number d - n - 1) = x"
    by (auto simp: entry_ancestor_block_def slice_get_Some num split: if_splits)
  then show "x \<in> set (e_ancestors e) \<and> number x = n" using path_number [OF path i(2)] nth_mem by fastforce
next
  assume "x \<in> set (e_ancestors e) \<and> number x = n"
  then show "entry_ancestor_block e n = Some x"
    using in_direct_ancestry_True [OF ok e, of x] by (auto simp: entry_in_direct_ancestry_def)
qed

lemma share_merged:
  assumes ok: "graph_ok parent number g" and C: "child_list g k C"
    and a: "descends parent k a" "parent x = Some a"
  shows "share (number x) (map snd (through C a)) x = merged C x"
    and "filter (\<lambda>e. entry_in_direct_ancestry e x (number x) = Some True) (map snd (through C a)) = map snd (through C x)"
proof -
  have mem: "x \<in> set (e_ancestors e) \<Longrightarrow> a \<in> set (e_ancestors e)" if "(d, e) \<in> set C" for d e
  proof -
    note de = child_listD [OF C that]
    have xa: "descends parent a x" by (rule descends.up [of parent x a, OF a(2) descends.same])
    have "a \<noteq> d" if "descends parent x d" "x \<noteq> d"
      using number_parent [OF a(2)] number_strict [OF that] by auto
    then show "x \<in> set (e_ancestors e) \<Longrightarrow> a \<in> set (e_ancestors e)"
      using child_edge_mem [OF ok de, of x] child_edge_mem [OF ok de, of a] a(1) descends_trans [OF _ xa, of d] by blast
  qed
  have "filter (\<lambda>(d, e). x \<in> set (e_ancestors e)) (through C a) = through C x"
    unfolding through_def filter_filter by (rule filter_cong) (use mem in auto)
  moreover have "filter (\<lambda>(d, e). entry_in_direct_ancestry e x (number x) = Some True) (through C a)
      = filter (\<lambda>(d, e). x \<in> set (e_ancestors e)) (through C a)"
    using in_direct_ancestry_True [OF ok child_listD(1) [OF C]] by (intro filter_cong) (auto simp: through_def)
  moreover have "filter (\<lambda>(d, e). entry_ancestor_block e (number x) = Some x) (through C a)
      = filter (\<lambda>(d, e). x \<in> set (e_ancestors e)) (through C a)"
    using ancestor_block_mem [OF ok child_listD(1) [OF C]] by (intro filter_cong) (auto simp: through_def)
  ultimately have f: "filter (\<lambda>(d, e). entry_in_direct_ancestry e x (number x) = Some True) (through C a) = through C x"
    "filter (\<lambda>(d, e). entry_ancestor_block e (number x) = Some x) (through C a) = through C x"
    by simp_all
  show "filter (\<lambda>e. entry_in_direct_ancestry e x (number x) = Some True) (map snd (through C a)) = map snd (through C x)"
    unfolding f(1) [symmetric] filter_map by (simp add: comp_def case_prod_beta')
  show "share (number x) (map snd (through C a)) x = merged C x"
    unfolding merged_def f(2) [symmetric] share_def filter_map by (simp add: comp_def case_prod_beta')
qed

text \<open>The outer loop: from a block \<open>a\<close> at or above \<open>k\<close> it climbs to a block whose merged votes fulfil
  the condition (or stays at \<open>k\<close>) and above which no block on the edges does.\<close>

definition merge_point :: "('h \<times> ('h, 'v :: comm_monoid_add) entry) list \<Rightarrow> ('v \<Rightarrow> bool) \<Rightarrow> 'h \<Rightarrow> 'h \<Rightarrow> bool" where
  "merge_point C condition k a \<longleftrightarrow> descends parent k a \<and>
     (a = k \<or> (condition (merged C a) \<and> through C a \<noteq> [])) \<and>
     (\<forall>x. parent x = Some a \<longrightarrow> through C x \<noteq> [] \<longrightarrow> \<not> condition (merged C x))"

lemma through_nonempty: "through C x \<noteq> [] \<longleftrightarrow> (\<exists>(d, e) \<in> set C. x \<in> set (e_ancestors e))"
  by (auto simp: through_def filter_empty_conv)

lemma merge_loop_point:
  fixes g :: "('h, 'v :: comm_monoid_add) vote_graph"
  assumes ok: "graph_ok parent number g" and C: "child_list g k C"
    and single: "\<And>e. e \<in> snd ` set C \<Longrightarrow> \<not> condition (e_cumulative_vote e)"
    and mono: "\<And>v w. condition v \<Longrightarrow> condition (v + w)"
    and "descends parent k a" "a = k \<or> condition (merged C a) \<and> through C a \<noteq> []"
    and "number a = number k + off" "hashes \<noteq> []" "last hashes = a"
  shows "\<exists>a'. subchain_best (merge_loop condition (number k) (map snd (through C a)) off (number a) hashes) = Some (a', number a') \<and>
    merge_point C condition k a'"
  using assms(5-)
proof (induction "sum_list (map (\<lambda>(d, e). number d) C) - number a" arbitrary: a off hashes rule: less_induct)
  case less
  let ?ds = "map snd (through C a)" and ?n = "number k + (off + 1)"
  have n: "?n = number a + 1" using less.prems(3) by simp
  note unfold = merge_loop.simps [of condition "number k" ?ds off "number a" hashes]
  show ?case
  proof (cases "merge_scan condition ?n ?ds []")
    case None
    have "\<not> condition (merged C x)" if x: "parent x = Some a" "through C x \<noteq> []" for x
    proof -
      have nx: "number x = ?n" using number_parent [OF x(1)] n by simp
      have "through C x = [] \<longleftrightarrow> map snd (through C x) = []" by simp
      then obtain e where e: "e \<in> set (map snd (through C x))" using x(2) by (metis list.set_intros(1) neq_Nil_conv)
      then have "e \<in> set ?ds" "entry_in_direct_ancestry e x ?n = Some True"
        unfolding share_merged(2) [OF ok C less.prems(1) x(1), unfolded nx, symmetric] by auto
      then have "\<exists>e \<in> set ?ds. entry_ancestor_block e ?n = Some x"
        by (auto simp: entry_in_direct_ancestry_def)
      moreover have "\<not> condition (e_cumulative_vote e)" if "e \<in> set ?ds" for e
        using that by (intro single) (auto simp: through_def)
      ultimately have "\<not> condition (acc [] x + share ?n ?ds x)"
        using merge_scan_None [OF _ None, of x] by simp
      then show ?thesis using share_merged(1) [OF ok C less.prems(1) x(1)] nx by simp
    qed
    then have "merge_point C condition k a" using less.prems by (auto simp: merge_point_def)
    moreover have "subchain_best (merge_loop condition (number k) ?ds off (number a) hashes) = Some (a, number a)"
      using None less.prems(4,5) by (simp add: unfold subchain_best_def slice_last_def)
    ultimately show ?thesis by blast
  next
    case (Some x)
    then obtain e where e: "e \<in> set ?ds" "entry_ancestor_block e ?n = Some x"
      using merge_scan_ancestor [OF Some] by blast
    then obtain d where d: "(d, e) \<in> set C" "a \<in> set (e_ancestors e)" by (auto simp: through_def)
    note de = child_listD [OF C d(1)]
    have x: "x \<in> set (e_ancestors e)" "number x = ?n" using ancestor_block_mem [OF ok de(1)] e(2) by auto
    have xd: "descends parent x d" "number x < number d"
      using child_edge_mem [OF ok de, of x] x(1) number_strict by auto
    have ax: "descends parent a x" "number x = number a + 1"
      using descends_le [of a d x] child_edge_mem [OF ok de, of a] d(2) xd x(2) n by auto
    then have px: "parent x = Some a"
    proof -
      obtain y where y: "parent x = Some y" "descends parent a y"
        using ax by (metis descendsE Suc_eq_plus1 n_not_Suc_n)
      then have "number a = number y" using number_parent [OF y(1)] ax(2) by simp
      then show ?thesis using descends_number_eq [OF y(2)] y(1) by simp
    qed
    obtain v r where v: "condition v" "acc [] x + share ?n ?ds x = v + r"
      using merge_scan_Some [OF _ Some] by auto
    then have "merged C x = v + r"
      using share_merged(1) [OF ok C less.prems(1) px] x(2) by simp
    then have cx: "condition (merged C x)" using mono [OF v(1)] by simp
    have tx: "through C x \<noteq> []" using d(1) x(1) unfolding through_nonempty by auto
    have kx: "descends parent k x" using child_edge_mem [OF ok de, of x] x(1) by blast
    have "number d \<le> sum_list (map (\<lambda>(d, e). number d) C)"
      by (rule member_le_sum_list) (use d(1) in force)+
    then have less': "sum_list (map (\<lambda>(d, e). number d) C) - number x < sum_list (map (\<lambda>(d, e). number d) C) - number a"
      using xd(2) ax(2) by linarith
    have "number x = number k + (off + 1)" using x(2) by simp
    from less.hyps [OF less' kx disjI2 [OF conjI [OF cx tx]] this, of "hashes @ [x]"]
    obtain a' where a': "subchain_best (merge_loop condition (number k) (map snd (through C x)) (off + 1) (number x) (hashes @ [x])) = Some (a', number a')"
      "merge_point C condition k a'" by auto
    have "merge_loop condition (number k) ?ds off (number a) hashes
        = merge_loop condition (number k) (map snd (through C x)) (off + 1) (number x) (hashes @ [x])"
      unfolding unfold Let_def using Some ax(2)
      by (simp add: share_merged(2) [OF ok C less.prems(1) px, symmetric] del: filter_map)
    then show ?thesis using a' by auto
  qed
qed

section \<open>The descent from node to node\<close>

lemma get_nodes_Some:
  assumes "\<And>d. d \<in> set ds \<Longrightarrow> d \<in> bt_keys entries"
  shows "\<exists>C. get_nodes entries ds = Some C \<and> map fst C = ds \<and> (\<forall>(d, e) \<in> set C. bt_get entries d = Some e)"
  using assms
proof (induction ds)
  case (Cons d ds)
  obtain e where "bt_get entries d = Some e" using Cons.prems [of d] by (auto elim: bt_keysE)
  moreover obtain C where "get_nodes entries ds = Some C" "map fst C = ds" "\<forall>(d, e) \<in> set C. bt_get entries d = Some e"
    using Cons by auto
  ultimately show ?case by simp
qed simp

lemma child_list_get_nodes:
  assumes ok: "graph_ok parent number g" and e: "node g k = Some e"
  shows "\<exists>C. get_nodes (g_entries g) (e_descendents e) = Some C \<and> child_list g k C \<and> fst ` set C = children g k"
proof -
  have ds: "set (e_descendents e) = children g k" by (rule graph_ok_descendents [OF ok e])
  then obtain C where C: "get_nodes (g_entries g) (e_descendents e) = Some C" "map fst C = e_descendents e"
    "\<forall>(d, e) \<in> set C. node g d = Some e"
    using get_nodes_Some [of "e_descendents e" "g_entries g"] children_nodes [of g k] by blast
  have keys: "fst ` set C = children g k" using C(2) ds by (metis set_map)
  have "entry_ancestor_node f = Some k" if "(d, f) \<in> set C" for d f
  proof -
    have "d \<in> children g k" using keys that by force
    then show ?thesis using C(3) that by (auto simp: children_def)
  qed
  then have "child_list g k C"
    using C(2,3) graph_ok_distinct [OF ok e] by (auto simp: child_list_def)
  then show ?thesis using C(1) keys by blast
qed

lemma through_self:
  assumes ok: "graph_ok parent number g" and C: "child_list g k C"
  shows "through C k = C"
proof -
  have "k \<in> set (e_ancestors e)" if "(d, e) \<in> set C" for d e
    using child_edge_mem [OF ok child_listD [OF C that], of k] child_edge [OF ok child_listD [OF C that]] by auto
  then show ?thesis by (rule through_all)
qed

text \<open>The children the descent may go to: all of them, or those through the constraint.\<close>

definition allowed :: "('h \<times> nat) option \<Rightarrow> ('h \<times> ('h, 'v) entry) list \<Rightarrow> ('h \<times> ('h, 'v) entry) list" where
  "allowed force C = filter (\<lambda>(_, e). constrained force e) C"

lemma find_None_filter: "List.find P xs = None \<longleftrightarrow> (\<forall>x \<in> set xs. \<not> P x)"
  by (auto simp: find_None_iff)

lemma find_SomeD: "List.find P xs = Some x \<Longrightarrow> x \<in> set xs \<and> P x"
  by (auto simp: find_Some_iff)

lemma ghost_descend_Some:
  fixes g :: "('h, 'v :: comm_monoid_add) vote_graph"
  assumes ok: "graph_ok parent number g"
    and "node g k = Some e" "condition (e_cumulative_vote e)"
  shows "\<exists>k' e' force' C. ghost_descend (g_entries g) cb condition k e force = Some (k', e', force') \<and>
    node g k' = Some e' \<and> condition (e_cumulative_vote e') \<and> descends parent k k' \<and>
    (force' \<longrightarrow> force \<and> k' = k) \<and>
    (force \<longrightarrow> \<not> force' \<longrightarrow> (\<exists>d f. node g d = Some f \<and> constrained cb f \<and> descends parent d k')) \<and>
    get_nodes (g_entries g) (e_descendents e') = Some C \<and> child_list g k' C \<and> fst ` set C = children g k' \<and>
    (\<forall>(d, f) \<in> set (allowed (if force' then cb else None) C). \<not> condition (e_cumulative_vote f))"
  using assms(2-)
proof (induction "card {x \<in> nodes g. number k < number x}" arbitrary: k e force rule: less_induct)
  case less
  let ?cb = "if force then cb else None"
  obtain C where C: "get_nodes (g_entries g) (e_descendents e) = Some C" "child_list g k C" "fst ` set C = children g k"
    using child_list_get_nodes [OF ok less.prems(1)] by blast
  note unfold = ghost_descend.simps [of "g_entries g" cb condition k e force]
  show ?case
  proof (cases "List.find (\<lambda>(_, nd). condition (e_cumulative_vote nd)) (allowed ?cb C)")
    case None
    then have "ghost_descend (g_entries g) cb condition k e force = Some (k, e, force)"
      using C(1) by (simp add: unfold allowed_def)
    moreover have "\<forall>(d, f) \<in> set (allowed ?cb C). \<not> condition (e_cumulative_vote f)"
      using None by (auto simp: find_None_filter)
    ultimately show ?thesis using less.prems C by (intro exI [of _ k] exI [of _ e] exI [of _ force] exI [of _ C]) simp
  next
    case (Some df)
    obtain d f where df: "df = (d, f)" by (cases df)
    have d: "(d, f) \<in> set C" "constrained ?cb f" "condition (e_cumulative_vote f)"
      using find_SomeD [OF Some] df by (auto simp: allowed_def)
    note dn = child_listD [OF C(2) d(1)]
    note edge = child_edge [OF ok dn]
    have "{x \<in> nodes g. number d < number x} \<subset> {x \<in> nodes g. number k < number x}"
      using edge(6) bt_get_keys [OF dn(1)] by auto
    then have "card {x \<in> nodes g. number d < number x} < card {x \<in> nodes g. number k < number x}"
      by (intro psubset_card_mono) auto
    from less.hyps [OF this dn(1) d(3), of False] obtain k' e' C' where IH:
      "ghost_descend (g_entries g) cb condition d f False = Some (k', e', False)"
      "node g k' = Some e'" "condition (e_cumulative_vote e')" "descends parent d k'"
      "get_nodes (g_entries g) (e_descendents e') = Some C'" "child_list g k' C'" "fst ` set C' = children g k'"
      "\<forall>(d, f) \<in> set (allowed None C'). \<not> condition (e_cumulative_vote f)"
      by auto
    have "ghost_descend (g_entries g) cb condition k e force = Some (k', e', False)"
      using C(1) Some df IH(1) by (simp add: unfold allowed_def)
    moreover have "descends parent k k'" by (rule descends_trans [OF IH(4) edge(5)])
    moreover have "\<exists>d f. node g d = Some f \<and> constrained cb f \<and> descends parent d k'" if force
      using that d(2) dn(1) IH(4) by auto
    ultimately show ?thesis
      using IH by (intro exI [of _ k'] exI [of _ e'] exI [of _ False] exI [of _ C']) simp
  qed
qed

section \<open>The ghost\<close>

lemma child_below:
  assumes ok: "graph_ok parent number g" and k: "k \<in> nodes g"
  shows "x \<in> nodes g \<Longrightarrow> descends parent k x \<Longrightarrow> k \<noteq> x \<Longrightarrow> \<exists>d \<in> children g k. descends parent d x"
proof (induction "number x" arbitrary: x rule: less_induct)
  case less
  obtain e where e: "node g x = Some e" using less.prems(1) by (rule bt_keysE)
  let ?p = "last (e_ancestors e)"
  note below = node_below_last [OF ok e k less.prems(2,3)]
  note p = edge_last_below [OF ok e below(1)]
  show ?case
  proof (cases "k = ?p")
    case True
    then have "x \<in> children g k" using e edge_ancestor_node [OF ok e] below(1) by (auto simp: children_def)
    then show ?thesis by (intro bexI [of _ x]) simp_all
  next
    case False
    then obtain d where d: "d \<in> children g k" "descends parent d ?p"
      using less.hyps [OF conjunct2 [OF p] edge_last [OF ok e below(1)] below(2)] by blast
    show ?thesis using descends_trans [OF conjunct1 [OF p] d(2)] d(1) by blast
  qed
qed

lemma merged_sum:
  assumes C: "child_list g k C" and votes: "votes_ok parent g votes"
  shows "merged C x = (\<Sum>d \<in> containing g x \<inter> fst ` set C. tally parent votes d)"
proof -
  have dist: "distinct (map fst (through C x))"
    using C by (auto simp: child_list_def through_def distinct_map_filter)
  have "map (\<lambda>(d, e). e_cumulative_vote e) (through C x) = map (tally parent votes) (map fst (through C x))"
    using votes_ok_node [OF votes child_listD(1) [OF C]] by (auto simp: through_def)
  then have "merged C x = (\<Sum>d \<in> set (map fst (through C x)). tally parent votes d)"
    using dist by (simp add: merged_def sum_list_distinct_conv_sum_set del: set_map map_map)
  also have "set (map fst (through C x)) = containing g x \<inter> fst ` set C"
  proof -
    have "d \<in> fst ` set (through C x) \<longleftrightarrow> d \<in> containing g x \<and> d \<in> fst ` set C" for d
      using child_listD(1) [OF C] by (fastforce simp: through_def containing_def)
    then show ?thesis by auto
  qed
  finally show ?thesis .
qed

lemma merged_tally:
  assumes ok: "graph_ok parent number g" and votes: "votes_ok parent g votes" and C: "child_list g k C"
    and x: "x \<notin> nodes g" "descends parent (g_base g) x"
  shows "\<exists>r. tally parent votes x = merged C x + r"
    and "containing g x \<subseteq> fst ` set C \<Longrightarrow> tally parent votes x = merged C x"
proof -
  have t: "tally parent votes x = (\<Sum>c \<in> containing g x. tally parent votes c)"
    by (rule tally_containing [OF ok x]) (rule votes_ok_target [OF votes])
  also have "\<dots> = (\<Sum>c \<in> containing g x \<inter> fst ` set C. tally parent votes c)
      + (\<Sum>c \<in> containing g x - fst ` set C. tally parent votes c)"
    by (subst sum.Int_Diff [of _ _ "fst ` set C"]) simp_all
  finally show "\<exists>r. tally parent votes x = merged C x + r" unfolding merged_sum [OF C votes] by blast
  show "containing g x \<subseteq> fst ` set C \<Longrightarrow> tally parent votes x = merged C x"
    unfolding merged_sum [OF C votes] t by (simp add: inf.absorb1)
qed

text \<open>A merge point on children none of which fulfils the condition is a block above which
  no block fulfils it, provided the list has every child on a branch above it.\<close>

lemma merge_point_maximal:
  assumes ok: "graph_ok parent number g" and votes: "votes_ok parent g votes" and k: "k \<in> nodes g"
    and mono: "\<And>v w. condition v \<Longrightarrow> condition (v + w)" and zero: "\<not> condition 0"
    and C: "child_list g k C" and single: "\<And>e. e \<in> snd ` set C \<Longrightarrow> \<not> condition (e_cumulative_vote e)"
    and mp: "merge_point C condition k a"
    and cover: "\<And>d y. d \<in> children g k \<Longrightarrow> descends parent a y \<Longrightarrow> a \<noteq> y \<Longrightarrow>
      descends parent y d \<or> descends parent d y \<Longrightarrow> d \<in> fst ` set C"
    and b: "descends parent a b" "a \<noteq> b"
  shows "\<not> condition (tally parent votes b)"
proof
  assume cb: "condition (tally parent votes b)"
  have ka: "descends parent k a" using mp by (simp add: merge_point_def)
  have kb: "descends parent (g_base g) k" by (rule base_below [OF ok k])
  have "number a + 1 \<le> number b" using number_strict [OF b] by simp
  then obtain x where x: "number x = number a + 1" "descends parent x b" "descends parent a x"
    using ancestor_at [OF b(1), of "number a + 1"] by auto
  have ax: "a \<noteq> x" using x(1) by auto
  have px: "parent x = Some a"
  proof -
    obtain y where y: "parent x = Some y" "descends parent a y" using x(3) ax by (auto elim: descendsE)
    then show ?thesis using descends_number_eq [OF y(2)] number_parent [OF y(1)] x(1) by simp
  qed
  have cx: "condition (tally parent votes x)" using tally_mono [OF x(2), of votes] mono [OF cb] by metis
  have kx: "descends parent k x" by (rule descends_trans [OF x(3) ka])
  have kx': "k \<noteq> x" using x(1) number_mono [OF ka] by auto
  have no_child: False if d: "d \<in> children g k" "descends parent d c" "descends parent x c \<or> c = x"
    "descends parent x d \<or> descends parent d x" "condition (tally parent votes d)" for c d
  proof -
    have "d \<in> fst ` set C" by (rule cover [OF d(1) x(3) ax d(4)])
    then obtain e where e: "(d, e) \<in> set C" by force
    then have "\<not> condition (e_cumulative_vote e)" by (intro single) force
    then show False using d(5) votes_ok_node [OF votes child_listD(1) [OF C e]] by simp
  qed
  have below_x: False if y: "y \<in> nodes g" "descends parent y x" "descends parent k y" "k \<noteq> y" for y
  proof -
    obtain d where d: "d \<in> children g k" "descends parent d y" using child_below [OF ok k y(1,3,4)] by blast
    have dx: "descends parent d x" by (rule descends_trans [OF y(2) d(2)])
    have "condition (tally parent votes d)" using tally_mono [OF dx, of votes] mono [OF cx] by metis
    then show False using no_child [OF d(1) dx] dx by blast
  qed
  have xn: "x \<notin> nodes g" using below_x [of x] kx kx' by auto
  have bx: "descends parent (g_base g) x" by (rule descends_trans [OF kx kb])
  have "containing g x \<subseteq> fst ` set C"
  proof
    fix c assume c: "c \<in> containing g x"
    then obtain e where e: "node g c = Some e" "x \<in> set (e_ancestors e)" by (auto simp: containing_def)
    note above = containing_above [OF ok c] and last = containing_below_last [OF ok e xn]
    have kc: "descends parent k c" by (rule descends_trans [OF above(1) kx])
    have "k \<noteq> c" using above(2) number_mono [OF kx] by auto
    then have "descends parent k (last (e_ancestors e))" by (rule node_below_last(2) [OF ok e(1) k kc])
    then have "last (e_ancestors e) = k"
      using below_x [OF edge_last [OF ok e(1) above(3)] last(1)] by metis
    then have "c \<in> children g k" using e(1) edge_ancestor_node [OF ok e(1)] above(3) by (auto simp: children_def)
    then show "c \<in> fst ` set C" using cover [OF _ x(3) ax] above(1) by blast
  qed
  then have m: "tally parent votes x = merged C x" by (rule merged_tally(2) [OF ok votes C xn bx])
  then have "merged C x \<noteq> 0" using cx zero by auto
  then have "through C x \<noteq> []" by (auto simp: merged_def)
  then show False using mp px cx m by (auto simp: merge_point_def)
qed

lemma merge_point_tally:
  assumes ok: "graph_ok parent number g" and votes: "votes_ok parent g votes" and k: "k \<in> nodes g"
    and mono: "\<And>v w. condition v \<Longrightarrow> condition (v + w)" and C: "child_list g k C"
    and ck: "condition (tally parent votes k)" and mp: "merge_point C condition k a"
  shows "condition (tally parent votes a)"
proof (cases "a = k")
  case False
  then have m: "condition (merged C a)" and "through C a \<noteq> []" and ka: "descends parent k a"
    using mp by (auto simp: merge_point_def)
  then obtain d e where d: "(d, e) \<in> set C" "a \<in> set (e_ancestors e)" unfolding through_nonempty by blast
  note dn = child_listD [OF C d(1)]
  have "a \<notin> nodes g" using edge_mem_node(1) [OF ok dn(1) d(2)] child_edge(2) [OF ok dn] False by auto
  moreover have "descends parent (g_base g) a" by (rule descends_trans [OF ka base_below [OF ok k]])
  ultimately obtain r where "tally parent votes a = merged C a + r" using merged_tally(1) [OF ok votes C] by blast
  then show ?thesis using mono [OF m] by simp
qed (use ck in simp)

text \<open>With the constraint: the block \<open>h\<close> is on the edges above \<open>k\<close> and fulfils the condition, so the
  merge point of the children through \<open>h\<close> is at or above \<open>h\<close>.\<close>

lemma constrained_through:
  assumes ok: "graph_ok parent number g" and C: "child_list g k C"
  shows "allowed (Some (h, number h)) C = through C h"
  unfolding allowed_def through_def
  by (rule filter_cong) (auto simp: constrained_def in_direct_ancestry_True [OF ok child_listD(1) [OF C]])

lemma merge_point_constrained:
  assumes ok: "graph_ok parent number g" and votes: "votes_ok parent g votes"
    and C: "child_list g k C" "fst ` set C = children g k"
    and h: "h \<notin> nodes g" "c \<in> containing g h" "node g c = Some e" "last (e_ancestors e) = k"
    and ch: "condition (tally parent votes h)"
    and mp: "merge_point (through C h) condition k a"
  shows "descends parent h a"
    and "d \<in> children g k \<Longrightarrow> descends parent a y \<Longrightarrow> a \<noteq> y \<Longrightarrow>
      descends parent y d \<or> descends parent d y \<Longrightarrow> d \<in> fst ` set (through C h)"
proof -
  let ?A = "through C h"
  have A: "child_list g k ?A" using child_list_filter [OF C(1)] by (simp add: through_def)
  have he: "h \<in> set (e_ancestors e)" using h(2,3) by (auto simp: containing_def)
  have same: "last (e_ancestors f) = k" if "node g d = Some f" "h \<in> set (e_ancestors f)" for d f
    using containing_same_last [OF ok h(1) that h(3) he] h(4) by simp
  have k: "descends parent k h" "number k < number h" using containing_below_last [OF ok h(3) he h(1)] h(4) by auto
  have kn: "k \<in> nodes g" using edge_last [OF ok h(3) containing_above(3) [OF ok h(2)]] h(4) by simp
  have bh: "descends parent (g_base g) h" by (rule descends_trans [OF k(1) base_below [OF ok kn]])
  have cont_A: "containing g h \<subseteq> fst ` set ?A"
  proof
    fix d assume d: "d \<in> containing g h"
    then obtain f where f: "node g d = Some f" "h \<in> set (e_ancestors f)" by (auto simp: containing_def)
    have "d \<in> children g k"
      using f(1) edge_ancestor_node [OF ok f(1)] containing_above(3) [OF ok d] same [OF f] by (auto simp: children_def)
    then obtain f' where f': "(d, f') \<in> set C" using C(2) by force
    then have "f' = f" using child_listD(1) [OF C(1) f'] f(1) by simp
    then show "d \<in> fst ` set ?A" using f' f(2) by (force simp: through_def)
  qed
  have A_mem: "h \<in> set (e_ancestors f)" if "(d, f) \<in> set ?A" for d f using that by (auto simp: through_def)
  have mh: "merged ?A h = tally parent votes h" by (rule merged_tally(2) [OF ok votes A h(1) bh cont_A, symmetric])
  have ne: "?A \<noteq> []" using cont_A h(2) by auto
  have ka: "descends parent k a" using mp by (simp add: merge_point_def)
  have edge: "(\<exists>(d, f) \<in> set ?A. a \<in> set (e_ancestors f)) \<or> a = k"
    using mp unfolding merge_point_def through_nonempty [of ?A] by blast
  have "number h \<le> number a"
  proof (rule ccontr)
    assume lt: "\<not> number h \<le> number a"
    have ah: "descends parent a h"
    proof (cases "a = k")
      case False
      then obtain d f where f: "(d, f) \<in> set ?A" "a \<in> set (e_ancestors f)" using edge by blast
      note fn = child_listD [OF A f(1)]
      show ?thesis
        using child_edge_mem [OF ok fn, of a] child_edge_mem [OF ok fn, of h] f(2) A_mem [OF f(1)] lt
          descends_le [of a d h] by auto
    qed (use k in simp)
    obtain x where x: "number x = number a + 1" "descends parent x h" "descends parent a x"
      using ancestor_at [OF ah, of "number a + 1"] lt by auto
    have px: "parent x = Some a"
    proof -
      obtain y where y: "parent x = Some y" "descends parent a y" using x(1,3) by (auto elim: descendsE)
      then show ?thesis using descends_number_eq [OF y(2)] number_parent [OF y(1)] x(1) by simp
    qed
    have xA: "x \<in> set (e_ancestors f)" if df: "(d, f) \<in> set ?A" for d f
    proof -
      note fn = child_listD [OF A df]
      have hd: "descends parent h d" "h \<noteq> d" using child_edge_mem [OF ok fn, of h] A_mem [OF df] by auto
      have "x \<noteq> d" using number_strict [OF hd] number_mono [OF x(2)] by auto
      then show ?thesis
        using child_edge_mem [OF ok fn, of x] descends_trans [OF hd(1) x(2)] descends_trans [OF x(3) ka] by blast
    qed
    have "through ?A x = ?A" "through ?A h = ?A" by (rule through_all, erule xA) (rule through_all, erule A_mem)
    then have "merged ?A x = merged ?A h" "through ?A x \<noteq> []" using ne by (simp_all add: merged_def)
    then have "condition (merged ?A x)" "through ?A x \<noteq> []" using mh ch by simp_all
    then show False using mp px unfolding merge_point_def by blast
  qed
  moreover from this have "a \<noteq> k" using k(2) by auto
  then obtain d' f where f: "(d', f) \<in> set ?A" "a \<in> set (e_ancestors f)" using edge by blast
  note fn = child_listD [OF A f(1)]
  ultimately show ha: "descends parent h a"
    using child_edge_mem [OF ok fn, of a] child_edge_mem [OF ok fn, of h] f(2) A_mem [OF f(1)] descends_le [of h d' a]
    by auto
  show "d \<in> fst ` set ?A" if d: "d \<in> children g k" and y: "descends parent a y" "a \<noteq> y"
    and dy: "descends parent y d \<or> descends parent d y"
  proof -
    obtain f where f: "node g d = Some f" "entry_ancestor_node f = Some k" using d by (auto simp: children_def)
    have hy: "descends parent h y" by (rule descends_trans [OF y(1) ha])
    have "descends parent h d \<or> descends parent d h"
      using dy
    proof
      assume "descends parent y d"
      then show ?thesis using descends_trans hy by metis
    next
      assume "descends parent d y"
      then show ?thesis by (rule descends_linear [OF hy])
    qed
    moreover have False if dh: "descends parent d h"
    proof -
      have dn: "d \<in> nodes g" using bt_get_keys [OF f(1)] .
      have dc: "descends parent d c" by (rule descends_trans [OF containing_above(1) [OF ok h(2)] dh])
      have "d \<noteq> c" using number_mono [OF dh] containing_above(2) [OF ok h(2)] by auto
      then have "descends parent d k" using node_below_last(2) [OF ok h(3) dn dc] h(4) by simp
      then show False using number_mono [of d k] child_edge(6) [OF ok f] by simp
    qed
    moreover have "h \<noteq> d" using bt_get_keys [OF f(1)] h(1) by auto
    ultimately have "h \<in> set (e_ancestors f)" using child_edge_mem [OF ok f, of h] k(1) by blast
    then show ?thesis using cont_A f(1) unfolding containing_def by blast
  qed
qed

text \<open>Where the search starts.\<close>

lemma ghost_start_Some:
  assumes ok: "graph_ok parent number g" and votes: "votes_ok parent g votes"
    and h: "descends parent (g_base g) h" "condition (tally parent votes h)" and zero: "\<not> condition 0"
  shows "h \<in> nodes g \<and> ghost_start g (Some (h, number h)) = Some (h, False) \<or>
    h \<notin> nodes g \<and> (\<exists>c e. c \<in> containing g h \<and> node g c = Some e \<and>
      ghost_start g (Some (h, number h)) = Some (last (e_ancestors e), True))"
proof (cases "h \<in> nodes g")
  case True
  then show ?thesis using find_containing_nodes_None [of g h "number h"] by (simp add: ghost_start_def)
next
  case False
  obtain cs where cs: "find_containing_nodes g h (number h) = Some cs" "set cs = containing g h"
    using find_containing_nodes_Some [OF ok False] by blast
  have "containing g h \<noteq> {}"
    using tally_outside [OF ok False h(1), of votes] votes_ok_target [OF votes] h(2) zero by metis
  then obtain c cs' where c: "cs = c # cs'" using cs(2) by (cases cs) auto
  then have cc: "c \<in> containing g h" using cs(2) by auto
  then obtain e where e: "node g c = Some e" by (auto simp: containing_def)
  then have "ghost_start g (Some (h, number h)) = Some (last (e_ancestors e), True)"
    using cs(1) c edge_ancestor_node [OF ok e] containing_above(3) [OF ok cc] by (simp add: ghost_start_def)
  then show ?thesis using cc e False by blast
qed

definition ghost_of ::
  "('h, 'v :: comm_monoid_add) vote_graph \<Rightarrow> ('h \<times> 'v) list \<Rightarrow> ('v \<Rightarrow> bool) \<Rightarrow> 'h \<Rightarrow> bool" where
  "ghost_of g votes condition a \<longleftrightarrow> descends parent (g_base g) a \<and> condition (tally parent votes a) \<and>
     (\<forall>b. descends parent a b \<longrightarrow> a \<noteq> b \<longrightarrow> \<not> condition (tally parent votes b))"

lemma find_ghost_from:
  fixes g :: "('h, 'v :: comm_monoid_add) vote_graph"
  assumes ok: "graph_ok parent number g" and votes: "votes_ok parent g votes"
    and mono: "\<And>v w. condition v \<Longrightarrow> condition (v + w)" and zero: "\<not> condition 0"
    and start: "ghost_start g cb = Some (k, force)" and k: "k \<in> nodes g" "condition (tally parent votes k)"
    and force: "force \<Longrightarrow> \<exists>h c e. cb = Some (h, number h) \<and> h \<notin> nodes g \<and> c \<in> containing g h \<and> node g c = Some e \<and>
      last (e_ancestors e) = k \<and> condition (tally parent votes h)"
  shows "\<exists>a. find_ghost g cb condition = Some (Some (a, number a)) \<and> ghost_of g votes condition a \<and> descends parent k a \<and>
    (force \<longrightarrow> (\<forall>h n. cb = Some (h, n) \<longrightarrow> descends parent h a))"
proof -
  obtain e where e: "node g k = Some e" using k(1) by (rule bt_keysE)
  have ce: "condition (e_cumulative_vote e)" using votes_ok_node [OF votes e] k(2) by simp
  obtain k' e' force' C where desc:
    "ghost_descend (g_entries g) cb condition k e force = Some (k', e', force')"
    "node g k' = Some e'" "condition (e_cumulative_vote e')" "descends parent k k'"
    "force' \<longrightarrow> force \<and> k' = k"
    "force \<longrightarrow> \<not> force' \<longrightarrow> (\<exists>d f. node g d = Some f \<and> constrained cb f \<and> descends parent d k')"
    "get_nodes (g_entries g) (e_descendents e') = Some C" "child_list g k' C" "fst ` set C = children g k'"
    "\<forall>(d, f) \<in> set (allowed (if force' then cb else None) C). \<not> condition (e_cumulative_vote f)"
    using ghost_descend_Some [of g k e condition cb force, OF ok e ce] by (elim exE conjE) (rule that; assumption)
  define A where "A = allowed (if force' then cb else None) C"
  have single: "\<not> condition (e_cumulative_vote f)" if "f \<in> snd ` set A" for f
    using desc(10) that unfolding A_def by auto
  have A: "child_list g k' A" using child_list_filter [OF desc(8)] by (simp add: A_def allowed_def)
  have k': "k' \<in> nodes g" by (rule bt_get_keys [OF desc(2)])
  have num: "e_number e' = number k'" by (rule graph_ok_number [OF ok desc(2)])
  have ck': "condition (tally parent votes k')" using votes_ok_node [OF votes desc(2)] desc(3) by simp
  obtain a where a: "subchain_best (merge_loop condition (number k') (map snd (through A k')) 0 (number k') [k']) = Some (a, number a)"
    "merge_point A condition k' a"
    using merge_loop_point [where a = k' and off = 0 and hashes = "[k']" and condition = condition, OF ok A single mono] by auto
  have "find_ghost g cb condition = Some (Some (a, number a))"
    using start e ce desc(1,7) a(1) through_self [OF ok A] num
    by (simp add: find_ghost_def ghost_find_merge_point_def A_def allowed_def filter_map comp_def case_prod_beta')
  moreover have k'a: "descends parent k' a" using a(2) by (simp add: merge_point_def)
  then have "descends parent (g_base g) a" by (rule descends_trans [OF _ base_below [OF ok k']])
  moreover have "condition (tally parent votes a)" by (rule merge_point_tally [OF ok votes k' mono A ck' a(2)])
  moreover have "descends parent k a" by (rule descends_trans [OF k'a desc(4)])
  moreover have "(force \<longrightarrow> (\<forall>h n. cb = Some (h, n) \<longrightarrow> descends parent h a)) \<and>
      (\<forall>d y. d \<in> children g k' \<longrightarrow> descends parent a y \<longrightarrow> a \<noteq> y \<longrightarrow>
         descends parent y d \<or> descends parent d y \<longrightarrow> d \<in> fst ` set A)"
  proof (cases force')
    case True
    then have "force" "k' = k" using desc(5) by auto
    then obtain h c f where h: "cb = Some (h, number h)" "h \<notin> nodes g" "c \<in> containing g h" "node g c = Some f"
      "last (e_ancestors f) = k'" "condition (tally parent votes h)" using force by blast
    have Ah: "A = through C h" using constrained_through [OF ok desc(8)] True h(1) by (simp add: A_def)
    note mc = merge_point_constrained [OF ok votes desc(8,9) h(2-6) a(2) [unfolded Ah]]
    show ?thesis using mc h(1) Ah by simp
  next
    case False
    then have "fst ` set A = children g k'" using desc(9) by (simp add: A_def allowed_def constrained_def)
    moreover have "descends parent h a" if fcb: "force" "cb = Some (h, n)" for h n
    proof -
      obtain d f where d: "node g d = Some f" "constrained cb f" "descends parent d k'" using desc(6) fcb(1) False by blast
      have "n = number h" using force [OF fcb(1)] fcb(2) by auto
      then have "h \<in> set (e_ancestors f)"
        using d(2) fcb(2) in_direct_ancestry_True [OF ok d(1)] by (simp add: constrained_def)
      then have "d \<in> containing g h" using d(1) by (auto simp: containing_def)
      then have "descends parent h d" by (rule containing_above(1) [OF ok])
      from descends_trans [OF d(3) this] show ?thesis by (rule descends_trans [OF k'a])
    qed
    ultimately show ?thesis by blast
  qed
  moreover from this have "\<not> condition (tally parent votes b)" if "descends parent a b" "a \<noteq> b" for b
    using merge_point_maximal [OF ok votes k' mono zero A single a(2) _ that] by blast
  ultimately show ?thesis unfolding ghost_of_def by blast
qed

lemma find_ghost_base:
  fixes g :: "('h, 'v :: comm_monoid_add) vote_graph"
  assumes ok: "graph_ok parent number g" and votes: "votes_ok parent g votes"
    and mono: "\<And>v w. condition v \<Longrightarrow> condition (v + w)" and zero: "\<not> condition 0"
    and base: "condition (tally parent votes (g_base g))"
  shows "\<exists>a. find_ghost g None condition = Some (Some (a, number a)) \<and> ghost_of g votes condition a"
  using find_ghost_from [OF ok votes mono zero _ graph_ok_base [OF ok] base, of None False]
  by (auto simp: ghost_start_def)

lemma find_ghost_best:
  fixes g :: "('h, 'v :: comm_monoid_add) vote_graph"
  assumes ok: "graph_ok parent number g" and votes: "votes_ok parent g votes"
    and mono: "\<And>v w. condition v \<Longrightarrow> condition (v + w)" and zero: "\<not> condition 0"
    and h: "descends parent (g_base g) h" "condition (tally parent votes h)"
  shows "\<exists>a. find_ghost g (Some (h, number h)) condition = Some (Some (a, number a)) \<and>
    ghost_of g votes condition a \<and> descends parent h a"
  using ghost_start_Some [of g votes h condition, OF ok votes h zero]
proof (elim disjE conjE exE)
  assume hn: "h \<in> nodes g" "ghost_start g (Some (h, number h)) = Some (h, False)"
  show ?thesis using find_ghost_from [OF ok votes mono zero hn(2,1) h(2)] by blast
next
  fix c e
  assume c: "h \<notin> nodes g" "c \<in> containing g h" "node g c = Some e"
    "ghost_start g (Some (h, number h)) = Some (last (e_ancestors e), True)"
  have he: "h \<in> set (e_ancestors e)" using c(2,3) by (auto simp: containing_def)
  let ?k = "last (e_ancestors e)"
  have kn: "?k \<in> nodes g" by (rule edge_last [OF ok c(3) containing_above(3) [OF ok c(2)]])
  have kh: "descends parent ?k h" by (rule containing_below_last(1) [OF ok c(3) he c(1)])
  have "condition (tally parent votes ?k)" using tally_mono [OF kh, of votes] mono [OF h(2)] by metis
  from find_ghost_from [OF ok votes mono zero c(4) kn this] show ?thesis using c h(2) by blast
qed

lemma find_ghost_None:
  assumes ok: "graph_ok parent number g" and votes: "votes_ok parent g votes"
    and base: "\<not> condition (tally parent votes (g_base g))"
  shows "find_ghost g None condition = Some None"
proof -
  obtain e where e: "node g (g_base g) = Some e" using graph_ok_base [OF ok] by (rule bt_keysE)
  then show ?thesis using votes_ok_node [OF votes e] base by (simp add: find_ghost_def ghost_start_def)
qed

text \<open>Where the blocks that fulfil the condition are on one chain, the ghost is the highest of them.\<close>

lemma ghost_of_highest:
  assumes a: "ghost_of g votes condition a"
    and b: "condition (tally parent votes b)"
    and comp: "descends parent a b \<or> descends parent b a"
  shows "descends parent b a"
  using assms by (auto simp: ghost_of_def)

end

section \<open>From a block that does not fulfil the condition\<close>

lemma sum_list_filter_le:
  fixes f :: "'a \<Rightarrow> 'v :: comm_monoid_add"
  shows "\<exists>r. sum_list (map f xs) = sum_list (map f (filter P xs)) + r"
proof (induction xs)
  case (Cons x xs)
  then obtain r where "sum_list (map f xs) = sum_list (map f (filter P xs)) + r" by blast
  then show ?case by (cases "P x") (auto simp: add_ac intro: exI [of _ "f x + r"])
qed simp

context chain
begin

text \<open>A vote-node that does not fulfil the condition gives nothing.\<close>

lemma find_ghost_below_node:
  assumes ok: "graph_ok parent number g" and votes: "votes_ok parent g votes"
    and h: "h \<in> nodes g" "\<not> condition (tally parent votes h)"
  shows "find_ghost g (Some (h, number h)) condition = Some None"
proof -
  obtain e where e: "node g h = Some e" using h(1) by (rule bt_keysE)
  then show ?thesis
    using votes_ok_node [OF votes e] h find_containing_nodes_None [of g h "number h"] by (simp add: find_ghost_def ghost_start_def)
qed

text \<open>The search starts at the highest vote-node below the block, and ends there: nothing on the edges above it that pass
  through the block fulfils the condition.\<close>

lemma find_ghost_below:
  fixes g :: "('h, 'v :: comm_monoid_add) vote_graph"
  assumes ok: "graph_ok parent number g" and votes: "votes_ok parent g votes"
    and mono: "\<And>v w. condition v \<Longrightarrow> condition (v + w)"
    and h: "h \<notin> nodes g" "in_graph g h" "\<not> condition (tally parent votes h)"
    and k: "k \<in> nodes g" "descends parent k h" "\<And>n. n \<in> nodes g \<Longrightarrow> descends parent n h \<Longrightarrow> descends parent n k"
  shows "find_ghost g (Some (h, number h)) condition = Some (if condition (tally parent votes k) then Some (k, number k) else None)"
proof -
  obtain cs where cs: "find_containing_nodes g h (number h) = Some cs" "set cs = containing g h"
    using find_containing_nodes_Some [OF ok h(1)] by blast
  have "containing g h \<noteq> {}" using h(1,2) by (simp add: in_graph_def)
  then obtain c cs' where c: "cs = c # cs'" using cs(2) by (cases cs) auto
  then have cc: "c \<in> containing g h" using cs(2) by auto
  then obtain f where f: "node g c = Some f" "h \<in> set (e_ancestors f)" by (auto simp: containing_def)
  let ?k = "last (e_ancestors f)"
  note below = containing_below_last [OF ok f h(1)]
  have kn: "?k \<in> nodes g" by (rule edge_last [OF ok f(1) containing_above(3) [OF ok cc]])
  have kk: "?k = k"
  proof (rule descends_antisym)
    show "descends parent ?k k" by (rule k(3) [OF kn below(1)])
    have "descends parent k c" by (rule descends_trans [OF containing_above(1) [OF ok cc] k(2)])
    moreover have "k \<noteq> c" using containing_above(2) [OF ok cc] number_mono [OF k(2)] by auto
    ultimately show "descends parent k ?k" using node_below_last(2) [OF ok f(1) k(1)] by blast
  qed
  have start: "ghost_start g (Some (h, number h)) = Some (k, True)"
    using cs(1) c edge_ancestor_node [OF ok f(1)] containing_above(3) [OF ok cc] kk by (simp add: ghost_start_def f(1))
  obtain e where e: "node g k = Some e" using k(1) by (rule bt_keysE)
  have ve: "e_cumulative_vote e = tally parent votes k" using votes_ok_node [OF votes e] by simp
  show ?thesis
  proof (cases "condition (tally parent votes k)")
    case False
    then show ?thesis using start e ve by (simp add: find_ghost_def)
  next
    case ck: True
    then have ce: "condition (e_cumulative_vote e)" using ve by simp
    obtain k' e' force' C where desc:
      "ghost_descend (g_entries g) (Some (h, number h)) condition k e True = Some (k', e', force')"
      "node g k' = Some e'" "condition (e_cumulative_vote e')" "force' \<longrightarrow> k' = k"
      "\<not> force' \<longrightarrow> (\<exists>d f. node g d = Some f \<and> constrained (Some (h, number h)) f \<and> descends parent d k')"
      "get_nodes (g_entries g) (e_descendents e') = Some C" "child_list g k' C" "fst ` set C = children g k'"
      "\<forall>(d, f) \<in> set (allowed (if force' then Some (h, number h) else None) C). \<not> condition (e_cumulative_vote f)"
      using ghost_descend_Some [of g k e condition "Some (h, number h)" True, OF ok e ce] by (elim exE conjE) (rule that; simp)
    have force: force'
    proof (rule ccontr)
      assume "\<not> force'"
      then obtain d f where d: "node g d = Some f" "constrained (Some (h, number h)) f" "descends parent d k'" using desc(5) by blast
      then have "d \<in> containing g h"
        using in_direct_ancestry_True [OF ok d(1)] by (auto simp: constrained_def containing_def)
      then have "descends parent h k'" using containing_above(1) [OF ok] descends_trans [OF d(3)] by blast
      moreover have "condition (tally parent votes k')" using votes_ok_node [OF votes desc(2)] desc(3) by simp
      ultimately have "condition (tally parent votes h)" using tally_mono [of h k' votes] mono by metis
      then show False using h(3) by blast
    qed
    then have k': "k' = k" "e' = e" using desc(2,4) e by auto
    let ?A = "through C h"
    have A: "child_list g k ?A" using child_list_filter [OF desc(7)] by (simp add: through_def k')
    have allowed: "allowed (Some (h, number h)) C = ?A" by (rule constrained_through [OF ok desc(7)])
    have single: "\<not> condition (e_cumulative_vote f)" if "f \<in> snd ` set ?A" for f
      using desc(9) force that unfolding allowed [symmetric] by auto
    obtain a where a: "subchain_best (merge_loop condition (number k) (map snd (through ?A k)) 0 (number k) [k]) = Some (a, number a)"
      "merge_point ?A condition k a"
      using merge_loop_point [where a = k and off = 0 and hashes = "[k]" and condition = condition, OF ok A single mono] by auto
    have "\<not> condition (merged ?A x)" for x
    proof
      assume x: "condition (merged ?A x)"
      have "through ?A h = ?A" by (auto simp: through_def)
      then obtain r where "merged ?A h = merged ?A x + r"
        using sum_list_filter_le [of "\<lambda>(d, e). e_cumulative_vote e" ?A "\<lambda>(d, e). x \<in> set (e_ancestors e)"]
        by (auto simp: merged_def through_def)
      moreover obtain r' where "tally parent votes h = merged ?A h + r'"
        using merged_tally(1) [OF ok votes A h(1) in_graph_base [OF ok h(2)]] by blast
      ultimately show False using mono [OF mono [OF x]] h(3) by metis
    qed
    then have "a = k" using a(2) by (auto simp: merge_point_def)
    then have "find_ghost g (Some (h, number h)) condition = Some (Some (k, number k))"
      using start e ce desc(1,6) force a(1) through_self [OF ok A] graph_ok_number [OF ok e] allowed [unfolded allowed_def]
      by (simp add: find_ghost_def ghost_find_merge_point_def k' filter_map comp_def case_prod_beta')
    then show ?thesis using ck by simp
  qed
qed

section \<open>Conditions of any kind\<close>

text \<open>Also for a condition that is not monotone the search returns, and with the number of the block it names.\<close>

lemma merge_loop_number:
  fixes g :: "('h, 'v :: comm_monoid_add) vote_graph"
  assumes ok: "graph_ok parent number g" and C: "child_list g k C"
    and "descends parent k a" "number a = number k + off" "hashes \<noteq> []" "last hashes = a"
  shows "\<exists>a'. subchain_best (merge_loop condition (number k) (map snd (through C a)) off (number a) hashes) = Some (a', number a') \<and>
    descends parent k a'"
  using assms(3-)
proof (induction "sum_list (map (\<lambda>(d, e). number d) C) - number a" arbitrary: a off hashes rule: less_induct)
  case less
  let ?ds = "map snd (through C a)" and ?n = "number k + (off + 1)"
  have n: "?n = number a + 1" using less.prems(2) by simp
  note unfold = merge_loop.simps [of condition "number k" ?ds off "number a" hashes]
  show ?case
  proof (cases "merge_scan condition ?n ?ds []")
    case None
    then have "subchain_best (merge_loop condition (number k) ?ds off (number a) hashes) = Some (a, number a)"
      using less.prems(3,4) by (simp add: unfold subchain_best_def slice_last_def)
    then show ?thesis using less.prems(1) by blast
  next
    case (Some x)
    then obtain e where e: "e \<in> set ?ds" "entry_ancestor_block e ?n = Some x"
      using merge_scan_ancestor [OF Some] by blast
    then obtain d where d: "(d, e) \<in> set C" "a \<in> set (e_ancestors e)" by (auto simp: through_def)
    note de = child_listD [OF C d(1)]
    have x: "x \<in> set (e_ancestors e)" "number x = ?n" using ancestor_block_mem [OF ok de(1)] e(2) by auto
    have xd: "descends parent x d" "number x < number d" "descends parent k x"
      using child_edge_mem [OF ok de, of x] x(1) number_strict by auto
    have ax: "descends parent a x" "number x = number a + 1"
      using descends_le [of a d x] child_edge_mem [OF ok de, of a] d(2) xd x(2) n by auto
    have px: "parent x = Some a"
    proof -
      obtain y where y: "parent x = Some y" "descends parent a y" using ax by (auto elim: descendsE)
      then show ?thesis using descends_number_eq [OF y(2)] number_parent [OF y(1)] ax(2) by simp
    qed
    have "number d \<le> sum_list (map (\<lambda>(d, e). number d) C)"
      by (rule member_le_sum_list) (use d(1) in force)+
    then have less': "sum_list (map (\<lambda>(d, e). number d) C) - number x < sum_list (map (\<lambda>(d, e). number d) C) - number a"
      using xd(2) ax(2) by linarith
    from less.hyps [OF less' xd(3) x(2), of "hashes @ [x]"]
    obtain a' where a': "subchain_best (merge_loop condition (number k) (map snd (through C x)) (off + 1) (number x) (hashes @ [x])) = Some (a', number a')"
      "descends parent k a'" by auto
    have "merge_loop condition (number k) ?ds off (number a) hashes
        = merge_loop condition (number k) (map snd (through C x)) (off + 1) (number x) (hashes @ [x])"
      unfolding unfold Let_def using Some ax(2)
      by (simp add: share_merged(2) [OF ok C less.prems(1) px, symmetric] del: filter_map)
    then show ?thesis using a' by auto
  qed
qed

lemma ghost_start_total:
  assumes ok: "graph_ok parent number g"
    and cb: "\<And>h n. cb = Some (h, n) \<Longrightarrow> n = number h"
  shows "\<exists>k force. ghost_start g cb = Some (k, force) \<and> k \<in> nodes g"
proof (cases cb)
  case None
  then show ?thesis using graph_ok_base [OF ok] by (auto simp: ghost_start_def)
next
  case (Some hn)
  then obtain h where h: "cb = Some (h, number h)" using cb by (cases hn) auto
  show ?thesis
  proof (cases "h \<in> nodes g")
    case True
    then show ?thesis using find_containing_nodes_None [of g h "number h"] h by (auto simp: ghost_start_def)
  next
    case False
    obtain cs where cs: "find_containing_nodes g h (number h) = Some cs" "set cs = containing g h"
      using find_containing_nodes_Some [OF ok False] by blast
    show ?thesis
    proof (cases cs)
      case Nil
      then show ?thesis using cs(1) h graph_ok_base [OF ok] by (auto simp: ghost_start_def)
    next
      case (Cons c cs')
      then have c: "c \<in> containing g h" using cs(2) by auto
      then obtain e where e: "node g c = Some e" by (auto simp: containing_def)
      have "c \<noteq> g_base g" by (rule containing_above(3) [OF ok c])
      then show ?thesis
        using cs(1) Cons h edge_ancestor_node [OF ok e] edge_last [OF ok e] e by (auto simp: ghost_start_def)
    qed
  qed
qed

lemma find_ghost_total:
  fixes g :: "('h, 'v :: comm_monoid_add) vote_graph"
  assumes ok: "graph_ok parent number g"
    and cb: "\<And>h n. cb = Some (h, n) \<Longrightarrow> n = number h"
  shows "\<exists>r. find_ghost g cb condition = Some r \<and>
    (\<forall>a n. r = Some (a, n) \<longrightarrow> n = number a \<and> descends parent (g_base g) a) \<and>
    (r = None \<longrightarrow> (\<exists>v. \<not> condition v))"
proof -
  obtain k force where start: "ghost_start g cb = Some (k, force)" "k \<in> nodes g"
    using ghost_start_total [of g cb, OF ok cb] by blast
  obtain e where e: "node g k = Some e" using start(2) by (rule bt_keysE)
  show ?thesis
  proof (cases "condition (e_cumulative_vote e)")
    case False
    then have "find_ghost g cb condition = Some None" using start e by (simp add: find_ghost_def)
    then show ?thesis using False by auto
  next
    case True
    obtain k' e' force' C where desc:
      "ghost_descend (g_entries g) cb condition k e force = Some (k', e', force')"
      "node g k' = Some e'" "get_nodes (g_entries g) (e_descendents e') = Some C" "child_list g k' C"
      using ghost_descend_Some [of g k e condition cb force, OF ok e True] by (elim exE conjE) (rule that; assumption)
    define A where "A = allowed (if force' then cb else None) C"
    have A: "child_list g k' A" using child_list_filter [OF desc(4)] by (simp add: A_def allowed_def)
    have num: "e_number e' = number k'" by (rule graph_ok_number [OF ok desc(2)])
    obtain a where a: "subchain_best (merge_loop condition (number k') (map snd (through A k')) 0 (number k') [k']) = Some (a, number a)"
      "descends parent k' a"
      using merge_loop_number [where a = k' and off = 0 and hashes = "[k']" and condition = condition, OF ok A] by auto
    have "find_ghost g cb condition = Some (Some (a, number a))"
      using start e True desc(1,3) a(1) through_self [OF ok A] num
      by (simp add: find_ghost_def ghost_find_merge_point_def A_def allowed_def filter_map comp_def case_prod_beta')
    moreover have "descends parent (g_base g) a"
      by (rule descends_trans [OF a(2) base_below [OF ok bt_get_keys [OF desc(2)]]])
    ultimately show ?thesis by simp
  qed
qed

lemma find_ancestor_total:
  fixes g :: "('h, 'v :: comm_monoid_add) vote_graph"
  assumes ok: "graph_ok parent number g" and votes: "votes_ok parent g votes"
  shows "\<exists>r. find_ancestor g h (number h) condition = Some r \<and>
    (\<forall>a n. r = Some (a, n) \<longrightarrow> n = number a \<and> descends parent (g_base g) a)"
proof (cases "in_graph g h")
  case True
  then show ?thesis
    using find_ancestor_Some [OF ok votes True, of condition] by (auto simp: highest_below_def split: option.splits)
next
  case False
  then have "find_containing_nodes g h (number h) = Some []"
    using find_containing_nodes_Some [OF ok, of h] by (auto simp: in_graph_def)
  then show ?thesis by (subst find_ancestor.simps) simp
qed

end

end
