(* ===== verification/Fuzz_Chain.thy ===== *)
theory Fuzz_Chain
  imports Chain
begin

text \<open>
  The static block tree of the fuzzing harness (\<^verbatim>\<open>src/fuzz_helpers.rs\<close>, \<^verbatim>\<open>FuzzChain\<close>): sixteen
  blocks, each named by a byte. It implements the trait \<^verbatim>\<open>Chain\<close>, and the interpretation below
  shows that it satisfies the contract \<open>chain\<close> that the vote graph relies on. It is
  the chain of the concrete runs of the development.
\<close>

type_synonym fhash = nat \<comment> \<open>\<^verbatim>\<open>u8\<close>; no arithmetic is done on hashes\<close>

text \<open>\<^verbatim>\<open>FuzzChain::number\<close> panics on a byte that names no block.\<close>

definition fuzz_number :: "fhash \<Rightarrow> nat option" where
  "fuzz_number hash =
     (if hash = 0 then Some 0
      else if hash \<in> {1, 2, 3} then Some 1
      else if hash \<in> {4, 5, 6} then Some 2
      else if hash \<in> {7, 8, 9} then Some 2
      else if hash \<in> {10, 11, 12} then Some 3
      else if hash \<in> {13, 14, 15} then Some 3
      else None)"

definition fuzz_children :: "fhash \<Rightarrow> fhash list" where
  "fuzz_children hash =
     (if hash = 0 then [1, 2, 3]
      else if hash = 1 then [4, 5, 6]
      else if hash = 2 then [7, 8, 9]
      else if hash = 4 then [10, 11, 12]
      else if hash = 7 then [13, 14, 15]
      else [])"

definition fuzz_good_descendent :: "fhash \<Rightarrow> fhash \<Rightarrow> bool" where
  "fuzz_good_descendent base block =
     (base = 0 \<and> block \<le> 15 \<or>
      (base, block) \<in> {(1, 4), (1, 5), (1, 6), (1, 10), (1, 11), (1, 12),
                       (2, 7), (2, 8), (2, 9), (2, 13), (2, 14), (2, 15),
                       (4, 10), (4, 11), (4, 12), (7, 13), (7, 14), (7, 15)})"

definition fuzz_full_ancestry :: "fhash \<Rightarrow> fhash list option" where
  "fuzz_full_ancestry block =
     (if block = 0 then Some []
      else if block \<in> {1, 2, 3} then Some [0]
      else if block \<in> {4, 5, 6} then Some [0, 1]
      else if block \<in> {7, 8, 9} then Some [0, 2]
      else if block \<in> {10, 11, 12} then Some [0, 1, 4]
      else if block \<in> {13, 14, 15} then Some [0, 2, 7]
      else None)"

text \<open>The panic of the last match arm is never reached: only blocks up to 15 pass the filter.\<close>

definition fuzz_ancestry :: "fhash \<Rightarrow> fhash \<Rightarrow> error + fhash list" where
  "fuzz_ancestry base block =
     (if \<not> fuzz_good_descendent base block then Inl NotDescendent
      else case fuzz_full_ancestry block of
        None \<Rightarrow> Inl NotDescendent
      | Some full_ancestry \<Rightarrow> Inr (takeWhile (\<lambda>x. x \<noteq> base) (rev full_ancestry)))"

section \<open>The contract\<close>

definition fuzz_parent :: "fhash \<Rightarrow> fhash option" where
  "fuzz_parent block = List.find (\<lambda>p. block \<in> set (fuzz_children p)) [0, 1, 2, 4, 7]"

definition fuzz_num :: "fhash \<Rightarrow> nat" where
  "fuzz_num block = (case fuzz_number block of None \<Rightarrow> 0 | Some n \<Rightarrow> n)"

lemma fuzz_parent_iff:
  "fuzz_parent b = Some a \<longleftrightarrow> (a, b) \<in> {(0, 1), (0, 2), (0, 3), (1, 4), (1, 5), (1, 6), (2, 7), (2, 8), (2, 9),
     (4, 10), (4, 11), (4, 12), (7, 13), (7, 14), (7, 15)}"
  by (auto simp: fuzz_parent_def fuzz_children_def split: if_splits)

lemma fuzz_parent_bound: "fuzz_parent b = Some a \<Longrightarrow> a < 16 \<and> b < 16"
  unfolding fuzz_parent_iff by (simp; elim disjE; simp)

lemma fuzz_good_bound: "fuzz_good_descendent a b \<Longrightarrow> a < 16 \<and> b < 16"
  unfolding fuzz_good_descendent_def by (simp; elim disjE; simp)

text \<open>The finitely many cases, checked by evaluation.\<close>

lemma fuzz_number_cases:
  "list_all (\<lambda>b. case fuzz_parent b of None \<Rightarrow> True | Some a \<Rightarrow> fuzz_num b = Suc (fuzz_num a)) [0..<16]"
  by code_simp

lemma fuzz_ancestry_cases:
  "list_all (\<lambda>a. list_all (\<lambda>b. a = b \<or> (if fuzz_good_descendent a b
      then case fuzz_ancestry a b of Inl _ \<Rightarrow> False | Inr xs \<Rightarrow> path fuzz_parent b (xs @ [a])
      else True)) [0..<16]) [0..<16]"
  by code_simp

lemma fuzz_descends_cases:
  "list_all (\<lambda>a. list_all (\<lambda>b. case fuzz_parent b of None \<Rightarrow> True
      | Some b' \<Rightarrow> (a = b' \<or> fuzz_good_descendent a b') \<longrightarrow> fuzz_good_descendent a b) [0..<16]) [0..<16]"
  by code_simp

lemma fuzz_good_ancestry:
  assumes "fuzz_good_descendent a b" "a \<noteq> b"
  shows "\<exists>xs. fuzz_ancestry a b = Inr xs \<and> path fuzz_parent b (xs @ [a])"
proof -
  have "a \<in> set [0..<16]" "b \<in> set [0..<16]" using fuzz_good_bound [OF assms(1)] by auto
  then show ?thesis
    using fuzz_ancestry_cases assms unfolding list_all_iff by (fastforce split: sum.splits)
qed

lemma fuzz_descends_good:
  assumes "descends fuzz_parent a b"
  shows "a = b \<or> fuzz_good_descendent a b"
  using assms
proof (induction rule: descends.induct)
  case (up b b' a)
  have b: "b \<in> set [0..<16]" using fuzz_parent_bound [OF up.hyps(1)] by simp
  have a: "a \<in> set [0..<16]"
    using fuzz_parent_bound [OF up.hyps(1)] up.IH fuzz_good_bound [of a b'] by auto
  show ?case
    using bspec [OF bspec [OF fuzz_descends_cases [unfolded list_all_iff] a] b] up.hyps(1) up.IH
    by auto
qed simp

interpretation fuzz: chain fuzz_ancestry fuzz_parent fuzz_num
proof
  fix a b assume p: "fuzz_parent b = Some a"
  then have "b \<in> set [0..<16]" using fuzz_parent_bound by auto
  then show "fuzz_num b = Suc (fuzz_num a)"
    using fuzz_number_cases p unfolding list_all_iff by fastforce
next
  fix base block :: fhash and xs
  assume *: "base \<noteq> block" "fuzz_ancestry base block = Inr xs"
  then have "fuzz_good_descendent base block" by (simp add: fuzz_ancestry_def split: if_splits)
  then show "path fuzz_parent block (xs @ [base])" using fuzz_good_ancestry * by fastforce
next
  fix base block :: fhash
  assume "base \<noteq> block" "descends fuzz_parent base block"
  then show "\<exists>xs. fuzz_ancestry base block = Inr xs"
    using fuzz_descends_good fuzz_good_ancestry by blast
qed

end
