(* ===== verification/Graph_Properties.thy ===== *)
theory Graph_Properties
  imports Ghost Fuzz_Chain
begin

text \<open>
  The vote graph as a state machine: \<open>built\<close> relates the graphs that \<^verbatim>\<open>new\<close>,
  \<^verbatim>\<open>insert\<close> and \<^verbatim>\<open>adjust_base\<close> produce to the votes inserted so far. The invariant holds on every
  reachable graph, and the properties of the queries and operations follow for them. The concrete
  instances are on the block tree of the fuzzing harness.
\<close>

inductive built ::
  "('h :: linorder \<Rightarrow> 'h \<Rightarrow> error + 'h list) \<Rightarrow> ('h \<Rightarrow> 'h option) \<Rightarrow> ('h \<Rightarrow> nat) \<Rightarrow> ('v :: comm_monoid_add \<Rightarrow> 'w \<Rightarrow> 'v)
     \<Rightarrow> ('w \<Rightarrow> 'v) \<Rightarrow> ('h, 'v) vote_graph \<Rightarrow> ('h \<times> 'v) list \<Rightarrow> bool"
  for ancestry parent number add_vote val where
  built_new: "built ancestry parent number add_vote val (vote_graph_new b (number b) 0) []"
| built_insert: "built ancestry parent number add_vote val g votes \<Longrightarrow> (\<And>v. add_vote v w = v + val w) \<Longrightarrow>
    vote_graph_insert ancestry add_vote g h (number h) w = Some (Inr g') \<Longrightarrow>
    built ancestry parent number add_vote val g' (votes @ [(h, val w)])"
| built_adjust: "built ancestry parent number add_vote val g votes \<Longrightarrow> path parent (g_base g) xs \<Longrightarrow>
    adjust_base g xs = Some g' \<Longrightarrow> built ancestry parent number add_vote val g' votes"

lemma built_ok:
  assumes "chain ancestry parent number" "built ancestry parent number add_vote val g votes"
  shows "graph_ok parent number g \<and> votes_ok parent g votes"
  using assms(2)
proof (induction rule: built.induct)
  case (built_new b)
  show ?case by (simp add: graph_ok_new votes_ok_new)
next
  case (built_insert g votes w h g')
  then have ok: "graph_ok parent number g" "votes_ok parent g votes" by auto
  have "descends parent (g_base g) h"
    using chain.insert_Inl [OF assms(1) ok(1), of h add_vote w] built_insert.hyps(3) by auto
  from chain.insert_Inr [where add_vote = add_vote and w = w and x = "val w", OF assms(1) ok this built_insert.hyps(2)]
  show ?case using built_insert.hyps(3) by auto
next
  case (built_adjust g votes xs g')
  then show ?case using chain.adjust_base_Some [OF assms(1), of g votes xs] by auto
qed

lemmas built_graph_ok = built_ok [THEN conjunct1] and built_votes_ok = built_ok [THEN conjunct2]

text \<open>The graph of the concrete instances: one vote for block 10, one for block 11, one for block 5.\<close>

definition fuzz_graph :: "(fhash, nat) vote_graph" where
  "fuzz_graph = (let ins = (\<lambda>h g. projr (the (vote_graph_insert fuzz_ancestry (+) g h (fuzz_num h) (1 :: nat))))
     in ins 5 (ins 11 (ins 10 (vote_graph_new 0 0 0))))"

definition fuzz_votes :: "(fhash \<times> nat) list" where
  "fuzz_votes = [(10, 1), (11, 1), (5, 1)]"

lemma fuzz_descends_base: "h < 16 \<Longrightarrow> descends fuzz_parent 0 h"
  using fuzz.is_equal_or_descendent_of_iff [of 0 h] fuzz_good_ancestry [of 0 h]
  by (cases "h = 0") (auto simp: is_equal_or_descendent_of_def fuzz_good_descendent_def)

lemma fuzz_built_above:
  fixes g :: "(fhash, nat) vote_graph" and w :: nat
  assumes b: "built fuzz_ancestry fuzz_parent fuzz_num (+) (\<lambda>w. w) g votes" and h: "descends fuzz_parent (g_base g) h"
  defines "g' \<equiv> projr (the (vote_graph_insert fuzz_ancestry (+) g h (fuzz_num h) w))"
  shows "built fuzz_ancestry fuzz_parent fuzz_num (+) (\<lambda>w. w) g' (votes @ [(h, w)])" "g_base g' = g_base g"
proof -
  note ok = built_graph_ok [OF fuzz.chain_axioms b] built_votes_ok [OF fuzz.chain_axioms b]
  from chain.insert_Inr [OF fuzz.chain_axioms ok h, of "(+)" w w]
  have r: "vote_graph_insert fuzz_ancestry (+) g h (fuzz_num h) w = Some (Inr g')" "g_base g' = g_base g"
    by (auto simp: g'_def)
  show "built fuzz_ancestry fuzz_parent fuzz_num (+) (\<lambda>w. w) g' (votes @ [(h, w)])"
    using built_insert [OF b _ r(1)] by simp
  show "g_base g' = g_base g" by (rule r(2))
qed

lemma fuzz_built_step:
  fixes g :: "(fhash, nat) vote_graph" and w :: nat
  assumes b: "built fuzz_ancestry fuzz_parent fuzz_num (+) (\<lambda>w. w) g votes" and g0: "g_base g = 0" and h: "h < 16"
  defines "g' \<equiv> projr (the (vote_graph_insert fuzz_ancestry (+) g h (fuzz_num h) w))"
  shows "built fuzz_ancestry fuzz_parent fuzz_num (+) (\<lambda>w. w) g' (votes @ [(h, w)])" "g_base g' = 0"
  using fuzz_built_above [OF b, of h w] fuzz_descends_base [OF h] g0 by (simp_all add: g'_def)

lemma fuzz_graph_built: "built fuzz_ancestry fuzz_parent fuzz_num (+) (\<lambda>w. w) fuzz_graph fuzz_votes"
proof -
  have new: "built fuzz_ancestry fuzz_parent fuzz_num (+) (\<lambda>w. w) (vote_graph_new 0 0 (0 :: nat)) []"
    using built_new [of fuzz_ancestry fuzz_parent fuzz_num "(+)" "\<lambda>w. w" 0]
    by (simp add: fuzz_num_def fuzz_number_def)
  have base: "g_base (vote_graph_new 0 0 (0 :: nat)) = (0 :: fhash)" by (simp add: vote_graph_new_def)
  note s1 = fuzz_built_step [OF new base, of 10 1]
  note s2 = fuzz_built_step [OF s1(1) s1(2), of 11 1]
  note s3 = fuzz_built_step [OF s2(1) s2(2), of 5 1]
  from s3(1) show ?thesis by (simp add: fuzz_graph_def fuzz_votes_def Let_def)
qed

section \<open>Properties\<close>

text \<open>C28. Inserting a vote for a descendent of the base never panics and always ends; the votes of every
  block of the new graph are those of the old graph, with the vote added on the block and all its ancestors.\<close>

theorem graph_insert_adds_vote:
  fixes add_vote :: "'v :: comm_monoid_add \<Rightarrow> 'w \<Rightarrow> 'v"
  assumes chain: "chain ancestry parent number"
    and g: "built ancestry parent number add_vote val g votes"
    and h: "is_equal_or_descendent_of ancestry (g_base g) h" and add: "\<And>v. add_vote v w = v + val w"
  shows "\<exists>g'. vote_graph_insert ancestry add_vote g h (number h) w = Some (Inr g') \<and> g_base g' = g_base g \<and>
    (\<forall>b. is_equal_or_descendent_of ancestry (g_base g) b \<longrightarrow>
       cumulative_vote g' b (number b) = map_option
         (\<lambda>v. if is_equal_or_descendent_of ancestry b h then v + val w else v) (cumulative_vote g b (number b)))"
proof -
  note ok = built_graph_ok [OF chain g] built_votes_ok [OF chain g]
  note desc = chain.is_equal_or_descendent_of_iff [OF chain]
  obtain g' where g': "vote_graph_insert ancestry add_vote g h (number h) w = Some (Inr g')"
    "graph_ok parent number g'" "votes_ok parent g' (votes @ [(h, val w)])" "g_base g' = g_base g"
    using chain.insert_Inr [where add_vote = add_vote and w = w and x = "val w", OF chain ok _ add] h desc by blast
  then show ?thesis
    using chain.cumulative_vote_tally [OF chain g'(2,3)] chain.cumulative_vote_tally [OF chain ok]
    by (intro exI [of _ g']) (simp add: desc tally_append)
qed

theorem graph_insert_adds_vote_witness:
  "\<exists>g'. vote_graph_insert fuzz_ancestry (+) fuzz_graph 12 3 (4 :: nat) = Some (Inr g') \<and>
    cumulative_vote g' 4 2 = Some 6"
proof -
  have base: "g_base fuzz_graph = 0" "is_equal_or_descendent_of fuzz_ancestry 0 12"
    "is_equal_or_descendent_of fuzz_ancestry 0 4" "is_equal_or_descendent_of fuzz_ancestry 4 12"
    "fuzz_num 12 = 3" "fuzz_num 4 = 2" "cumulative_vote fuzz_graph 4 2 = Some 2"
    by code_simp+
  have "\<exists>g'. vote_graph_insert fuzz_ancestry (+) fuzz_graph 12 (fuzz_num 12) (4 :: nat) = Some (Inr g') \<and>
      g_base g' = g_base fuzz_graph \<and>
      (\<forall>b. is_equal_or_descendent_of fuzz_ancestry (g_base fuzz_graph) b \<longrightarrow>
         cumulative_vote g' b (fuzz_num b) = map_option
           (\<lambda>v. if is_equal_or_descendent_of fuzz_ancestry b 12 then v + 4 else v)
           (cumulative_vote fuzz_graph b (fuzz_num b)))"
    by (rule graph_insert_adds_vote [OF fuzz.chain_axioms fuzz_graph_built]) (use base in simp_all)
  then obtain g' where g': "vote_graph_insert fuzz_ancestry (+) fuzz_graph 12 3 (4 :: nat) = Some (Inr g')"
    "\<forall>b. is_equal_or_descendent_of fuzz_ancestry 0 b \<longrightarrow>
         cumulative_vote g' b (fuzz_num b) = map_option
           (\<lambda>v. if is_equal_or_descendent_of fuzz_ancestry b 12 then v + 4 else v)
           (cumulative_vote fuzz_graph b (fuzz_num b))"
    unfolding base by blast
  then have "cumulative_vote g' 4 2 = Some 6" using spec [OF g'(2), of 4] base by simp
  with g'(1) show ?thesis by blast
qed

text \<open>Inserting a vote for a block that does not descend from the base is refused with the error of the
  chain, whatever was inserted before.\<close>

theorem graph_insert_refuses:
  assumes chain: "chain ancestry parent number"
    and g: "built ancestry parent number add_vote val g votes"
    and h: "\<not> is_equal_or_descendent_of ancestry (g_base g) h"
  shows "vote_graph_insert ancestry add_vote g h (number h) w = Some (Inl NotDescendent)"
  by (rule chain.insert_Inl [OF chain built_graph_ok [OF chain g]])
     (use h in \<open>simp add: chain.is_equal_or_descendent_of_iff [OF chain]\<close>)

theorem graph_insert_refuses_witness:
  "vote_graph_insert fuzz_ancestry (+) fuzz_graph 77 0 (1 :: nat) = Some (Inl NotDescendent)"
proof -
  have base: "\<not> is_equal_or_descendent_of fuzz_ancestry (g_base fuzz_graph) 77" "fuzz_num 77 = 0" by code_simp+
  show ?thesis
    using graph_insert_refuses [OF fuzz.chain_axioms fuzz_graph_built base(1), of 1] base(2) by simp
qed

text \<open>The cumulative vote of any block above the base, vote-node or not, is the sum of the votes cast on
  it and on its descendents.\<close>

theorem graph_cumulative_vote:
  assumes chain: "chain ancestry parent number"
    and g: "built ancestry parent number add_vote val g votes"
    and b: "is_equal_or_descendent_of ancestry (g_base g) b"
  shows "cumulative_vote g b (number b)
    = Some (\<Sum>(t, v) \<leftarrow> votes. if is_equal_or_descendent_of ancestry b t then v else 0)"
  using chain.cumulative_vote_tally [OF chain built_graph_ok [OF chain g] built_votes_ok [OF chain g]] b
  by (simp add: chain.is_equal_or_descendent_of_iff [OF chain] tally_def)

theorem graph_cumulative_vote_witness: "cumulative_vote fuzz_graph 4 2 = Some 2"
proof -
  have base: "is_equal_or_descendent_of fuzz_ancestry (g_base fuzz_graph) 4" "fuzz_num 4 = 2"
    "(\<Sum>(t, v) \<leftarrow> fuzz_votes. if is_equal_or_descendent_of fuzz_ancestry 4 t then v else 0) = (2 :: nat)"
    by code_simp+
  show ?thesis using graph_cumulative_vote [OF fuzz.chain_axioms fuzz_graph_built base(1)] base(2,3) by simp
qed

text \<open>C29. For a block of the graph, \<^verbatim>\<open>find_ancestor\<close> always ends and returns the highest block at or below it, down to
  the base, whose votes fulfil the condition, with its number; and nothing when no such block does. The
  condition is arbitrary.\<close>

theorem graph_find_ancestor:
  assumes chain: "chain ancestry parent number"
    and g: "built ancestry parent number add_vote val g votes" and h: "in_graph g h"
  shows "\<exists>r. find_ancestor g h (number h) condition = Some r \<and>
    (case r of
       None \<Rightarrow> \<forall>b. descends parent (g_base g) b \<longrightarrow> descends parent b h \<longrightarrow> \<not> condition (tally parent votes b)
     | Some (a, n) \<Rightarrow> n = number a \<and> descends parent (g_base g) a \<and> descends parent a h \<and>
         condition (tally parent votes a) \<and>
         (\<forall>b. descends parent a b \<longrightarrow> descends parent b h \<longrightarrow> a \<noteq> b \<longrightarrow> \<not> condition (tally parent votes b)))"
  using chain.find_ancestor_Some [OF chain built_graph_ok [OF chain g] built_votes_ok [OF chain g] h]
  by (simp add: chain.highest_below_def [OF chain])

theorem graph_find_ancestor_witness:
  "\<exists>r. find_ancestor fuzz_graph 11 (fuzz_num 11) (\<lambda>v. 3 \<le> v) = Some r \<and>
    (case r of
       None \<Rightarrow> \<forall>b. descends fuzz_parent (g_base fuzz_graph) b \<longrightarrow> descends fuzz_parent b 11 \<longrightarrow>
         \<not> 3 \<le> tally fuzz_parent fuzz_votes b
     | Some (a, n) \<Rightarrow> n = fuzz_num a \<and> descends fuzz_parent (g_base fuzz_graph) a \<and> descends fuzz_parent a 11 \<and>
         3 \<le> tally fuzz_parent fuzz_votes a \<and>
         (\<forall>b. descends fuzz_parent a b \<longrightarrow> descends fuzz_parent b 11 \<longrightarrow> a \<noteq> b \<longrightarrow>
            \<not> 3 \<le> tally fuzz_parent fuzz_votes b))"
proof -
  have "bt_contains_key (g_entries fuzz_graph) 11" by code_simp
  then have "in_graph fuzz_graph 11" by (simp add: in_graph_def)
  from graph_find_ancestor [OF fuzz.chain_axioms fuzz_graph_built this, of "\<lambda>v. 3 \<le> v"] show ?thesis .
qed

text \<open>C27. For a condition that more votes cannot falsify and that no votes do not fulfil, \<^verbatim>\<open>find_ghost\<close>
  started at a block that fulfils it always ends and returns a block at or above the start that fulfils the
  condition such that no block above it does.\<close>

theorem graph_find_ghost:
  assumes chain: "chain ancestry parent number"
    and g: "built ancestry parent number add_vote val g votes"
    and mono: "\<And>v w. condition v \<Longrightarrow> condition (v + w)" and zero: "\<not> condition 0"
    and h: "descends parent (g_base g) h" "condition (tally parent votes h)"
    and best: "best = None \<and> h = g_base g \<or> best = Some (h, number h)"
  shows "\<exists>a. find_ghost g best condition = Some (Some (a, number a)) \<and> descends parent h a \<and>
    condition (tally parent votes a) \<and>
    (\<forall>b. descends parent a b \<longrightarrow> a \<noteq> b \<longrightarrow> \<not> condition (tally parent votes b))"
proof -
  note ok = built_graph_ok [OF chain g] built_votes_ok [OF chain g]
  have "\<exists>a. find_ghost g best condition = Some (Some (a, number a)) \<and> chain.ghost_of parent g votes condition a \<and>
      descends parent h a"
    using best
  proof (elim disjE conjE)
    assume "best = None" "h = g_base g"
    then show ?thesis
      using chain.find_ghost_base [of ancestry parent number g votes condition, OF chain ok mono zero] h
      by (auto simp: chain.ghost_of_def [OF chain])
  next
    assume "best = Some (h, number h)"
    then show ?thesis
      using chain.find_ghost_best [of ancestry parent number g votes condition, OF chain ok mono zero h] by blast
  qed
  then show ?thesis unfolding chain.ghost_of_def [OF chain] by blast
qed

theorem graph_find_ghost_witness:
  "\<exists>a. find_ghost fuzz_graph (Some (4, fuzz_num 4)) (\<lambda>v. 2 \<le> v) = Some (Some (a, fuzz_num a)) \<and>
    descends fuzz_parent 4 a \<and> 2 \<le> tally fuzz_parent fuzz_votes a \<and>
    (\<forall>b. descends fuzz_parent a b \<longrightarrow> a \<noteq> b \<longrightarrow> \<not> 2 \<le> tally fuzz_parent fuzz_votes b)"
proof (rule graph_find_ghost [OF fuzz.chain_axioms fuzz_graph_built])
  have "g_base fuzz_graph = 0" by code_simp
  then show d: "descends fuzz_parent (g_base fuzz_graph) 4" by (simp add: fuzz_descends_base)
  have "is_equal_or_descendent_of fuzz_ancestry 4 10" "is_equal_or_descendent_of fuzz_ancestry 4 11" by code_simp+
  then show "2 \<le> tally fuzz_parent fuzz_votes 4"
    by (simp add: fuzz.is_equal_or_descendent_of_iff fuzz_votes_def)
qed simp_all

text \<open>Without a current best, \<^verbatim>\<open>find_ghost\<close> returns nothing exactly when the base does not fulfil the condition.\<close>

theorem graph_find_ghost_none:
  assumes chain: "chain ancestry parent number"
    and g: "built ancestry parent number add_vote val g votes"
    and mono: "\<And>v w. condition v \<Longrightarrow> condition (v + w)" and zero: "\<not> condition 0"
  shows "find_ghost g None condition = Some None \<longleftrightarrow> \<not> condition (tally parent votes (g_base g))"
  using chain.find_ghost_base [of ancestry parent number g votes condition, OF chain built_graph_ok [OF chain g] built_votes_ok [OF chain g] mono zero]
    chain.find_ghost_None [of ancestry parent number g votes condition, OF chain built_graph_ok [OF chain g] built_votes_ok [OF chain g]]
  by auto

theorem graph_find_ghost_none_witness: "find_ghost fuzz_graph None (\<lambda>v. 4 \<le> v) = Some None"
proof -
  have "\<not> 4 \<le> tally fuzz_parent fuzz_votes (g_base fuzz_graph)" by (simp add: fuzz_votes_def)
  then show ?thesis using graph_find_ghost_none [OF fuzz.chain_axioms fuzz_graph_built, of "\<lambda>v. 4 \<le> v"] by simp
qed

text \<open>C32. Moving the base down an ancestry proof keeps the graph whole. The new base is the last block of the proof; the graph
  covers what it covered and the blocks of the proof; every block above the new base, be it of the old graph, on the way to it or on a
  fork below it, has the cumulative vote of the votes inserted at or above it. The searches cross the old base: for
  every block of the new graph \<^verbatim>\<open>find_ancestor\<close> returns the highest block at or below it, down to the new base, that
  fulfils the condition, and from the new base \<^verbatim>\<open>find_ghost\<close> climbs, for a condition that more votes cannot falsify and that no votes do not fulfil, to a block that
  fulfils it such that no block above does, unless the base itself does not.\<close>

theorem graph_adjust_base:
  assumes chain: "chain ancestry parent number"
    and g: "built ancestry parent number add_vote val g votes"
    and xs: "path parent (g_base g) xs"
    and mono: "\<And>v w. condition v \<Longrightarrow> condition (v + w)" and zero: "\<not> condition 0"
  shows "\<exists>g'. adjust_base g xs = Some g' \<and> vote_graph_base g' = (last (g_base g # xs), number (last (g_base g # xs))) \<and>
    (\<forall>h. in_graph g' h \<longleftrightarrow> in_graph g h \<or> h \<in> set xs) \<and>
    (\<forall>b. descends parent (g_base g') b \<longrightarrow> cumulative_vote g' b (number b) = Some (tally parent votes b)) \<and>
    (\<forall>h. in_graph g' h \<longrightarrow> (\<exists>r. find_ancestor g' h (number h) condition = Some r \<and>
       (case r of
          None \<Rightarrow> \<forall>b. descends parent (g_base g') b \<longrightarrow> descends parent b h \<longrightarrow> \<not> condition (tally parent votes b)
        | Some (a, n) \<Rightarrow> n = number a \<and> descends parent (g_base g') a \<and> descends parent a h \<and> condition (tally parent votes a) \<and>
            (\<forall>b. descends parent a b \<longrightarrow> descends parent b h \<longrightarrow> a \<noteq> b \<longrightarrow> \<not> condition (tally parent votes b))))) \<and>
    (if condition (tally parent votes (g_base g'))
     then \<exists>a. find_ghost g' None condition = Some (Some (a, number a)) \<and> descends parent (g_base g') a \<and> condition (tally parent votes a) \<and>
       (\<forall>b. descends parent a b \<longrightarrow> a \<noteq> b \<longrightarrow> \<not> condition (tally parent votes b))
     else find_ghost g' None condition = Some None)"
proof -
  note ok = built_graph_ok [OF chain g] built_votes_ok [OF chain g]
  obtain g' where g': "adjust_base g xs = Some g'" "graph_ok parent number g'" "votes_ok parent g' votes"
    "g_base g' = last (g_base g # xs)" "nodes g' = insert (g_base g') (nodes g)"
    using chain.adjust_base_Some [OF chain ok xs] by metis
  have cover: "in_graph g' h \<longleftrightarrow> in_graph g h \<or> h \<in> set xs" for h
    by (rule chain.in_graph_adjust [OF chain ok(1) g'(2) xs g'(4,5)])
  have anc: "\<exists>r. find_ancestor g' h (number h) condition = Some r \<and> chain.highest_below parent number g' votes condition h r"
    if "in_graph g' h" for h
    using chain.find_ancestor_Some [OF chain g'(2,3) that, of condition] by blast
  have ghost: "if condition (tally parent votes (g_base g'))
     then \<exists>a. find_ghost g' None condition = Some (Some (a, number a)) \<and> chain.ghost_of parent g' votes condition a
     else find_ghost g' None condition = Some None"
    using chain.find_ghost_base [of ancestry parent number g' votes condition, OF chain g'(2,3) mono zero]
      chain.find_ghost_None [of ancestry parent number g' votes condition, OF chain g'(2,3)] by simp
  show ?thesis
    using g'(1,4) graph_ok_base_number [OF g'(2)] cover chain.cumulative_vote_tally [OF chain g'(2,3)] anc
      ghost [unfolded chain.ghost_of_def [OF chain]]
    unfolding chain.highest_below_def [OF chain] by (intro exI [of _ g']) (simp add: vote_graph_base_def)
qed

text \<open>The base of the second graph is block 4, with votes on the blocks 10 and 11; it moves down to the root.\<close>

definition fuzz_high :: "(fhash, nat) vote_graph" where
  "fuzz_high = (let ins = (\<lambda>h g. projr (the (vote_graph_insert fuzz_ancestry (+) g h (fuzz_num h) (1 :: nat))))
     in ins 11 (ins 10 (vote_graph_new 4 2 0)))"

lemma fuzz_high_built: "built fuzz_ancestry fuzz_parent fuzz_num (+) (\<lambda>w. w) fuzz_high [(10, 1), (11, 1)]"
proof -
  have new: "built fuzz_ancestry fuzz_parent fuzz_num (+) (\<lambda>w. w) (vote_graph_new 4 2 (0 :: nat)) []"
    using built_new [of fuzz_ancestry fuzz_parent fuzz_num "(+)" "\<lambda>w. w" 4] by (simp add: fuzz_num_def fuzz_number_def)
  have base: "g_base (vote_graph_new 4 2 (0 :: nat)) = (4 :: fhash)" by (simp add: vote_graph_new_def)
  have d: "descends fuzz_parent 4 10" "descends fuzz_parent 4 11"
    using fuzz.is_equal_or_descendent_of_iff [of 4 10] fuzz.is_equal_or_descendent_of_iff [of 4 11]
    by (simp_all add: is_equal_or_descendent_of_def fuzz_ancestry_def fuzz_good_descendent_def fuzz_full_ancestry_def)
  note s1 = fuzz_built_above [OF new, of 10 1] and s2 = fuzz_built_above [of _ _ 11 1]
  have g: "built fuzz_ancestry fuzz_parent fuzz_num (+) (\<lambda>w. w)
      (projr (the (vote_graph_insert fuzz_ancestry (+) (vote_graph_new 4 2 (0 :: nat)) 10 (fuzz_num 10) (1 :: nat)))) [(10, 1)]"
    "g_base (projr (the (vote_graph_insert fuzz_ancestry (+) (vote_graph_new 4 2 (0 :: nat)) 10 (fuzz_num 10) (1 :: nat)))) = 4"
    using s1 d(1) base by simp_all
  show ?thesis using s2 [OF g(1)] d(2) g(2) by (simp add: fuzz_high_def Let_def)
qed

theorem graph_adjust_base_witness:
  "\<exists>g' a. adjust_base fuzz_high [1, 0] = Some g' \<and> vote_graph_base g' = (0, fuzz_num 0) \<and> cumulative_vote g' 1 (fuzz_num 1) = Some 2 \<and>
     cumulative_vote g' 2 (fuzz_num 2) = Some 0 \<and> find_ghost g' None (\<lambda>v. 2 \<le> v) = Some (Some (a, fuzz_num a)) \<and>
     2 \<le> tally fuzz_parent [(10, 1), (11, 1 :: nat)] a"
proof -
  have base: "path fuzz_parent (g_base fuzz_high) [1, 0]" "g_base fuzz_high = 4" by code_simp+
  define V :: "(fhash \<times> nat) list" where "V = [(10, 1), (11, 1)]"
  have b: "built fuzz_ancestry fuzz_parent fuzz_num (+) (\<lambda>w. w) fuzz_high V" unfolding V_def by (rule fuzz_high_built)
  have t: "tally fuzz_parent V 0 = 2" "tally fuzz_parent V 1 = 2" "tally fuzz_parent V 2 = 0"
    by (simp_all add: V_def fuzz.is_equal_or_descendent_of_iff [symmetric] is_equal_or_descendent_of_def fuzz_ancestry_def
        fuzz_good_descendent_def fuzz_full_ancestry_def)
  have d: "descends fuzz_parent 0 1" "descends fuzz_parent 0 2" by (simp_all add: fuzz_descends_base)
  obtain g' where g': "adjust_base fuzz_high [1, 0] = Some g'" "vote_graph_base g' = (0, fuzz_num 0)"
    "\<forall>b. descends fuzz_parent (g_base g') b \<longrightarrow> cumulative_vote g' b (fuzz_num b) = Some (tally fuzz_parent V b)"
    "if 2 \<le> tally fuzz_parent V (g_base g') then \<exists>a. find_ghost g' None (\<lambda>v. 2 \<le> v) = Some (Some (a, fuzz_num a)) \<and>
        descends fuzz_parent (g_base g') a \<and> 2 \<le> tally fuzz_parent V a \<and>
        (\<forall>b. descends fuzz_parent a b \<longrightarrow> a \<noteq> b \<longrightarrow> \<not> 2 \<le> tally fuzz_parent V b)
      else find_ghost g' None (\<lambda>v. 2 \<le> v) = Some None"
    by (rule exE [OF graph_adjust_base [OF fuzz.chain_axioms b base(1), of "\<lambda>v. 2 \<le> v"]])
       (erule trans_le_add1, simp, elim conjE, rule that, simp_all)
  have "g_base g' = 0" using g'(2) by (simp add: vote_graph_base_def)
  then show ?thesis using g' t d unfolding V_def [symmetric] by auto
qed

text \<open>C40. \<^verbatim>\<open>find_ghost\<close> with a current best that does not fulfil the condition. For a block of the graph, it returns the
  highest vote-node at or below that block if this node fulfils the condition, an ancestor of the current best whenever
  the block itself is no vote-node, and nothing otherwise. The documentation of the function announces that nothing is returned.\<close>

theorem graph_find_ghost_below_best:
  assumes chain: "chain ancestry parent number"
    and g: "built ancestry parent number add_vote val g votes"
    and mono: "\<And>v w. condition v \<Longrightarrow> condition (v + w)"
    and h: "in_graph g h" "\<not> condition (tally parent votes h)"
    and k: "bt_contains_key (g_entries g) k" "descends parent k h"
      "\<And>n. bt_contains_key (g_entries g) n \<Longrightarrow> descends parent n h \<Longrightarrow> descends parent n k"
  shows "find_ghost g (Some (h, number h)) condition = Some (if condition (tally parent votes k) then Some (k, number k) else None)"
proof (cases "h \<in> nodes g")
  case True
  then have "k = h" using k(2) k(3) [of h] chain.descends_antisym [OF chain] by auto
  then show ?thesis
    using chain.find_ghost_below_node [of ancestry parent number g votes h condition, OF chain built_graph_ok [OF chain g] built_votes_ok [OF chain g] True h(2)] h(2) by simp
next
  case False
  show ?thesis
    by (rule chain.find_ghost_below [OF chain built_graph_ok [OF chain g] built_votes_ok [OF chain g] mono False h _ k(2)])
       (use k in simp_all)
qed

theorem graph_find_ghost_below_best_witness:
  "cumulative_vote fuzz_graph 4 (fuzz_num 4) = Some 2 \<and> find_ghost fuzz_graph (Some (4, fuzz_num 4)) (\<lambda>v. 3 \<le> v) = Some (Some (0, fuzz_num 0))"
proof -
  have keys: "map fst (g_entries fuzz_graph) = [0, 5, 10, 11]" "g_base fuzz_graph = 0" "cumulative_vote fuzz_graph 4 (fuzz_num 4) = Some 2" by code_simp+
  have nodes: "bt_contains_key (g_entries fuzz_graph) n \<longleftrightarrow> n \<in> {0, 5, 10, 11}" for n
    using keys(1) by (simp add: bt_keys_def flip: set_map)
  have d: "descends fuzz_parent 0 4" "descends fuzz_parent 4 10" "descends fuzz_parent 4 11"
    "\<not> descends fuzz_parent 4 5" "\<not> descends fuzz_parent 5 4" "\<not> descends fuzz_parent 10 4" "\<not> descends fuzz_parent 11 4"
    by (simp_all add: fuzz.is_equal_or_descendent_of_iff [symmetric] is_equal_or_descendent_of_def fuzz_ancestry_def
        fuzz_good_descendent_def fuzz_full_ancestry_def)
  have t: "tally fuzz_parent fuzz_votes 4 = 2" "tally fuzz_parent fuzz_votes 0 = 3"
    using d(2-4) fuzz_descends_base [of 5] fuzz_descends_base [of 10] fuzz_descends_base [of 11] by (simp_all add: fuzz_votes_def)
  have ing: "in_graph fuzz_graph 4"
    using d nodes [of 10] by (auto simp: chain.in_graph_iff [OF fuzz.chain_axioms built_graph_ok [OF fuzz.chain_axioms fuzz_graph_built]] keys(2))
  have "find_ghost fuzz_graph (Some (4, fuzz_num 4)) (\<lambda>v. 3 \<le> v)
      = Some (if 3 \<le> tally fuzz_parent fuzz_votes 0 then Some (0, fuzz_num 0) else None)"
    by (rule graph_find_ghost_below_best [OF fuzz.chain_axioms fuzz_graph_built]) (use ing d t nodes in auto)
  then show ?thesis using keys(3) t by simp
qed

end
