(* ===== verification/Weights.thy ===== *)
theory Weights
  imports Prelude
begin

text \<open>
  The arithmetic of vote and voter weights (\<^verbatim>\<open>src/weights.rs\<close>). A \<open>vote_weight\<close> is the
  accumulated weight of any number of voters, a \<open>voter_weight\<close> the non-zero weight of one
  or more voters (\<^verbatim>\<open>NonZeroU64\<close>: the constructor function \<open>voter_weight_new\<close> refuses
  zero). Addition and subtraction saturate, comparisons between the two types go through
  \<^verbatim>\<open>partial_cmp\<close>. The lemmas read every operation as arithmetic on natural numbers.
\<close>

datatype ordering = Less | Equal | Greater

definition u64_cmp :: "u64 \<Rightarrow> u64 \<Rightarrow> ordering" where
  "u64_cmp a b = (if a < b then Less else if a = b then Equal else Greater)"

datatype vote_weight = VoteWeight u64

datatype voter_weight = VoterWeight u64

fun vote_weight_get :: "vote_weight \<Rightarrow> u64" where
  "vote_weight_get (VoteWeight w) = w"

definition voter_weight_new :: "u64 \<Rightarrow> voter_weight option" where
  "voter_weight_new weight = (if weight = 0 then None else Some (VoterWeight weight))"

fun voter_weight_get :: "voter_weight \<Rightarrow> u64" where
  "voter_weight_get (VoterWeight w) = w"

datatype try_from_error = ZeroWeight

definition voter_weight_try_from :: "u64 \<Rightarrow> try_from_error + voter_weight" where
  "voter_weight_try_from weight =
     (case voter_weight_new weight of None \<Rightarrow> Inl ZeroWeight | Some w \<Rightarrow> Inr w)"

section \<open>The operator instances\<close>

fun vote_weight_add :: "vote_weight \<Rightarrow> vote_weight \<Rightarrow> vote_weight" where
  "vote_weight_add (VoteWeight a) (VoteWeight b) = VoteWeight (saturating_add a b)"

fun vote_weight_add_voter :: "vote_weight \<Rightarrow> voter_weight \<Rightarrow> vote_weight" where
  "vote_weight_add_voter (VoteWeight a) w = VoteWeight (saturating_add a (voter_weight_get w))"

fun vote_weight_sub :: "vote_weight \<Rightarrow> vote_weight \<Rightarrow> vote_weight" where
  "vote_weight_sub (VoteWeight a) (VoteWeight b) = VoteWeight (saturating_sub a b)"

instantiation vote_weight :: "{zero, plus, minus, linorder}"
begin

definition zero_vote_weight :: vote_weight where
  "zero_vote_weight = VoteWeight 0"

definition plus_vote_weight :: "vote_weight \<Rightarrow> vote_weight \<Rightarrow> vote_weight" where
  "plus_vote_weight = vote_weight_add"

definition minus_vote_weight :: "vote_weight \<Rightarrow> vote_weight \<Rightarrow> vote_weight" where
  "minus_vote_weight = vote_weight_sub"

definition less_eq_vote_weight :: "vote_weight \<Rightarrow> vote_weight \<Rightarrow> bool" where
  "less_eq_vote_weight a b = (vote_weight_get a \<le> vote_weight_get b)"

definition less_vote_weight :: "vote_weight \<Rightarrow> vote_weight \<Rightarrow> bool" where
  "less_vote_weight a b = (vote_weight_get a < vote_weight_get b)"

instance
proof
  fix x y z :: vote_weight
  show "x < y \<longleftrightarrow> x \<le> y \<and> \<not> y \<le> x"
    by (auto simp: less_eq_vote_weight_def less_vote_weight_def)
  show "x \<le> x" by (simp add: less_eq_vote_weight_def)
  show "x \<le> y \<Longrightarrow> y \<le> z \<Longrightarrow> x \<le> z" by (simp add: less_eq_vote_weight_def)
  show "x \<le> y \<Longrightarrow> y \<le> x \<Longrightarrow> x = y"
    by (cases x; cases y) (simp add: less_eq_vote_weight_def)
  show "x \<le> y \<or> y \<le> x" by (auto simp: less_eq_vote_weight_def)
qed

end

definition vote_weight_sub_voter :: "vote_weight \<Rightarrow> voter_weight \<Rightarrow> vote_weight" where
  "vote_weight_sub_voter a b = a - VoteWeight (voter_weight_get b)"

definition vote_weight_eq_voter :: "vote_weight \<Rightarrow> voter_weight \<Rightarrow> bool" where
  "vote_weight_eq_voter a b = (vote_weight_get a = voter_weight_get b)"

definition vote_weight_partial_cmp_voter :: "vote_weight \<Rightarrow> voter_weight \<Rightarrow> ordering option" where
  "vote_weight_partial_cmp_voter a b = Some (u64_cmp (vote_weight_get a) (voter_weight_get b))"

text \<open>The comparison operators \<^verbatim>\<open><\<close> and \<^verbatim>\<open>>=\<close> that \<^verbatim>\<open>PartialOrd\<close> derives from it.\<close>

definition vote_weight_lt_voter :: "vote_weight \<Rightarrow> voter_weight \<Rightarrow> bool" where
  "vote_weight_lt_voter a b = (vote_weight_partial_cmp_voter a b = Some Less)"

definition vote_weight_ge_voter :: "vote_weight \<Rightarrow> voter_weight \<Rightarrow> bool" where
  "vote_weight_ge_voter a b = (vote_weight_partial_cmp_voter a b \<in> {Some Equal, Some Greater})"

definition vote_weight_from :: "u64 \<Rightarrow> vote_weight" where
  "vote_weight_from weight = VoteWeight weight"

definition voter_weight_sub_vote :: "voter_weight \<Rightarrow> vote_weight \<Rightarrow> vote_weight" where
  "voter_weight_sub_vote a b = VoteWeight (voter_weight_get a) - b"

definition voter_weight_sub :: "voter_weight \<Rightarrow> voter_weight \<Rightarrow> vote_weight" where
  "voter_weight_sub a b = VoteWeight (voter_weight_get a) - VoteWeight (voter_weight_get b)"

section \<open>Weights as natural numbers\<close>

definition vw :: "vote_weight \<Rightarrow> nat" where
  "vw w = unat (vote_weight_get w)"

definition rw :: "voter_weight \<Rightarrow> nat" where
  "rw w = unat (voter_weight_get w)"

lemma vw_less [simp]: "vw a < 2 ^ 64" "vw a < 18446744073709551616"
  by (simp_all add: vw_def)

lemma rw_less [simp]: "rw a < 2 ^ 64" "rw a < 18446744073709551616"
  by (simp_all add: rw_def)

lemma vw_inject: "vw a = vw b \<longleftrightarrow> a = b"
  by (cases a; cases b) (simp add: vw_def word_unat_eq_iff)

lemma rw_inject: "rw a = rw b \<longleftrightarrow> a = b"
  by (cases a; cases b) (simp add: rw_def word_unat_eq_iff)

lemma vw_VoteWeight [weight_simps]: "vw (VoteWeight w) = unat w"
  by (simp add: vw_def)

lemma rw_VoterWeight [weight_simps]: "rw (VoterWeight w) = unat w"
  by (simp add: rw_def)

lemma unat_voter_weight_get [weight_simps]: "unat (voter_weight_get w) = rw w"
  by (simp add: rw_def)

lemma vw_zero [weight_simps]: "vw 0 = 0"
  by (simp add: zero_vote_weight_def vw_def)

lemma vw_plus [weight_simps]: "vw (a + b) = min (vw a + vw b) (2 ^ 64 - 1)"
  by (cases a; cases b) (simp add: plus_vote_weight_def vw_def unat_saturating_add)

lemma vw_add_voter [weight_simps]:
  "vw (vote_weight_add_voter a b) = min (vw a + rw b) (2 ^ 64 - 1)"
  by (cases a) (simp add: vw_def rw_def unat_saturating_add)

lemma vw_minus [weight_simps]: "vw (a - b) = vw a - vw b"
  by (cases a; cases b) (simp add: minus_vote_weight_def vw_def unat_saturating_sub)

lemma vw_sub_voter [weight_simps]: "vw (vote_weight_sub_voter a b) = vw a - rw b"
  by (simp add: vote_weight_sub_voter_def weight_simps)

lemma vw_voter_sub_vote [weight_simps]: "vw (voter_weight_sub_vote a b) = rw a - vw b"
  by (simp add: voter_weight_sub_vote_def weight_simps)

lemma vw_voter_sub [weight_simps]: "vw (voter_weight_sub a b) = rw a - rw b"
  by (simp add: voter_weight_sub_def weight_simps)

lemma vw_le [weight_simps]: "a \<le> b \<longleftrightarrow> vw a \<le> vw b"
  by (simp add: less_eq_vote_weight_def vw_def word_le_nat_alt)

lemma vw_lt [weight_simps]: "a < b \<longleftrightarrow> vw a < vw b"
  by (simp add: less_vote_weight_def vw_def word_less_nat_alt)

lemma vw_min [weight_simps]: "vw (min a b) = min (vw a) (vw b)"
  by (simp add: min_def weight_simps)

lemma lt_voter_iff [weight_simps]: "vote_weight_lt_voter a b \<longleftrightarrow> vw a < rw b"
  by (simp add: vote_weight_lt_voter_def vote_weight_partial_cmp_voter_def u64_cmp_def
      vw_def rw_def word_less_nat_alt)

lemma ge_voter_iff [weight_simps]: "vote_weight_ge_voter a b \<longleftrightarrow> rw b \<le> vw a"
  by (auto simp: vote_weight_ge_voter_def vote_weight_partial_cmp_voter_def u64_cmp_def
      vw_def rw_def word_less_nat_alt)

lemma voter_weight_new_Some [weight_simps]:
  "voter_weight_new w = Some v \<longleftrightarrow> w \<noteq> 0 \<and> v = VoterWeight w"
  by (auto simp: voter_weight_new_def)

end
