(* ===== verification/Voter_Set.thy ===== *)
theory Voter_Set
  imports BTree Weights "HOL-Library.Multiset"
begin

text \<open>
  The voters of a round and their weights (\<^verbatim>\<open>src/voter_set.rs\<close>): a vector sorted by voter
  identity, the total weight and the supermajority threshold. The theory shows that
  the constructor never panics and builds exactly the set the weights describe, whatever their
  order, that lookups by binary search find exactly the members, and the
  arithmetic of the threshold that the safety of the protocol rests on.
\<close>

record voter_info =
  vi_position :: nat
  vi_weight :: voter_weight

record 'i voter_set =
  vs_voters :: "('i \<times> voter_info) list"
  vs_threshold :: voter_weight
  vs_total_weight :: voter_weight

definition threshold :: "voter_weight \<Rightarrow> voter_weight option" where
  "threshold total_weight =
     (let faulty = saturating_sub (voter_weight_get total_weight) 1 div 3
      in voter_weight_new (voter_weight_get total_weight - faulty))"

text \<open>The loop of \<^verbatim>\<open>VoterSet::new\<close> over the weights. The outer \<open>option\<close> is the convention for
  panics (the unchecked addition of two partial weights, which panics on overflow in a debug
  build, and the \<^verbatim>\<open>expect\<close>); the inner one is the early return of \<^verbatim>\<open>checked_add(..)?\<close>.\<close>

fun voter_set_populate ::
  "('i :: linorder \<times> u64) list \<Rightarrow> ('i, voter_info) btree \<Rightarrow> u64
     \<Rightarrow> (('i, voter_info) btree \<times> u64) option option" where
  "voter_set_populate [] voters total_weight = Some (Some (voters, total_weight))"
| "voter_set_populate ((vid, weight) # weights) voters total_weight =
     (if weight = 0 then voter_set_populate weights voters total_weight
      else case checked_add total_weight weight of
        None \<Rightarrow> Some None
      | Some total_weight \<Rightarrow>
          (case bt_get voters vid of
             None \<Rightarrow> voter_set_populate weights
               (bt_insert vid \<lparr>vi_position = 0, vi_weight = VoterWeight weight\<rparr> voters) total_weight
           | Some v \<Rightarrow> do {
               n \<leftarrow> checked_add (voter_weight_get (vi_weight v)) weight;
               w \<leftarrow> voter_weight_new n;
               voter_set_populate weights (bt_insert vid (v\<lparr>vi_weight := w\<rparr>) voters) total_weight
             }))"

definition voter_set_new :: "('i :: linorder \<times> u64) list \<Rightarrow> 'i voter_set option option" where
  "voter_set_new weights = do {
     r \<leftarrow> voter_set_populate weights bt_empty 0;
     case r of
       None \<Rightarrow> Some None
     | Some (voters, total_weight) \<Rightarrow>
         if voters = [] then Some None
         else do {
           let vs = map (\<lambda>(pos, (vid, info)). (vid, info\<lparr>vi_position := pos\<rparr>)) (enumerate 0 voters);
           tw \<leftarrow> voter_weight_new total_weight;
           th \<leftarrow> threshold tw;
           Some (Some \<lparr>vs_voters = vs, vs_threshold = th, vs_total_weight = tw\<rparr>)
         }
   }"

definition voter_set_get :: "'i :: linorder voter_set \<Rightarrow> 'i \<Rightarrow> voter_info option" where
  "voter_set_get self vid =
     (case binary_search (map fst (vs_voters self)) vid of
        Inl _ \<Rightarrow> None
      | Inr idx \<Rightarrow> Some (snd (vs_voters self ! idx)))"

definition voter_set_len :: "'i voter_set \<Rightarrow> nat" where
  "voter_set_len self = length (vs_voters self)"

definition voter_set_contains :: "'i :: linorder voter_set \<Rightarrow> 'i \<Rightarrow> bool" where
  "voter_set_contains self vid =
     (case binary_search (map fst (vs_voters self)) vid of Inl _ \<Rightarrow> False | Inr _ \<Rightarrow> True)"

definition voter_set_nth :: "'i voter_set \<Rightarrow> nat \<Rightarrow> ('i \<times> voter_info) option" where
  "voter_set_nth self n = slice_get (vs_voters self) n"

definition voter_set_nth_mod :: "'i voter_set \<Rightarrow> nat \<Rightarrow> ('i \<times> voter_info) option" where
  "voter_set_nth_mod self n =
     (if length (vs_voters self) = 0 then None
      else voter_set_nth self (n mod length (vs_voters self)))"

definition voter_set_iter :: "'i voter_set \<Rightarrow> ('i \<times> voter_info) list" where
  "voter_set_iter self = vs_voters self"

section \<open>Well-formed voter sets\<close>

text \<open>The weight of a voter, zero for strangers, and the weight of a set of voters.\<close>

definition voter_weight_of :: "'i :: linorder voter_set \<Rightarrow> 'i \<Rightarrow> nat" where
  "voter_weight_of vs vid = (case voter_set_get vs vid of None \<Rightarrow> 0 | Some v \<Rightarrow> rw (vi_weight v))"

definition voter_ids :: "'i voter_set \<Rightarrow> 'i set" where
  "voter_ids vs = fst ` set (vs_voters vs)"

definition weight_of_set :: "'i :: linorder voter_set \<Rightarrow> 'i set \<Rightarrow> nat" where
  "weight_of_set vs A = (\<Sum>vid \<in> A \<inter> voter_ids vs. voter_weight_of vs vid)"

definition voter_set_ok :: "'i :: linorder voter_set \<Rightarrow> bool" where
  "voter_set_ok vs \<longleftrightarrow>
     vs_voters vs \<noteq> [] \<and>
     sorted_wrt (<) (map fst (vs_voters vs)) \<and>
     (\<forall>n < length (vs_voters vs). vi_position (snd (vs_voters vs ! n)) = n) \<and>
     (\<forall>(vid, v) \<in> set (vs_voters vs). 0 < rw (vi_weight v)) \<and>
     rw (vs_total_weight vs) = sum_list (map (\<lambda>(vid, v). rw (vi_weight v)) (vs_voters vs)) \<and>
     threshold (vs_total_weight vs) = Some (vs_threshold vs)"

lemma voter_set_okD:
  assumes "voter_set_ok vs"
  shows voter_set_nonempty: "vs_voters vs \<noteq> []"
    and voter_set_sorted: "sorted_wrt (<) (map fst (vs_voters vs))"
    and voter_set_position: "n < length (vs_voters vs) \<Longrightarrow> vi_position (snd (vs_voters vs ! n)) = n"
    and voter_set_weight_pos: "(vid, v) \<in> set (vs_voters vs) \<Longrightarrow> 0 < rw (vi_weight v)"
    and voter_set_total_sum:
      "rw (vs_total_weight vs) = sum_list (map (\<lambda>(vid, v). rw (vi_weight v)) (vs_voters vs))"
    and voter_set_threshold: "threshold (vs_total_weight vs) = Some (vs_threshold vs)"
  using assms by (auto simp: voter_set_ok_def)

lemma voter_set_bt_ok: "voter_set_ok vs \<Longrightarrow> bt_ok (vs_voters vs)"
  by (simp add: bt_ok_def voter_set_sorted)

text \<open>Binary search by identity is lookup in the sorted vector.\<close>

lemma voter_set_get_bt:
  assumes "voter_set_ok vs"
  shows "voter_set_get vs vid = bt_get (vs_voters vs) vid"
proof (cases "binary_search (map fst (vs_voters vs)) vid")
  case (Inl i)
  then have "vid \<notin> fst ` set (vs_voters vs)"
    using binary_search_is_Inr [OF voter_set_sorted [OF assms], of vid] by auto
  then show ?thesis
    using Inl by (simp add: voter_set_get_def bt_get_map_of map_of_eq_None_iff [symmetric])
next
  case (Inr i)
  then have "i < length (vs_voters vs)" "fst (vs_voters vs ! i) = vid"
    by (auto simp: binary_search_Inr [OF voter_set_sorted [OF assms]])
  then have "(vid, snd (vs_voters vs ! i)) \<in> set (vs_voters vs)"
    by (metis nth_mem prod.collapse)
  then show ?thesis
    using Inr bt.set_iter [OF voter_set_bt_ok [OF assms]] by (simp add: voter_set_get_def)
qed

lemma voter_set_get_Some:
  "voter_set_ok vs \<Longrightarrow> voter_set_get vs vid = Some v \<longleftrightarrow> (vid, v) \<in> set (vs_voters vs)"
  by (simp add: voter_set_get_bt bt.set_iter voter_set_bt_ok)

lemma voter_set_contains_iff:
  "voter_set_ok vs \<Longrightarrow> voter_set_contains vs vid \<longleftrightarrow> vid \<in> voter_ids vs"
  using binary_search_is_Inr [OF voter_set_sorted, of vs vid]
  by (auto simp: voter_set_contains_def voter_ids_def split: sum.splits)

lemma voter_set_get_None:
  "voter_set_ok vs \<Longrightarrow> voter_set_get vs vid = None \<longleftrightarrow> vid \<notin> voter_ids vs"
  by (auto simp: voter_set_get_bt voter_ids_def bt_get_map_of map_of_eq_None_iff)

lemma finite_voter_ids [simp]: "finite (voter_ids vs)"
  by (simp add: voter_ids_def)

text \<open>The voter at a position is the voter whose record carries the position.\<close>

lemma voter_set_nth_get:
  assumes "voter_set_ok vs" "voter_set_get vs vid = Some v"
  shows "voter_set_nth vs (vi_position v) = Some (vid, v)"
proof -
  have "(vid, v) \<in> set (vs_voters vs)"
    using assms by (simp add: voter_set_get_Some)
  then obtain n where n: "n < length (vs_voters vs)" "vs_voters vs ! n = (vid, v)"
    by (auto simp: in_set_conv_nth)
  then have "vi_position v = n"
    using voter_set_position [OF assms(1) n(1)] by simp
  then show ?thesis using n by (simp add: voter_set_nth_def slice_get_def)
qed

lemma voter_set_nth_Some:
  assumes "voter_set_ok vs" "voter_set_nth vs n = Some (vid, v)"
  shows "voter_set_get vs vid = Some v" "vi_position v = n"
proof -
  have n: "n < length (vs_voters vs)" "vs_voters vs ! n = (vid, v)"
    using assms(2) by (auto simp: voter_set_nth_def slice_get_Some)
  then show "voter_set_get vs vid = Some v"
    using voter_set_get_Some [OF assms(1)] nth_mem by metis
  show "vi_position v = n"
    using voter_set_position [OF assms(1) n(1)] n(2) by simp
qed

lemma voter_set_position_inj:
  assumes "voter_set_ok vs" "voter_set_get vs vid = Some v" "voter_set_get vs vid' = Some v'"
    and "vi_position v = vi_position v'"
  shows "vid = vid'"
proof -
  have "Some (vid, v) = Some (vid', v')"
    unfolding voter_set_nth_get [OF assms(1,2), symmetric] voter_set_nth_get [OF assms(1,3), symmetric]
    by (simp only: assms(4))
  then show ?thesis by blast
qed

section \<open>Weights of sets of voters\<close>

lemma voter_weight_of_pos:
  assumes "voter_set_ok vs"
  shows "0 < voter_weight_of vs vid \<longleftrightarrow> vid \<in> voter_ids vs"
proof (cases "voter_set_get vs vid")
  case None
  then show ?thesis
    using voter_set_get_None [OF assms, of vid] by (simp add: voter_weight_of_def)
next
  case (Some v)
  then have "(vid, v) \<in> set (vs_voters vs)"
    using voter_set_get_Some [OF assms] by simp
  moreover from this have "vid \<in> voter_ids vs" by (force simp: voter_ids_def)
  ultimately show ?thesis
    using Some voter_set_weight_pos [OF assms, of vid v] by (simp add: voter_weight_of_def)
qed

lemma weight_of_set_mono: "A \<subseteq> B \<Longrightarrow> weight_of_set vs A \<le> weight_of_set vs B"
  unfolding weight_of_set_def by (rule sum_mono2) auto

lemma weight_of_set_empty [simp]: "weight_of_set vs {} = 0"
  by (simp add: weight_of_set_def)

lemma weight_of_set_insert:
  "vid \<notin> A \<Longrightarrow> vid \<in> voter_ids vs \<Longrightarrow>
   weight_of_set vs (insert vid A) = voter_weight_of vs vid + weight_of_set vs A"
  by (simp add: weight_of_set_def)

lemma weight_of_set_Un_Int:
  "weight_of_set vs (A \<union> B) + weight_of_set vs (A \<inter> B) = weight_of_set vs A + weight_of_set vs B"
proof -
  let ?V = "voter_ids vs"
  have "(A \<union> B) \<inter> ?V = A \<inter> ?V \<union> B \<inter> ?V" "A \<inter> B \<inter> ?V = A \<inter> ?V \<inter> (B \<inter> ?V)" by auto
  then show ?thesis
    using sum.union_inter [of "A \<inter> ?V" "B \<inter> ?V" "voter_weight_of vs"]
    by (simp add: weight_of_set_def)
qed

lemma weight_of_set_total:
  assumes "voter_set_ok vs"
  shows "weight_of_set vs (voter_ids vs) = rw (vs_total_weight vs)"
proof -
  have "voter_weight_of vs vid = rw (vi_weight (the (bt_get (vs_voters vs) vid)))"
    if "vid \<in> voter_ids vs" for vid
    using that voter_set_get_None [OF assms, of vid]
    by (auto simp: voter_weight_of_def voter_set_get_bt [OF assms])
  then show ?thesis
    using bt.sum_iter [OF voter_set_bt_ok [OF assms], of "\<lambda>_ v. rw (vi_weight v)"]
    by (simp add: weight_of_set_def voter_set_total_sum [OF assms] voter_ids_def
        bt_keys_dom [symmetric] bt_keys_def)
qed

lemma weight_of_set_le_total: "voter_set_ok vs \<Longrightarrow> weight_of_set vs A \<le> rw (vs_total_weight vs)"
  using weight_of_set_mono [of "A \<inter> voter_ids vs" "voter_ids vs" vs]
  by (simp add: weight_of_set_total) (simp add: weight_of_set_def)

lemma weight_of_set_less: "voter_set_ok vs \<Longrightarrow> weight_of_set vs A < 2 ^ 64"
  by (rule le_less_trans [OF weight_of_set_le_total]) simp_all

section \<open>The threshold\<close>

text \<open>The threshold never panics, and is the total less the tolerated faulty weight
  \<open>f = (total - 1) div 3\<close>.\<close>

lemma threshold_rw:
  assumes "0 < rw w"
  shows "\<exists>t. threshold w = Some t \<and> rw t = rw w - (rw w - 1) div 3"
proof -
  obtain u where w: "w = VoterWeight u" by (cases w)
  let ?f = "saturating_sub u 1 div 3"
  have f: "unat ?f = (unat u - 1) div 3"
    by (simp add: unat_div unat_saturating_sub)
  have u: "0 < unat u" using assms w by (simp add: rw_VoterWeight)
  have "(unat u - 1) div 3 \<le> unat u" by linarith
  then have sub: "unat (u - ?f) = unat u - (unat u - 1) div 3"
    using f by (simp add: unat_sub word_le_nat_alt)
  then have "0 < unat (u - ?f)" using u by linarith
  then have "u - ?f \<noteq> 0" by (metis less_irrefl unat_0)
  then show ?thesis
    using sub w by (simp add: threshold_def Let_def voter_weight_new_def rw_VoterWeight)
qed

definition faulty :: "'i voter_set \<Rightarrow> nat" where
  "faulty vs = rw (vs_total_weight vs) - rw (vs_threshold vs)"

lemma voter_set_total_pos:
  assumes "voter_set_ok vs"
  shows "0 < rw (vs_total_weight vs)"
proof -
  obtain vid v vss where v: "vs_voters vs = (vid, v) # vss"
    using voter_set_nonempty [OF assms] by (cases "vs_voters vs") auto
  then have "0 < rw (vi_weight v)" using voter_set_weight_pos [OF assms, of vid v] by simp
  then show ?thesis using v voter_set_total_sum [OF assms] by simp
qed

lemma threshold_total:
  assumes "voter_set_ok vs"
  shows threshold_eq: "rw (vs_threshold vs) = rw (vs_total_weight vs) - (rw (vs_total_weight vs) - 1) div 3"
    and threshold_le_total: "rw (vs_threshold vs) \<le> rw (vs_total_weight vs)"
    and threshold_pos: "0 < rw (vs_threshold vs)"
    and faulty_eq: "faulty vs = (rw (vs_total_weight vs) - 1) div 3"
    and threshold_faulty: "rw (vs_threshold vs) + faulty vs = rw (vs_total_weight vs)"
    and three_faulty: "3 * faulty vs < rw (vs_total_weight vs)"
    and two_thresholds: "rw (vs_total_weight vs) + faulty vs < 2 * rw (vs_threshold vs)"
proof -
  have pos: "0 < rw (vs_total_weight vs)" using voter_set_total_pos [OF assms] .
  show eq: "rw (vs_threshold vs) = rw (vs_total_weight vs) - (rw (vs_total_weight vs) - 1) div 3"
    using threshold_rw [OF pos] voter_set_threshold [OF assms] by auto
  show "rw (vs_threshold vs) \<le> rw (vs_total_weight vs)" "0 < rw (vs_threshold vs)"
    using eq pos by linarith+
  show f: "faulty vs = (rw (vs_total_weight vs) - 1) div 3"
    unfolding faulty_def eq by linarith
  show "rw (vs_threshold vs) + faulty vs = rw (vs_total_weight vs)"
    "3 * faulty vs < rw (vs_total_weight vs)"
    "rw (vs_total_weight vs) + faulty vs < 2 * rw (vs_threshold vs)"
    using eq f pos by linarith+
qed

text \<open>Quorum intersection: two sets of voters that both reach the threshold share more than the
  tolerated faulty weight.\<close>

lemma threshold_intersection:
  assumes "voter_set_ok vs"
    and "rw (vs_threshold vs) \<le> weight_of_set vs A" "rw (vs_threshold vs) \<le> weight_of_set vs B"
  shows "faulty vs < weight_of_set vs (A \<inter> B)"
  using weight_of_set_Un_Int [of vs A B] weight_of_set_le_total [OF assms(1), of "A \<union> B"]
    two_thresholds [OF assms(1)] assms(2,3) by linarith

section \<open>The constructor\<close>

text \<open>What the weights describe: the accumulated weight of each identity, and their sum.\<close>

definition weight_in :: "('i \<times> u64) list \<Rightarrow> 'i \<Rightarrow> nat" where
  "weight_in ws vid = (\<Sum>(i, w) \<leftarrow> ws. if i = vid then unat w else 0)"

definition weight_sum :: "('i \<times> u64) list \<Rightarrow> nat" where
  "weight_sum ws = (\<Sum>(i, w) \<leftarrow> ws. unat w)"

lemma weight_in_simps [simp]:
  "weight_in [] vid = 0"
  "weight_in ((i, w) # ws) vid = (if i = vid then unat w else 0) + weight_in ws vid"
  by (simp_all add: weight_in_def)

lemma weight_sum_simps [simp]:
  "weight_sum [] = 0" "weight_sum ((i, w) # ws) = unat w + weight_sum ws"
  by (simp_all add: weight_sum_def)

lemma weight_in_le_sum: "weight_in ws vid \<le> weight_sum ws"
  by (induction ws) auto

lemma sum_list_map_perm:
  fixes f :: "'a \<Rightarrow> nat"
  shows "mset xs = mset ys \<Longrightarrow> sum_list (map f xs) = sum_list (map f ys)"
  by (metis mset_map sum_mset_sum_list)

lemma weight_in_perm: "mset ws = mset ws' \<Longrightarrow> weight_in ws vid = weight_in ws' vid"
  unfolding weight_in_def by (rule sum_list_map_perm)

lemma weight_sum_perm: "mset ws = mset ws' \<Longrightarrow> weight_sum ws = weight_sum ws'"
  unfolding weight_sum_def by (rule sum_list_map_perm)

text \<open>The map of the loop stores \<open>W\<close>: the identities of non-zero weight, with their weights.\<close>

definition stores :: "('i :: linorder, voter_info) btree \<Rightarrow> ('i \<Rightarrow> nat) \<Rightarrow> bool" where
  "stores m W \<longleftrightarrow> bt_ok m \<and> (\<forall>vid. W vid < 2 ^ 64) \<and>
     (\<forall>vid. bt_get m vid = (if W vid = 0 then None
        else Some \<lparr>vi_position = 0, vi_weight = VoterWeight (word_of_nat (W vid))\<rparr>))"

lemma storesD:
  assumes "stores m W"
  shows stores_ok: "bt_ok m"
    and stores_None: "bt_get m vid = None \<longleftrightarrow> W vid = 0"
    and stores_Some: "bt_get m vid = Some v \<Longrightarrow> rw (vi_weight v) = W vid"
  using assms by (auto simp: stores_def rw_VoterWeight unat_of_nat split: if_splits)

lemma stores_empty: "stores bt_empty (\<lambda>_. 0)"
  by (simp add: stores_def)

lemma stores_insert:
  assumes "stores m W" "W vid + unat w < 2 ^ 64" "w \<noteq> 0"
  shows "stores (bt_insert vid \<lparr>vi_position = 0, vi_weight = VoterWeight (word_of_nat (W vid) + w)\<rparr> m)
           (W(vid := W vid + unat w))"
  using assms by (auto simp: stores_def unat_eq_zero)

lemma voter_set_populate_stores:
  assumes "stores m W" "\<And>vid. W vid \<le> unat t"
  shows "if unat t + weight_sum ws < 2 ^ 64
    then \<exists>m' t'. voter_set_populate ws m t = Some (Some (m', t')) \<and>
           stores m' (\<lambda>vid. W vid + weight_in ws vid) \<and> unat t' = unat t + weight_sum ws
    else voter_set_populate ws m t = Some None"
  using assms
proof (induction ws arbitrary: m W t)
  case Nil
  then show ?case by simp
next
  case (Cons iw ws)
  obtain vid w where iw: "iw = (vid, w)" by (cases iw)
  show ?case
  proof (cases "w = 0 \<or> \<not> unat t + unat w < 2 ^ 64")
    case True
    then show ?thesis
      using Cons.IH [OF Cons.prems] iw by (auto simp: checked_add_def cong: if_cong)
  next
    case False
    let ?W = "W(vid := W vid + unat w)" and ?t = "t + w"
    have t: "unat ?t = unat t + unat w" and sum: "W vid + unat w < 2 ^ 64"
      using False Cons.prems(2) [of vid] by (auto simp: unat_word_ariths)
    have Wv: "unat (word_of_nat (W vid) :: u64) = W vid"
      using sum by (simp add: unat_of_nat)
    have n: "word_of_nat (W vid) + w \<noteq> 0"
      using False sum Wv unat_add_small [of "word_of_nat (W vid)" w]
      by (metis add_is_0 unat_0 unat_eq_zero)
    have step: "voter_set_populate ((vid, w) # ws) m t = voter_set_populate ws
        (bt_insert vid \<lparr>vi_position = 0, vi_weight = VoterWeight (word_of_nat (W vid) + w)\<rparr> m) ?t"
      using False Cons.prems(1) sum Wv n
      by (auto simp: checked_add_def stores_def voter_weight_new_def)
    have le: "?W i \<le> unat ?t" for i
      using Cons.prems(2) [of i] t by (cases "i = vid") auto
    have W: "(\<lambda>i. ?W i + weight_in ws i) = (\<lambda>i. W i + weight_in ((vid, w) # ws) i)"
      by auto
    have sums: "unat ?t + weight_sum ws = unat t + weight_sum ((vid, w) # ws)"
      using t by simp
    have "w \<noteq> 0" using False by simp
    from Cons.IH [OF stores_insert [OF Cons.prems(1) sum this] le, unfolded W sums]
    show ?thesis unfolding iw step by simp
  qed
qed

text \<open>The constructor panics on no input. It refuses the weights that add up to zero or beyond
  the range of \<^verbatim>\<open>u64\<close>; otherwise it returns a well-formed set in which each identity has its
  accumulated weight.\<close>

lemma stores_Nil: "stores m W \<Longrightarrow> m = [] \<longleftrightarrow> (\<forall>vid. W vid = 0)"
  by (metis (no_types, lifting) bt_get.simps(1) bt_get.simps(2) neq_Nil_conv option.discI stores_def
      surj_pair)

lemma weight_sum_zero: "weight_sum ws = 0 \<longleftrightarrow> (\<forall>vid. weight_in ws vid = 0)"
proof (induction ws)
  case (Cons iw ws)
  obtain vid w where iw: "iw = (vid, w)" by (cases iw)
  have "(\<forall>i. (if vid = i then unat w else 0) + weight_in ws i = 0)
      \<longleftrightarrow> unat w = 0 \<and> (\<forall>i. weight_in ws i = 0)"
    by (auto split: if_splits)
  then show ?case using Cons.IH iw by simp
qed simp

lemma weight_in_sum:
  "finite A \<Longrightarrow> fst ` set ws \<subseteq> A \<Longrightarrow> (\<Sum>vid \<in> A. weight_in ws vid) = weight_sum ws"
  by (induction ws) (auto simp: sum.distrib)

lemma weight_in_dom: "weight_in ws vid \<noteq> 0 \<Longrightarrow> vid \<in> fst ` set ws"
  by (induction ws) (auto split: if_splits)

definition number_voters :: "('i \<times> voter_info) list \<Rightarrow> ('i \<times> voter_info) list" where
  "number_voters m = map (\<lambda>(pos, (vid, info)). (vid, info\<lparr>vi_position := pos\<rparr>)) (enumerate 0 m)"

lemma map_fst_number_voters [simp]: "map fst (number_voters m) = map fst m"
  by (simp add: number_voters_def split_beta o_def)
    (metis (no_types, lifting) map_map map_snd_enumerate comp_def map_eq_conv)

lemma nth_number_voters:
  "n < length m \<Longrightarrow> number_voters m ! n = (fst (m ! n), (snd (m ! n))\<lparr>vi_position := n\<rparr>)"
  by (simp add: number_voters_def nth_enumerate_eq split_beta)

lemma length_number_voters [simp]: "length (number_voters m) = length m"
  by (simp add: number_voters_def)

lemma weights_number_voters:
  "map (\<lambda>(vid, v). rw (vi_weight v)) (number_voters m) = map (\<lambda>(vid, v). rw (vi_weight v)) m"
  by (rule nth_equalityI) (auto simp: nth_number_voters split_beta)

lemma bt_get_number_voters:
  "map_option vi_weight (bt_get (number_voters m) vid) = map_option vi_weight (bt_get m vid)"
proof -
  have "map_option vi_weight (bt_get (map (\<lambda>(pos, (vid, info)). (vid, info\<lparr>vi_position := pos\<rparr>))
      (enumerate k m)) vid) = map_option vi_weight (bt_get m vid)" for k
    by (induction m arbitrary: k) auto
  then show ?thesis by (simp add: number_voters_def)
qed

lemma stores_weight_sum:
  assumes "stores m (weight_in ws)"
  shows "sum_list (map (\<lambda>(vid, v). rw (vi_weight v)) m) = weight_sum ws"
proof -
  have dom: "dom (bt_get m) = {vid. weight_in ws vid \<noteq> 0}"
    using stores_None [OF assms] by (simp add: dom_def)
  have get: "rw (vi_weight (the (bt_get m vid))) = weight_in ws vid"
    if vid: "vid \<in> {vid. weight_in ws vid \<noteq> 0}" for vid
  proof -
    obtain v where "bt_get m vid = Some v"
      using stores_None [OF assms, of vid] vid by blast
    then show ?thesis using stores_Some [OF assms] by simp
  qed
  have "sum_list (map (\<lambda>(vid, v). rw (vi_weight v)) m)
      = (\<Sum>vid \<in> dom (bt_get m). rw (vi_weight (the (bt_get m vid))))"
    by (rule bt.sum_iter [OF stores_ok [OF assms]])
  also have "\<dots> = (\<Sum>vid \<in> {vid. weight_in ws vid \<noteq> 0}. weight_in ws vid)"
    unfolding dom by (rule sum.cong [OF refl get])
  also have "\<dots> = (\<Sum>vid \<in> fst ` set ws. weight_in ws vid)"
    by (rule sum.mono_neutral_left) (use weight_in_dom [of ws] in auto)
  finally show ?thesis by (simp add: weight_in_sum)
qed

text \<open>The outcome of the loop as a whole, from the empty map.\<close>

lemma voter_set_populate_new:
  "if weight_sum ws < 2 ^ 64
   then \<exists>m t. voter_set_populate ws bt_empty 0 = Some (Some (m, t)) \<and>
          stores m (weight_in ws) \<and> unat t = weight_sum ws
   else voter_set_populate ws bt_empty 0 = Some None"
  using voter_set_populate_stores [OF stores_empty, of 0 ws] by (simp cong: if_cong)

lemma voter_set_new_refuses:
  assumes "weight_sum ws = 0 \<or> 2 ^ 64 \<le> weight_sum ws"
  shows "voter_set_new ws = Some None"
proof (cases "weight_sum ws < 2 ^ 64")
  case True
  then obtain m t where "voter_set_populate ws bt_empty 0 = Some (Some (m, t))"
    and m: "stores m (weight_in ws)"
    using voter_set_populate_new [of ws] by auto
  moreover have "m = []" using stores_Nil [OF m] weight_sum_zero [of ws] assms True by simp
  ultimately show ?thesis by (simp add: voter_set_new_def)
next
  case False
  then show ?thesis using voter_set_populate_new [of ws] by (simp add: voter_set_new_def)
qed

lemma voter_set_new_accepts:
  assumes "0 < weight_sum ws" "weight_sum ws < 2 ^ 64"
  shows "\<exists>vs. voter_set_new ws = Some (Some vs) \<and> voter_set_ok vs \<and>
    rw (vs_total_weight vs) = weight_sum ws \<and> (\<forall>vid. voter_weight_of vs vid = weight_in ws vid)"
proof -
  obtain m t where pop: "voter_set_populate ws bt_empty 0 = Some (Some (m, t))"
    and m: "stores m (weight_in ws)" and t: "unat t = weight_sum ws"
    using voter_set_populate_new [of ws] assms(2) by auto
  have "m \<noteq> []" using stores_Nil [OF m] weight_sum_zero [of ws] assms(1) by auto
  have "t \<noteq> 0" using t assms(1) by (metis less_irrefl unat_0)
  then obtain th where th: "threshold (VoterWeight t) = Some th"
    using threshold_rw [of "VoterWeight t"] t assms(1) by (auto simp: rw_VoterWeight)
  define vs where "vs = \<lparr>vs_voters = number_voters m, vs_threshold = th, vs_total_weight = VoterWeight t\<rparr>"
  have new: "voter_set_new ws = Some (Some vs)"
    using pop \<open>m \<noteq> []\<close> \<open>t \<noteq> 0\<close> th
    by (simp add: voter_set_new_def vs_def voter_weight_new_def number_voters_def)
  have pos: "0 < rw (vi_weight v)" if "(vid, v) \<in> set m" for vid v
    using bt.set_iter [OF stores_ok [OF m], of vid v] stores_Some [OF m, of vid v]
      stores_None [OF m, of vid] that by simp
  have "0 < rw (vi_weight v)" if "(vid, v) \<in> set (number_voters m)" for vid v
    using that pos by (auto simp: in_set_conv_nth nth_number_voters) (metis nth_mem prod.collapse)
  moreover have "sorted_wrt (<) (map fst m)" using m by (simp add: stores_def bt_ok_def)
  moreover have "number_voters m \<noteq> []"
    using \<open>m \<noteq> []\<close> length_number_voters [of m] by (metis length_0_conv)
  ultimately have ok: "voter_set_ok vs"
    using th t stores_weight_sum [OF m]
    by (auto simp: voter_set_ok_def vs_def nth_number_voters weights_number_voters rw_VoterWeight)
  have "voter_weight_of vs vid = weight_in ws vid" for vid
  proof (cases "bt_get m vid")
    case None
    then show ?thesis
      using bt_get_number_voters [of m vid] stores_None [OF m, of vid]
      by (simp add: voter_weight_of_def voter_set_get_bt [OF ok]) (simp add: vs_def)
  next
    case (Some v)
    then obtain v' where "bt_get (number_voters m) vid = Some v'" "vi_weight v' = vi_weight v"
      using bt_get_number_voters [of m vid] by auto
    then show ?thesis
      using stores_Some [OF m Some]
      by (simp add: voter_weight_of_def voter_set_get_bt [OF ok]) (simp add: vs_def)
  qed
  then show ?thesis using new ok t by (auto simp: vs_def rw_VoterWeight)
qed

lemma voter_set_new_ok: "voter_set_new ws = Some (Some vs) \<Longrightarrow> voter_set_ok vs"
  using voter_set_new_refuses [of ws] voter_set_new_accepts [of ws]
  by (metis gr0I not_less option.distinct(1) option.inject)

lemma voter_set_new_perm:
  assumes "mset ws = mset ws'"
  shows "voter_set_new ws = voter_set_new ws'"
proof (cases "weight_sum ws < 2 ^ 64")
  case True
  have W: "weight_in ws = weight_in ws'" "weight_sum ws = weight_sum ws'"
    using weight_in_perm [OF assms] weight_sum_perm [OF assms] by auto
  obtain m t where m: "voter_set_populate ws bt_empty 0 = Some (Some (m, t))"
      "stores m (weight_in ws)" "unat t = weight_sum ws"
    using voter_set_populate_new [of ws] True by auto
  obtain m' t' where m': "voter_set_populate ws' bt_empty 0 = Some (Some (m', t'))"
      "stores m' (weight_in ws)" "unat t' = weight_sum ws"
    using voter_set_populate_new [of ws'] True W by auto
  have "bt_get m = bt_get m'"
    using m(2) m'(2) by (auto simp: stores_def)
  then have "m = m'" using bt.iter_eqI [of m m'] m(2) m'(2) by (simp add: stores_def)
  moreover have "t = t'" using m(3) m'(3) by (simp add: word_unat_eq_iff)
  ultimately show ?thesis using m m' by (simp add: voter_set_new_def)
next
  case False
  then show ?thesis
    using voter_set_new_refuses [of ws] voter_set_new_refuses [of ws'] weight_sum_perm [OF assms] by simp
qed

lemma voter_set_new_SomeD:
  assumes "voter_set_new ws = Some (Some vs)"
  shows "voter_set_ok vs" "rw (vs_total_weight vs) = weight_sum ws" "voter_weight_of vs vid = weight_in ws vid"
proof -
  show "voter_set_ok vs" by (rule voter_set_new_ok [OF assms])
  have "\<not> (weight_sum ws = 0 \<or> 2 ^ 64 \<le> weight_sum ws)" using voter_set_new_refuses [of ws] assms by force
  then have "0 < weight_sum ws" "weight_sum ws < 2 ^ 64" by linarith+
  then show "rw (vs_total_weight vs) = weight_sum ws" "voter_weight_of vs vid = weight_in ws vid"
    using voter_set_new_accepts [of ws] assms by auto
qed

lemma voter_set_new_ids:
  assumes "voter_set_new ws = Some (Some vs)"
  shows "voter_ids vs = {vid. 0 < weight_in ws vid}"
proof -
  note vs = voter_set_new_SomeD [OF assms]
  have "vid \<in> voter_ids vs \<longleftrightarrow> 0 < voter_weight_of vs vid" for vid
  proof (cases "voter_set_get vs vid")
    case None
    then have "vid \<notin> voter_ids vs" using voter_set_get_None [OF vs(1)] by blast
    then show ?thesis using None unfolding voter_weight_of_def by simp
  next
    case (Some v)
    then have "(vid, v) \<in> set (vs_voters vs)" using voter_set_get_Some [OF vs(1)] by blast
    then show ?thesis
      using voter_set_weight_pos [OF vs(1)] Some by (force simp: voter_weight_of_def voter_ids_def)
  qed
  then show ?thesis using vs(3) by auto
qed

section \<open>Properties\<close>

text \<open>C31. The constructor never panics. It returns nothing exactly when the weights sum up to zero or to more than a
  \<^verbatim>\<open>u64\<close> holds; otherwise the set has the summed weight of every identity, their total, and as threshold the
  total less a third of the total minus one.\<close>

theorem voter_set_new_spec:
  "if 0 < weight_sum ws \<and> weight_sum ws < 2 ^ 64
   then \<exists>vs. voter_set_new ws = Some (Some vs) \<and>
     rw (vs_total_weight vs) = weight_sum ws \<and>
     rw (vs_threshold vs) = weight_sum ws - (weight_sum ws - 1) div 3 \<and>
     (\<forall>vid. voter_set_contains vs vid = (0 < weight_in ws vid) \<and>
       (case voter_set_get vs vid of None \<Rightarrow> 0 | Some v \<Rightarrow> rw (vi_weight v)) = weight_in ws vid)
   else voter_set_new ws = Some None"
proof (cases "0 < weight_sum ws \<and> weight_sum ws < 2 ^ 64")
  case True
  then obtain vs where vs: "voter_set_new ws = Some (Some vs)" "voter_set_ok vs"
    "rw (vs_total_weight vs) = weight_sum ws" "\<And>vid. voter_weight_of vs vid = weight_in ws vid"
    using voter_set_new_accepts by blast
  have "voter_set_contains vs vid = (0 < weight_in ws vid)" for vid
    using voter_set_new_ids [OF vs(1)] by (simp add: voter_set_contains_iff [OF vs(2)])
  then show ?thesis
    using True vs(1,3) threshold_eq [OF vs(2)] vs(4)
    by (simp add: voter_weight_of_def)
next
  case False
  then have "weight_sum ws = 0 \<or> 2 ^ 64 \<le> weight_sum ws" by auto
  then show ?thesis using voter_set_new_refuses [of ws] False by (simp cong: if_cong)
qed

text \<open>The voter set does not depend on the order in which the weights are given.\<close>

theorem voter_set_new_order:
  assumes "mset ws = mset ws'"
  shows "voter_set_new ws = voter_set_new ws'"
  using assms by (rule voter_set_new_perm)

theorem voter_set_new_order_witness:
  "voter_set_new [(1 :: nat, 3), (2, 4), (1, 5)] = voter_set_new [(1, 5), (1, 3), (2, 4)]"
  by (rule voter_set_new_order) simp

text \<open>C30. Any two groups of voters that each reach the threshold of a constructed voter set have in common
  voters of more than the tolerated faulty weight \<open>f = (total - 1) div 3\<close>.\<close>

theorem quorum_intersection:
  assumes "voter_set_new ws = Some (Some vs)"
    and "rw (vs_threshold vs) \<le> weight_of_set vs A" "rw (vs_threshold vs) \<le> weight_of_set vs B"
  shows "(weight_sum ws - 1) div 3 < weight_of_set vs (A \<inter> B)"
proof -
  note vs = voter_set_new_SomeD [OF assms(1)]
  show ?thesis using threshold_intersection [OF vs(1) assms(2,3)] faulty_eq [OF vs(1)] vs(2) by simp
qed

theorem quorum_intersection_witness:
  "\<exists>vs. voter_set_new [(1 :: nat, 1), (2, 1), (3, 1), (4, 1)] = Some (Some vs) \<and>
     (4 - 1) div 3 < weight_of_set vs ({1, 2, 3} \<inter> {2, 3, 4})"
proof -
  let ?ws = "[(1 :: nat, 1 :: u64), (2, 1), (3, 1), (4, 1)]"
  have sum: "weight_sum ?ws = 4" by simp
  then obtain vs where new: "voter_set_new ?ws = Some (Some vs)" using voter_set_new_accepts [of ?ws] by auto
  note vs = voter_set_new_SomeD [OF new]
  have th: "rw (vs_threshold vs) = 3" using threshold_eq [OF vs(1)] vs(2) sum by simp
  have "voter_ids vs = {1, 2, 3, 4}" by (auto simp: voter_set_new_ids [OF new])
  then have "weight_of_set vs {1, 2, 3} = 3" "weight_of_set vs {2, 3, 4} = 3"
    by (simp_all add: weight_of_set_def vs(3))
  then show ?thesis using quorum_intersection [OF new, of "{1, 2, 3}" "{2, 3, 4}"] new sum th by auto
qed

text \<open>The position stored with a voter finds the voter again, positions run from zero to the number of voters,
  and the cyclic index never misses.\<close>

theorem voter_set_positions:
  assumes "voter_set_new ws = Some (Some vs)"
  shows "(voter_set_get vs vid = Some v \<longleftrightarrow> voter_set_nth vs (vi_position v) = Some (vid, v)) \<and>
    (voter_set_get vs vid = Some v \<longrightarrow> vi_position v < voter_set_len vs) \<and>
    (\<exists>x w. voter_set_nth_mod vs n = Some (x, w) \<and> vi_position w = n mod voter_set_len vs \<and> voter_set_get vs x = Some w)"
proof -
  have ok: "voter_set_ok vs" by (rule voter_set_new_ok [OF assms])
  have 1: "voter_set_get vs vid = Some v \<longleftrightarrow> voter_set_nth vs (vi_position v) = Some (vid, v)"
    using voter_set_nth_get [OF ok] voter_set_nth_Some(1) [OF ok] by blast
  moreover have "voter_set_get vs vid = Some v \<longrightarrow> vi_position v < voter_set_len vs"
    using 1 by (auto simp: voter_set_nth_def voter_set_len_def slice_get_Some)
  moreover have "\<exists>x w. voter_set_nth_mod vs n = Some (x, w) \<and> vi_position w = n mod voter_set_len vs \<and> voter_set_get vs x = Some w"
  proof -
    have len: "0 < voter_set_len vs" using voter_set_nonempty [OF ok] by (simp add: voter_set_len_def)
    then have "n mod voter_set_len vs < voter_set_len vs" by simp
    then obtain x w where xw: "voter_set_nth vs (n mod voter_set_len vs) = Some (x, w)"
      by (cases "vs_voters vs ! (n mod voter_set_len vs)") (auto simp: voter_set_nth_def voter_set_len_def slice_get_def)
    then show ?thesis
      using voter_set_nth_Some [OF ok xw] len
      by (intro exI [of _ x] exI [of _ w]) (simp add: voter_set_nth_mod_def voter_set_len_def)
  qed
  ultimately show ?thesis by blast
qed

theorem voter_set_positions_witness:
  "\<exists>vs x w. voter_set_new [(7 :: nat, 1), (2, 1)] = Some (Some vs) \<and> voter_set_nth_mod vs 5 = Some (x, w) \<and>
     voter_set_get vs x = Some w"
proof -
  obtain vs where new: "voter_set_new [(7 :: nat, 1 :: u64), (2, 1)] = Some (Some vs)"
    using voter_set_new_accepts [of "[(7 :: nat, 1 :: u64), (2, 1)]"] by auto
  show ?thesis using voter_set_positions [OF new, of _ _ 5] new by blast
qed

end
