(* ===== verification/Round_Context.thy ===== *)
theory Round_Context
  imports Bitfield Voter_Set
begin

text \<open>
  The context in which a round weighs votes (\<^verbatim>\<open>src/round/context.rs\<close>): each voter has two bits in a
  bitfield, the even one for the prevote and the odd one for the precommit; a vote-node of the graph is the bitfield
  of the votes below it, and equivocators count for every block. The main result is that the computed weight is the
  weight of the set of voters whose bit is set in the node or who equivocated (\<open>context_weight_set\<close>), with no
  saturation.
\<close>

datatype phase = Prevote | Precommit

record 'i context_t =
  cx_voters :: "'i voter_set"
  cx_equivocations :: bitfield

datatype vote = Vote (vote_bit: bit1)

datatype vote_node = VoteNode (node_bits: bitfield)

definition context_new :: "'i voter_set \<Rightarrow> 'i context_t" where
  "context_new voters = \<lparr>cx_voters = voters, cx_equivocations = bitfield_new\<rparr>"

definition vote_new :: "voter_info \<Rightarrow> phase \<Rightarrow> vote" where
  "vote_new v p = Vote (Bit1 (case p of Prevote \<Rightarrow> vi_position v * 2 | Precommit \<Rightarrow> vi_position v * 2 + 1))"

definition vote_voter :: "vote \<Rightarrow> 'i voter_set \<Rightarrow> ('i \<times> voter_info) option" where
  "vote_voter self vs = voter_set_nth vs (position (vote_bit self) div 2)"

text \<open>\<^verbatim>\<open>VoteNode::default\<close> and \<^verbatim>\<open>VoteNode += &VoteNode\<close>.\<close>

instantiation vote_node :: comm_monoid_add
begin

definition zero_vote_node :: vote_node where
  "0 = VoteNode bitfield_new"

definition plus_vote_node :: "vote_node \<Rightarrow> vote_node \<Rightarrow> vote_node" where
  "a + b = VoteNode (bitfield_merge (node_bits a) (node_bits b))"

instance
proof
  fix a b c :: vote_node
  show "a + b + c = a + (b + c)" by (simp add: plus_vote_node_def bitfield_merge_assoc)
  show "a + b = b + a" unfolding plus_vote_node_def by (subst bitfield_merge_commute) (rule refl)
  show "0 + a = a" by (simp add: zero_vote_node_def plus_vote_node_def)
qed

end

definition vote_node_default :: vote_node where
  "vote_node_default = VoteNode bitfield_new"

definition vote_node_add_node :: "vote_node \<Rightarrow> vote_node \<Rightarrow> vote_node" where
  "vote_node_add_node self rhs = VoteNode (bitfield_merge (node_bits self) (node_bits rhs))"

definition vote_node_add_vote :: "vote_node \<Rightarrow> vote \<Rightarrow> vote_node" where
  "vote_node_add_vote self rhs = VoteNode (bitfield_set_bit (node_bits self) (position (vote_bit rhs)))"

definition bits_weight :: "bit1 list \<Rightarrow> 'i voter_set \<Rightarrow> vote_weight" where
  "bits_weight bs voters = fold (\<lambda>b total.
     case vote_voter (Vote b) voters of
       Some (_, v) \<Rightarrow> vote_weight_add_voter total (vi_weight v)
     | None \<Rightarrow> total) bs (VoteWeight 0)"

definition equivocation_weight :: "'i context_t \<Rightarrow> phase \<Rightarrow> vote_weight" where
  "equivocation_weight self p =
     (case p of
        Prevote \<Rightarrow> bits_weight (bitfield_iter1s_even (cx_equivocations self)) (cx_voters self)
      | Precommit \<Rightarrow> bits_weight (bitfield_iter1s_odd (cx_equivocations self)) (cx_voters self))"

definition equivocated :: "'i context_t \<Rightarrow> voter_info \<Rightarrow> phase \<Rightarrow> 'i context_t" where
  "equivocated self v p =
     self\<lparr>cx_equivocations := bitfield_set_bit (cx_equivocations self) (position (vote_bit (vote_new v p)))\<rparr>"

definition context_weight :: "'i context_t \<Rightarrow> vote_node \<Rightarrow> phase \<Rightarrow> vote_weight" where
  "context_weight self n p =
     (if bitfield_is_blank (cx_equivocations self)
      then (case p of
              Prevote \<Rightarrow> bits_weight (bitfield_iter1s_even (node_bits n)) (cx_voters self)
            | Precommit \<Rightarrow> bits_weight (bitfield_iter1s_odd (node_bits n)) (cx_voters self))
      else (case p of
              Prevote \<Rightarrow> bits_weight (bitfield_iter1s_merged_even (node_bits n) (cx_equivocations self)) (cx_voters self)
            | Precommit \<Rightarrow> bits_weight (bitfield_iter1s_merged_odd (node_bits n) (cx_equivocations self)) (cx_voters self)))"

section \<open>The weight of a set of bits\<close>

text \<open>The bit of a voter in a phase, and the voters whose bits are in a set of positions.\<close>

definition phase_bit :: "phase \<Rightarrow> nat \<Rightarrow> nat" where
  "phase_bit p n = (case p of Prevote \<Rightarrow> n * 2 | Precommit \<Rightarrow> n * 2 + 1)"

definition bit_voters :: "'i :: linorder voter_set \<Rightarrow> phase \<Rightarrow> nat set \<Rightarrow> 'i set" where
  "bit_voters vs p B = {vid. \<exists>v. voter_set_get vs vid = Some v \<and> phase_bit p (vi_position v) \<in> B}"

lemma position_vote_new [simp]: "position (vote_bit (vote_new v p)) = phase_bit p (vi_position v)"
  by (simp add: vote_new_def phase_bit_def)

lemma phase_bit_div [simp]: "phase_bit p n div 2 = n"
  by (cases p) (simp_all add: phase_bit_def)

lemma phase_bit_inj [simp]: "phase_bit p m = phase_bit q n \<longleftrightarrow> p = q \<and> m = n"
  by (cases p; cases q) (auto simp: phase_bit_def, presburger+)

lemma bit_voters_Un: "bit_voters vs p (A \<union> B) = bit_voters vs p A \<union> bit_voters vs p B"
  by (auto simp: bit_voters_def)

lemma bit_voters_mono: "A \<subseteq> B \<Longrightarrow> bit_voters vs p A \<subseteq> bit_voters vs p B"
  by (auto simp: bit_voters_def)

lemma bit_voters_empty [simp]: "bit_voters vs p {} = {}"
  by (simp add: bit_voters_def)

lemma voter_set_get_ids: "voter_set_ok vs \<Longrightarrow> voter_set_get vs vid = Some v \<Longrightarrow> vid \<in> voter_ids vs"
  using voter_set_get_None [of vs vid] by auto

lemma bit_voters_subset: "voter_set_ok vs \<Longrightarrow> bit_voters vs p B \<subseteq> voter_ids vs"
  unfolding bit_voters_def by (auto dest: voter_set_get_ids)

text \<open>The fold adds up the weights of the voters of the bits; none of it saturates, since distinct bits
  of a phase belong to distinct voters.\<close>

lemma weight_of_set_insert_voter:
  assumes "voter_set_ok vs" "voter_set_get vs vid = Some v" "vid \<notin> A"
  shows "weight_of_set vs (insert vid A) = weight_of_set vs A + rw (vi_weight v)"
proof -
  have "vid \<in> voter_ids vs" using voter_set_get_None [OF assms(1), of vid] assms(2) by auto
  then show ?thesis using assms(2,3) by (simp add: weight_of_set_def voter_weight_of_def)
qed

lemma fold_weight:
  assumes ok: "voter_set_ok vs" and "distinct bs" "\<And>b. b \<in> set bs \<Longrightarrow> \<exists>n. position b = phase_bit p n"
    and "set bs \<inter> Bit1 ` S = {}" "vw acc = weight_of_set vs (bit_voters vs p S)"
  shows "vw (fold (\<lambda>b acc. case vote_voter (Vote b) vs of
       Some (_, v) \<Rightarrow> vote_weight_add_voter acc (vi_weight v)
     | None \<Rightarrow> acc) bs acc) = weight_of_set vs (bit_voters vs p (S \<union> position ` set bs))"
  using assms(2-)
proof (induction bs arbitrary: S acc)
  case (Cons b bs)
  obtain n where n: "position b = phase_bit p n" using Cons.prems(2) [of b] by auto
  have bS: "position b \<notin> S" using Cons.prems(3) by (cases b) auto
  let ?t = "case vote_voter (Vote b) vs of Some (_, v) \<Rightarrow> vote_weight_add_voter acc (vi_weight v) | None \<Rightarrow> acc"
  have "vw ?t = weight_of_set vs (bit_voters vs p (insert (position b) S))"
  proof (cases "voter_set_nth vs n")
    case None
    have "vi_position v \<noteq> n" if "voter_set_get vs vid = Some v" for vid v
      using voter_set_nth_get [OF ok that] None by auto
    then have "bit_voters vs p (insert (position b) S) = bit_voters vs p S"
      by (auto simp: bit_voters_def n)
    then show ?thesis using None Cons.prems(4) by (simp add: vote_voter_def n)
  next
    case (Some x)
    obtain vid v where x: "x = (vid, v)" by (cases x)
    note v = voter_set_nth_Some [OF ok Some [unfolded x]]
    have "w \<in> bit_voters vs p (insert (position b) S) \<longleftrightarrow> w = vid \<or> w \<in> bit_voters vs p S" for w
    proof (cases "voter_set_get vs w")
      case (Some u)
      have "vi_position u = n \<longleftrightarrow> w = vid"
        using voter_set_position_inj [OF ok Some v(1)] v Some by auto
      then show ?thesis using Some by (simp add: bit_voters_def n)
    qed (use v(1) in \<open>auto simp: bit_voters_def\<close>)
    then have "bit_voters vs p (insert (position b) S) = insert vid (bit_voters vs p S)" by blast
    moreover have "vid \<notin> bit_voters vs p S" using v bS by (auto simp: bit_voters_def n)
    ultimately have "weight_of_set vs (bit_voters vs p (insert (position b) S))
        = weight_of_set vs (bit_voters vs p S) + rw (vi_weight v)"
      using weight_of_set_insert_voter [OF ok v(1)] by simp
    moreover from this have "vw acc + rw (vi_weight v) < 2 ^ 64"
      using weight_of_set_less [OF ok, of "bit_voters vs p (insert (position b) S)"] Cons.prems(4) by simp
    ultimately show ?thesis
      using Some x Cons.prems(4) by (simp add: vote_voter_def n vw_add_voter)
  qed
  moreover have "set bs \<inter> Bit1 ` insert (position b) S = {}"
    using Cons.prems(1,3) by (cases b) auto
  ultimately have "vw (fold (\<lambda>b acc. case vote_voter (Vote b) vs of
       Some (_, v) \<Rightarrow> vote_weight_add_voter acc (vi_weight v) | None \<Rightarrow> acc) bs ?t)
     = weight_of_set vs (bit_voters vs p (insert (position b) S \<union> position ` set bs))"
    using Cons.prems(1,2) by (intro Cons.IH) auto
  then show ?case by simp
qed simp

lemma bits_weight_set:
  assumes ok: "voter_set_ok vs" and "distinct bs" "\<And>b. b \<in> set bs \<Longrightarrow> \<exists>n. position b = phase_bit p n"
  shows "vw (bits_weight bs vs) = weight_of_set vs (bit_voters vs p (position ` set bs))"
  using fold_weight [OF assms, of "{}" "VoteWeight 0"] by (simp add: bits_weight_def vw_VoteWeight)

lemma iter1s_positions:
  "position ` set (bitfield_iter1s_even bf) = {p \<in> bitfield_set bf. even p}"
  "position ` set (bitfield_iter1s_odd bf) = {p \<in> bitfield_set bf. odd p}"
  using bitfield_set_bound [of _ bf] by (auto simp: iter1s_even_eq iter1s_odd_eq image_image)

lemma iter1s_distinct: "distinct (bitfield_iter1s_even bf)" "distinct (bitfield_iter1s_odd bf)"
  by (simp_all add: iter1s_even_eq iter1s_odd_eq distinct_map inj_on_def)

lemma even_phase_bit: "even p \<Longrightarrow> \<exists>n. p = phase_bit Prevote n"
  by (auto simp: phase_bit_def elim!: evenE)

lemma odd_phase_bit: "odd p \<Longrightarrow> \<exists>n. p = phase_bit Precommit n"
  by (auto simp: phase_bit_def elim!: oddE)

lemma bits_weight_even:
  assumes "voter_set_ok vs"
  shows "vw (bits_weight (bitfield_iter1s_even bf) vs) = weight_of_set vs (bit_voters vs Prevote (bitfield_set bf))"
proof -
  have "\<exists>n. position b = phase_bit Prevote n" if "b \<in> set (bitfield_iter1s_even bf)" for b
    using that iter1s_positions(1) [of bf] by (intro even_phase_bit) auto
  moreover have "bit_voters vs Prevote {p \<in> bitfield_set bf. even p} = bit_voters vs Prevote (bitfield_set bf)"
    by (auto simp: bit_voters_def phase_bit_def)
  ultimately show ?thesis
    using bits_weight_set [OF assms iter1s_distinct(1), of bf Prevote] by (simp add: iter1s_positions)
qed

lemma bits_weight_odd:
  assumes "voter_set_ok vs"
  shows "vw (bits_weight (bitfield_iter1s_odd bf) vs) = weight_of_set vs (bit_voters vs Precommit (bitfield_set bf))"
proof -
  have "\<exists>n. position b = phase_bit Precommit n" if "b \<in> set (bitfield_iter1s_odd bf)" for b
    using that iter1s_positions(2) [of bf] by (intro odd_phase_bit) auto
  moreover have "bit_voters vs Precommit {p \<in> bitfield_set bf. odd p} = bit_voters vs Precommit (bitfield_set bf)"
    by (auto simp: bit_voters_def phase_bit_def)
  ultimately show ?thesis
    using bits_weight_set [OF assms iter1s_distinct(2), of bf Precommit] by (simp add: iter1s_positions)
qed

text \<open>The voters that count for a node: those whose bit is set there, and the equivocators.\<close>

definition equivocators :: "'i :: linorder context_t \<Rightarrow> phase \<Rightarrow> 'i set" where
  "equivocators cx p = bit_voters (cx_voters cx) p (bitfield_set (cx_equivocations cx))"

definition counted :: "'i :: linorder context_t \<Rightarrow> vote_node \<Rightarrow> phase \<Rightarrow> 'i set" where
  "counted cx n p = bit_voters (cx_voters cx) p (bitfield_set (node_bits n)) \<union> equivocators cx p"

lemma equivocation_weight_set:
  "voter_set_ok (cx_voters cx) \<Longrightarrow> vw (equivocation_weight cx p) = weight_of_set (cx_voters cx) (equivocators cx p)"
  by (cases p) (simp_all add: equivocation_weight_def equivocators_def bits_weight_even bits_weight_odd)

lemma bitfield_blank_set: "bitfield_is_blank bf \<Longrightarrow> bitfield_set bf = {}"
  using bitfield_set_bound [of _ bf] by (auto simp: bitfield_is_blank_def)

lemma context_weight_set:
  assumes "voter_set_ok (cx_voters cx)"
  shows "vw (context_weight cx n p) = weight_of_set (cx_voters cx) (counted cx n p)"
  using assms
  by (cases p) (simp_all add: context_weight_def counted_def equivocators_def bits_weight_even bits_weight_odd
      bitfield_blank_set iter1s_merged_even_eq iter1s_merged_odd_eq bitfield_set_merge bit_voters_Un)

end
