(* ===== verification/Messages.thy ===== *)
theory Messages
  imports Prelude
begin

text \<open>
  The messages of the protocol (\<^verbatim>\<open>src/lib.rs\<close>): votes, signed votes, commits in their plain and
  compact form, catch-ups, equivocation proofs and the log of imported votes. A signature and an identity are type
  parameters, as in the source.
\<close>

record 'h prevote =
  pv_target_hash :: 'h
  pv_target_number :: nat

record 'h precommit =
  pc_target_hash :: 'h
  pc_target_number :: nat

record 'h primary_propose =
  pp_target_hash :: 'h
  pp_target_number :: nat

definition prevote_new :: "'h \<Rightarrow> nat \<Rightarrow> 'h prevote" where
  "prevote_new target_hash target_number = \<lparr>pv_target_hash = target_hash, pv_target_number = target_number\<rparr>"

definition precommit_new :: "'h \<Rightarrow> nat \<Rightarrow> 'h precommit" where
  "precommit_new target_hash target_number = \<lparr>pc_target_hash = target_hash, pc_target_number = target_number\<rparr>"

definition primary_propose_new :: "'h \<Rightarrow> nat \<Rightarrow> 'h primary_propose" where
  "primary_propose_new target_hash target_number =
     \<lparr>pp_target_hash = target_hash, pp_target_number = target_number\<rparr>"

record ('i, 'p, 's) equivocation =
  eq_round_number :: u64
  eq_identity :: 'i
  eq_first :: "'p \<times> 's"
  eq_second :: "'p \<times> 's"

datatype 'h message = MPrevote "'h prevote" | MPrecommit "'h precommit" | MPrimaryPropose "'h primary_propose"

fun message_target :: "'h message \<Rightarrow> 'h \<times> nat" where
  "message_target (MPrevote v) = (pv_target_hash v, pv_target_number v)"
| "message_target (MPrecommit v) = (pc_target_hash v, pc_target_number v)"
| "message_target (MPrimaryPropose v) = (pp_target_hash v, pp_target_number v)"

record ('h, 's, 'i) signed_message =
  sm_message :: "'h message"
  sm_signature :: 's
  sm_id :: 'i

definition signed_message_target :: "('h, 's, 'i) signed_message \<Rightarrow> 'h \<times> nat" where
  "signed_message_target self = message_target (sm_message self)"

record ('h, 's, 'i) signed_prevote =
  sv_prevote :: "'h prevote"
  sv_signature :: 's
  sv_id :: 'i

record ('h, 's, 'i) signed_precommit =
  sc_precommit :: "'h precommit"
  sc_signature :: 's
  sc_id :: 'i

record ('h, 's, 'i) commit =
  cm_target_hash :: 'h
  cm_target_number :: nat
  cm_precommits :: "('h, 's, 'i) signed_precommit list"

type_synonym ('s, 'i) multi_auth_data = "('s \<times> 'i) list"

record ('h, 's, 'i) compact_commit =
  cc_target_hash :: 'h
  cc_target_number :: nat
  cc_precommits :: "'h precommit list"
  cc_auth_data :: "('s, 'i) multi_auth_data"

record ('h, 's, 'i) catch_up =
  cu_round_number :: u64
  cu_prevotes :: "('h, 's, 'i) signed_prevote list"
  cu_precommits :: "('h, 's, 'i) signed_precommit list"
  cu_base_hash :: 'h
  cu_base_number :: nat

definition commit_from_compact :: "('h, 's, 'i) compact_commit \<Rightarrow> ('h, 's, 'i) commit" where
  "commit_from_compact c =
     \<lparr>cm_target_hash = cc_target_hash c,
      cm_target_number = cc_target_number c,
      cm_precommits = map (\<lambda>(precommit, (signature, vid)).
          \<lparr>sc_precommit = precommit, sc_signature = signature, sc_id = vid\<rparr>)
        (zip (cc_precommits c) (cc_auth_data c))\<rparr>"

definition compact_from_commit :: "('h, 's, 'i) commit \<Rightarrow> ('h, 's, 'i) compact_commit" where
  "compact_from_commit c =
     \<lparr>cc_target_hash = cm_target_hash c,
      cc_target_number = cm_target_number c,
      cc_precommits = map sc_precommit (cm_precommits c),
      cc_auth_data = map (\<lambda>signed. (sc_signature signed, sc_id signed)) (cm_precommits c)\<rparr>"

section \<open>The log of imported votes\<close>

record ('h, 's, 'i) historical_votes =
  hv_seen :: "('h, 's, 'i) signed_message list"
  hv_prevote_idx :: "u64 option"
  hv_precommit_idx :: "u64 option"

definition historical_votes_new :: "('h, 's, 'i) historical_votes" where
  "historical_votes_new = \<lparr>hv_seen = [], hv_prevote_idx = None, hv_precommit_idx = None\<rparr>"

definition historical_votes_new_with ::
  "('h, 's, 'i) signed_message list \<Rightarrow> u64 option \<Rightarrow> u64 option \<Rightarrow> ('h, 's, 'i) historical_votes" where
  "historical_votes_new_with seen prevote_idx precommit_idx =
     \<lparr>hv_seen = seen, hv_prevote_idx = prevote_idx, hv_precommit_idx = precommit_idx\<rparr>"

definition push_vote ::
  "('h, 's, 'i) historical_votes \<Rightarrow> ('h, 's, 'i) signed_message \<Rightarrow> ('h, 's, 'i) historical_votes" where
  "push_vote self msg = self\<lparr>hv_seen := hv_seen self @ [msg]\<rparr>"

definition set_prevoted_idx :: "('h, 's, 'i) historical_votes \<Rightarrow> ('h, 's, 'i) historical_votes" where
  "set_prevoted_idx self = self\<lparr>hv_prevote_idx := Some (of_nat (length (hv_seen self)))\<rparr>"

definition set_precommitted_idx :: "('h, 's, 'i) historical_votes \<Rightarrow> ('h, 's, 'i) historical_votes" where
  "set_precommitted_idx self = self\<lparr>hv_precommit_idx := Some (of_nat (length (hv_seen self)))\<rparr>"

section \<open>Properties\<close>

text \<open>C34. A commit survives the compact form unchanged; a compact commit survives the plain form exactly when it has
  as many signatures as precommits, and otherwise loses the unpaired ones.\<close>

theorem compact_commit_roundtrip:
  "commit_from_compact (compact_from_commit c) = c \<and>
   (compact_from_commit (commit_from_compact cc) = cc
     \<longleftrightarrow> length (cc_precommits cc) = length (cc_auth_data cc)) \<and>
   length (cm_precommits (commit_from_compact cc)) = min (length (cc_precommits cc)) (length (cc_auth_data cc))"
proof -
  have "commit_from_compact (compact_from_commit c) = c"
    by (simp add: commit_from_compact_def compact_from_commit_def zip_map_map zip_same_conv_map comp_def map_idI)
  moreover have "compact_from_commit (commit_from_compact cc) = cc
      \<longleftrightarrow> length (cc_precommits cc) = length (cc_auth_data cc)"
  proof
    assume eq: "compact_from_commit (commit_from_compact cc) = cc"
    have "length (cc_precommits (compact_from_commit (commit_from_compact cc)))
        = length (cc_auth_data (compact_from_commit (commit_from_compact cc)))"
      by (simp add: compact_from_commit_def)
    then show "length (cc_precommits cc) = length (cc_auth_data cc)" by (simp only: eq)
  next
    assume "length (cc_precommits cc) = length (cc_auth_data cc)"
    then show "compact_from_commit (commit_from_compact cc) = cc"
      by (simp add: commit_from_compact_def compact_from_commit_def comp_def split_beta)
  qed
  ultimately show ?thesis by (simp add: commit_from_compact_def)
qed

end
