(* ===== verification/Round.thy ===== *)
theory Round
  imports Vote_Graph Round_Context Messages
begin

text \<open>
  A round of voting (\<^verbatim>\<open>src/round.rs\<close>): the trackers of the prevotes and precommits of each voter, the vote
  graph, the memoised prevote-GHOST and precommit-GHOST, the finalized block, the estimate and whether the
  round is completable. This theory holds the definitions, one per function of the source.

  A method with \<^verbatim>\<open>&mut self\<close> returns the new round; \<open>import_prevote\<close> and \<open>import_precommit\<close> return it together
  with the \<^verbatim>\<open>Result\<close>, because the tracker has changed also when the graph refuses the vote. \<open>None\<close> is a
  panic or a loop that does not end.
\<close>

section \<open>Tracking votes\<close>

datatype ('p, 's) vote_multiplicity = Single 'p 's | Equivocated "'p \<times> 's" "'p \<times> 's"

fun vote_multiplicity_contains :: "('p, 's) vote_multiplicity \<Rightarrow> 'p \<Rightarrow> 's \<Rightarrow> bool" where
  "vote_multiplicity_contains (Single v s) vote signature = (v = vote \<and> s = signature)"
| "vote_multiplicity_contains (Equivocated (v1, s1) (v2, s2)) vote signature =
     (v1 = vote \<and> s1 = signature \<or> v2 = vote \<and> s2 = signature)"

record ('i, 'p, 's) vote_tracker =
  vt_votes :: "('i, ('p, 's) vote_multiplicity) btree"
  vt_current_weight :: vote_weight

record ('p, 's) add_vote_result =
  av_multiplicity :: "('p, 's) vote_multiplicity option"
  av_duplicated :: bool

definition vote_tracker_new :: "('i, 'p, 's) vote_tracker" where
  "vote_tracker_new = \<lparr>vt_votes = bt_empty, vt_current_weight = VoteWeight 0\<rparr>"

definition add_vote ::
  "('i :: linorder, 'p, 's) vote_tracker \<Rightarrow> 'i \<Rightarrow> 'p \<Rightarrow> 's \<Rightarrow> voter_weight
     \<Rightarrow> ('i, 'p, 's) vote_tracker \<times> ('p, 's) add_vote_result" where
  "add_vote self vid vote signature weight =
     (case bt_get (vt_votes self) vid of
        None \<Rightarrow>
          (let multiplicity = Single vote signature
           in (self\<lparr>vt_current_weight := vote_weight_add_voter (vt_current_weight self) weight,
                    vt_votes := bt_insert vid multiplicity (vt_votes self)\<rparr>,
               \<lparr>av_multiplicity = Some multiplicity, av_duplicated = False\<rparr>))
      | Some occupied \<Rightarrow>
          if vote_multiplicity_contains occupied vote signature
          then (self, \<lparr>av_multiplicity = None, av_duplicated = True\<rparr>)
          else (case occupied of
                  Single v s \<Rightarrow>
                    (let new_val = Equivocated (v, s) (vote, signature)
                     in (self\<lparr>vt_votes := bt_insert vid new_val (vt_votes self)\<rparr>,
                         \<lparr>av_multiplicity = Some new_val, av_duplicated = False\<rparr>))
                | Equivocated _ _ \<Rightarrow> (self, \<lparr>av_multiplicity = None, av_duplicated = False\<rparr>)))"

fun multiplicity_votes :: "'i \<Rightarrow> ('p, 's) vote_multiplicity \<Rightarrow> ('i \<times> 'p \<times> 's) list" where
  "multiplicity_votes vid (Single v s) = [(vid, v, s)]"
| "multiplicity_votes vid (Equivocated (v1, s1) (v2, s2)) = [(vid, v1, s1), (vid, v2, s2)]"

definition tracker_votes :: "('i, 'p, 's) vote_tracker \<Rightarrow> ('i \<times> 'p \<times> 's) list" where
  "tracker_votes self = concat (map (\<lambda>(vid, m). multiplicity_votes vid m) (vt_votes self))"

definition participation :: "('i, 'p, 's) vote_tracker \<Rightarrow> vote_weight \<times> nat" where
  "participation self = (vt_current_weight self, length (vt_votes self))"

section \<open>The round\<close>

record 'h state =
  st_prevote_ghost :: "('h \<times> nat) option"
  st_finalized :: "('h \<times> nat) option"
  st_estimate :: "('h \<times> nat) option"
  st_completable :: bool

definition state_genesis :: "'h \<times> nat \<Rightarrow> 'h state" where
  "state_genesis genesis = \<lparr>st_prevote_ghost = Some genesis, st_finalized = Some genesis,
     st_estimate = Some genesis, st_completable = True\<rparr>"

record ('i, 'h) round_params =
  rp_round_number :: u64
  rp_voters :: "'i voter_set"
  rp_base :: "'h \<times> nat"

record ('i, 'h, 's) round =
  r_round_number :: u64
  r_context :: "'i context_t"
  r_graph :: "('h, vote_node) vote_graph"
  r_prevote :: "('i, 'h prevote, 's) vote_tracker"
  r_precommit :: "('i, 'h precommit, 's) vote_tracker"
  r_historical_votes :: "('h, 's, 'i) historical_votes"
  r_prevote_ghost :: "('h \<times> nat) option"
  r_precommit_ghost :: "('h \<times> nat) option"
  r_finalized :: "('h \<times> nat) option"
  r_estimate :: "('h \<times> nat) option"
  r_completable :: bool

record ('i, 'p, 's) import_result =
  ir_valid_voter :: bool
  ir_duplicated :: bool
  ir_equivocation :: "('i, 'p, 's) equivocation option"

definition import_result_default :: "('i, 'p, 's) import_result" where
  "import_result_default = \<lparr>ir_valid_voter = False, ir_duplicated = False, ir_equivocation = None\<rparr>"

definition round_new :: "('i, 'h :: linorder) round_params \<Rightarrow> ('i, 'h, 's) round" where
  "round_new round_params =
     (let (base_hash, base_number) = rp_base round_params
      in \<lparr>r_round_number = rp_round_number round_params,
          r_context = context_new (rp_voters round_params),
          r_graph = vote_graph_new base_hash base_number vote_node_default,
          r_prevote = vote_tracker_new,
          r_precommit = vote_tracker_new,
          r_historical_votes = historical_votes_new,
          r_prevote_ghost = None,
          r_precommit_ghost = None,
          r_finalized = None,
          r_estimate = None,
          r_completable = False\<rparr>)"

definition round_threshold :: "('i, 'h, 's) round \<Rightarrow> voter_weight" where
  "round_threshold self = vs_threshold (cx_voters (r_context self))"

text \<open>The closure of \<^verbatim>\<open>update\<close>, with the values it captures as arguments.\<close>

definition possible_to_precommit :: "'i context_t \<Rightarrow> voter_weight \<Rightarrow> vote_weight \<Rightarrow> vote_node \<Rightarrow> bool" where
  "possible_to_precommit ctx thr current_precommits nd =
     (let tolerated_equivocations = voter_weight_sub (vs_total_weight (cx_voters ctx)) thr;
          current_equivocations = equivocation_weight ctx Precommit;
          additional_equiv = tolerated_equivocations - current_equivocations;
          remaining_commit_votes = voter_weight_sub_vote (vs_total_weight (cx_voters ctx)) current_precommits;
          precommitted_for = context_weight ctx nd Precommit;
          possible_equivocations = min (current_precommits - precommitted_for) additional_equiv;
          full_possible_weight = precommitted_for + remaining_commit_votes + possible_equivocations
      in vote_weight_ge_voter full_possible_weight thr)"

definition round_update :: "('i, 'h :: linorder, 's) round \<Rightarrow> ('i, 'h, 's) round option" where
  "round_update self =
     (let threshold = round_threshold self
      in if vote_weight_lt_voter (vt_current_weight (r_prevote self)) threshold then Some self
         else case r_prevote_ghost self of
           None \<Rightarrow> Some self
         | Some (g_hash, g_num) \<Rightarrow> do {
             let ctx = r_context self;
             let current_precommits = vt_current_weight (r_precommit self);
             self \<leftarrow> (if vote_weight_ge_voter current_precommits (round_threshold self)
               then do {
                 f \<leftarrow> find_ancestor (r_graph self) g_hash g_num
                   (\<lambda>v. vote_weight_ge_voter (context_weight ctx v Precommit) threshold);
                 Some (self\<lparr>r_finalized := f\<rparr>)
               }
               else Some self);
             let possible = possible_to_precommit ctx threshold current_precommits;
             if vote_weight_ge_voter (vt_current_weight (r_precommit self)) threshold
             then do {
               estimate \<leftarrow> find_ancestor (r_graph self) g_hash g_num possible;
               let self = self\<lparr>r_estimate := estimate\<rparr>;
               completable \<leftarrow> (case estimate of
                   None \<Rightarrow> Some False
                 | Some (b_hash, b_num) \<Rightarrow>
                     if b_hash \<noteq> g_hash then Some True
                     else do {
                       x \<leftarrow> find_ghost (r_graph self) (Some (b_hash, b_num)) possible;
                       Some (case x of None \<Rightarrow> True | Some x \<Rightarrow> x = (g_hash, g_num))
                     });
               Some (self\<lparr>r_completable := completable\<rparr>)
             }
             else Some (self\<lparr>r_estimate := Some (g_hash, g_num)\<rparr>)
           })"

definition import_prevote ::
  "('h \<Rightarrow> 'h \<Rightarrow> error + 'h list) \<Rightarrow> ('i :: linorder, 'h :: linorder, 's) round \<Rightarrow> 'h prevote \<Rightarrow> 'i \<Rightarrow> 's
     \<Rightarrow> (('i, 'h, 's) round \<times> (error + ('i, 'h prevote, 's) import_result)) option" where
  "import_prevote chain_ancestry self prevote signer signature =
     (let import_result = import_result_default
      in case voter_set_get (cx_voters (r_context self)) signer of
           None \<Rightarrow> Some (self, Inr import_result)
         | Some info \<Rightarrow>
             (let import_result = import_result\<lparr>ir_valid_voter := True\<rparr>;
                  (tracker, added) = add_vote (r_prevote self) signer prevote signature (vi_weight info);
                  self = self\<lparr>r_prevote := tracker\<rparr>
              in case av_multiplicity added of
                   None \<Rightarrow> Some (self, Inr (import_result\<lparr>ir_duplicated := av_duplicated added\<rparr>))
                 | Some multiplicity \<Rightarrow> do {
                     let log = push_vote (r_historical_votes self)
                       \<lparr>sm_message = MPrevote prevote, sm_signature = signature, sm_id = signer\<rparr>;
                     r \<leftarrow> (case multiplicity of
                         Single single_vote _ \<Rightarrow> do {
                           inserted \<leftarrow> vote_graph_insert chain_ancestry vote_node_add_vote (r_graph self)
                             (pv_target_hash single_vote) (pv_target_number single_vote) (vote_new info Prevote);
                           Some (case inserted of
                               Inl e \<Rightarrow> Inl e
                             | Inr graph \<Rightarrow> Inr (self\<lparr>r_graph := graph, r_historical_votes := log\<rparr>, None))
                         }
                       | Equivocated first second \<Rightarrow>
                           Some (Inr (self\<lparr>r_context := equivocated (r_context self) info Prevote,
                                           r_historical_votes := log\<rparr>,
                             Some \<lparr>eq_round_number = r_round_number self, eq_identity = signer,
                                   eq_first = first, eq_second = second\<rparr>)));
                     case r of
                       Inl e \<Rightarrow> Some (self, Inl e)
                     | Inr (self, equivocation) \<Rightarrow> do {
                         let threshold = round_threshold self;
                         self \<leftarrow> (if vote_weight_ge_voter (vt_current_weight (r_prevote self)) threshold
                           then do {
                             ghost \<leftarrow> find_ghost (r_graph self) (r_prevote_ghost self)
                               (\<lambda>v. vote_weight_ge_voter (context_weight (r_context self) v Prevote) threshold);
                             Some (self\<lparr>r_prevote_ghost := ghost\<rparr>)
                           }
                           else Some self);
                         self \<leftarrow> round_update self;
                         Some (self, Inr (import_result\<lparr>ir_equivocation := equivocation\<rparr>))
                       }
                   }))"

definition import_precommit ::
  "('h \<Rightarrow> 'h \<Rightarrow> error + 'h list) \<Rightarrow> ('i :: linorder, 'h :: linorder, 's) round \<Rightarrow> 'h precommit \<Rightarrow> 'i \<Rightarrow> 's
     \<Rightarrow> (('i, 'h, 's) round \<times> (error + ('i, 'h precommit, 's) import_result)) option" where
  "import_precommit chain_ancestry self precommit signer signature =
     (let import_result = import_result_default
      in case voter_set_get (cx_voters (r_context self)) signer of
           None \<Rightarrow> Some (self, Inr import_result)
         | Some info \<Rightarrow>
             (let import_result = import_result\<lparr>ir_valid_voter := True\<rparr>;
                  (tracker, added) = add_vote (r_precommit self) signer precommit signature (vi_weight info);
                  self = self\<lparr>r_precommit := tracker\<rparr>
              in case av_multiplicity added of
                   None \<Rightarrow> Some (self, Inr (import_result\<lparr>ir_duplicated := av_duplicated added\<rparr>))
                 | Some multiplicity \<Rightarrow> do {
                     let log = push_vote (r_historical_votes self)
                       \<lparr>sm_message = MPrecommit precommit, sm_signature = signature, sm_id = signer\<rparr>;
                     r \<leftarrow> (case multiplicity of
                         Single single_vote _ \<Rightarrow> do {
                           inserted \<leftarrow> vote_graph_insert chain_ancestry vote_node_add_vote (r_graph self)
                             (pc_target_hash single_vote) (pc_target_number single_vote) (vote_new info Precommit);
                           Some (case inserted of
                               Inl e \<Rightarrow> Inl e
                             | Inr graph \<Rightarrow> Inr (self\<lparr>r_graph := graph, r_historical_votes := log\<rparr>, None))
                         }
                       | Equivocated first second \<Rightarrow>
                           Some (Inr (self\<lparr>r_context := equivocated (r_context self) info Precommit,
                                           r_historical_votes := log\<rparr>,
                             Some \<lparr>eq_round_number = r_round_number self, eq_identity = signer,
                                   eq_first = first, eq_second = second\<rparr>)));
                     case r of
                       Inl e \<Rightarrow> Some (self, Inl e)
                     | Inr (self, equivocation) \<Rightarrow> do {
                         self \<leftarrow> round_update self;
                         Some (self, Inr (import_result\<lparr>ir_equivocation := equivocation\<rparr>))
                       }
                   }))"

definition round_state :: "('i, 'h, 's) round \<Rightarrow> 'h state" where
  "round_state self = \<lparr>st_prevote_ghost = r_prevote_ghost self, st_finalized = r_finalized self,
     st_estimate = r_estimate self, st_completable = r_completable self\<rparr>"

definition precommit_ghost ::
  "('i, 'h :: linorder, 's) round \<Rightarrow> (('i, 'h, 's) round \<times> ('h \<times> nat) option) option" where
  "precommit_ghost self = do {
     let threshold = round_threshold self;
     self \<leftarrow> (if vote_weight_ge_voter (vt_current_weight (r_precommit self)) threshold
       then do {
         ghost \<leftarrow> find_ghost (r_graph self) (r_precommit_ghost self)
           (\<lambda>v. vote_weight_ge_voter (context_weight (r_context self) v Precommit) threshold);
         Some (self\<lparr>r_precommit_ghost := ghost\<rparr>)
       }
       else Some self);
     Some (self, r_precommit_ghost self)
   }"

text \<open>\<^verbatim>\<open>finalizing_precommits\<close>: the iterator \<^verbatim>\<open>YieldVotes\<close> by its \<^verbatim>\<open>next\<close>, and the list it yields.\<close>

fun yield_votes_next :: "('p, 's) vote_multiplicity \<Rightarrow> nat \<Rightarrow> (('p \<times> 's) \<times> nat) option" where
  "yield_votes_next (Single v s) yielded = (if yielded = 0 then Some ((v, s), yielded + 1) else None)"
| "yield_votes_next (Equivocated a b) yielded =
     (if yielded = 0 then Some (a, yielded + 1) else if yielded = 1 then Some (b, yielded + 1) else None)"

function yield_votes :: "('p, 's) vote_multiplicity \<Rightarrow> nat \<Rightarrow> ('p \<times> 's) list" where
  "yield_votes multiplicity yielded =
     (case yield_votes_next multiplicity yielded of
        None \<Rightarrow> []
      | Some (x, yielded') \<Rightarrow> x # yield_votes multiplicity yielded')"
  by pat_completeness auto
termination
proof (relation "measure (\<lambda>(m, yielded). 2 - yielded)")
  fix m :: "('p, 's) vote_multiplicity" and yielded x xa y
  assume "yield_votes_next m yielded = Some x" "(xa, y) = x"
  then show "((m, y), (m, yielded)) \<in> measure (\<lambda>(m, yielded). 2 - yielded)"
    by (cases m) (auto split: if_splits)
qed simp

declare yield_votes.simps [simp del]

definition finalizing_precommits ::
  "('h \<Rightarrow> 'h \<Rightarrow> error + 'h list) \<Rightarrow> ('i, 'h, 's) round \<Rightarrow> ('h, 's, 'i) signed_precommit list option" where
  "finalizing_precommits chain_ancestry self = do {
     (f_hash, f_num) \<leftarrow> r_finalized self;
     Some (concat (map (\<lambda>(vid, multiplicity).
         map (\<lambda>(v, s). \<lparr>sc_precommit = v, sc_signature = s, sc_id = vid\<rparr>) (yield_votes multiplicity 0))
       (filter (\<lambda>(vid, multiplicity).
           case multiplicity of
             Single v _ \<Rightarrow> is_equal_or_descendent_of chain_ancestry f_hash (pc_target_hash v)
           | Equivocated _ _ \<Rightarrow> True)
         (vt_votes (r_precommit self)))))
   }"

definition round_base :: "('i, 'h, 's) round \<Rightarrow> 'h \<times> nat" where
  "round_base self = vote_graph_base (r_graph self)"

definition primary_voter :: "('i, 'h, 's) round \<Rightarrow> ('i \<times> voter_info) option" where
  "primary_voter self = voter_set_nth_mod (cx_voters (r_context self)) (unat (r_round_number self))"

definition prevote_participation :: "('i, 'h, 's) round \<Rightarrow> vote_weight \<times> nat" where
  "prevote_participation self = participation (r_prevote self)"

definition precommit_participation :: "('i, 'h, 's) round \<Rightarrow> vote_weight \<times> nat" where
  "precommit_participation self = participation (r_precommit self)"

definition round_prevotes :: "('i, 'h, 's) round \<Rightarrow> ('i \<times> 'h prevote \<times> 's) list" where
  "round_prevotes self = tracker_votes (r_prevote self)"

definition round_precommits :: "('i, 'h, 's) round \<Rightarrow> ('i \<times> 'h precommit \<times> 's) list" where
  "round_precommits self = tracker_votes (r_precommit self)"

definition set_prevoted_index :: "('i, 'h, 's) round \<Rightarrow> ('i, 'h, 's) round" where
  "set_prevoted_index self = self\<lparr>r_historical_votes := set_prevoted_idx (r_historical_votes self)\<rparr>"

definition set_precommitted_index :: "('i, 'h, 's) round \<Rightarrow> ('i, 'h, 's) round" where
  "set_precommitted_index self = self\<lparr>r_historical_votes := set_precommitted_idx (r_historical_votes self)\<rparr>"

definition prevoted_index :: "('i, 'h, 's) round \<Rightarrow> u64 option" where
  "prevoted_index self = hv_prevote_idx (r_historical_votes self)"

definition precommitted_index :: "('i, 'h, 's) round \<Rightarrow> u64 option" where
  "precommitted_index self = hv_precommit_idx (r_historical_votes self)"

end
