(* ===== verification/Round_Inv.thy ===== *)
theory Round_Inv
  imports Round Ghost
begin

text \<open>
  The invariant of a round over a chain that keeps its contract, in terms of an abstract view of the round: for
  each phase, the first vote of every voter seen so far and whether the voter has equivocated (\<open>view\<close>). The weight the round
  computes for a block in a phase is the weight of its \<open>supporters\<close>: the voters whose first vote is at or above the
  block, and all equivocators.
\<close>

section \<open>The abstract view\<close>

fun first_vote :: "('p, 's) vote_multiplicity \<Rightarrow> 'p" where
  "first_vote (Single v s) = v"
| "first_vote (Equivocated (v, s) _) = v"

fun is_equivocated :: "('p, 's) vote_multiplicity \<Rightarrow> bool" where
  "is_equivocated (Single v s) = False"
| "is_equivocated (Equivocated a b) = True"

definition tracker_view :: "('p \<Rightarrow> 'h) \<Rightarrow> ('i, 'p, 's) vote_tracker \<Rightarrow> 'i \<rightharpoonup> 'h \<times> bool" where
  "tracker_view tgt vt vid = map_option (\<lambda>m. (tgt (first_vote m), is_equivocated m)) (bt_get (vt_votes vt) vid)"

definition view :: "('i, 'h, 's) round \<Rightarrow> phase \<Rightarrow> 'i \<rightharpoonup> 'h \<times> bool" where
  "view r p = (case p of
     Prevote \<Rightarrow> tracker_view pv_target_hash (r_prevote r)
   | Precommit \<Rightarrow> tracker_view pc_target_hash (r_precommit r))"

definition current :: "('i, 'h, 's) round \<Rightarrow> phase \<Rightarrow> vote_weight" where
  "current r p = (case p of Prevote \<Rightarrow> vt_current_weight (r_prevote r) | Precommit \<Rightarrow> vt_current_weight (r_precommit r))"

abbreviation voters :: "('i, 'h, 's) round \<Rightarrow> 'i voter_set" where
  "voters r \<equiv> cx_voters (r_context r)"

abbreviation base :: "('i, 'h, 's) round \<Rightarrow> 'h" where
  "base r \<equiv> g_base (r_graph r)"

definition equivs :: "('i, 'h, 's) round \<Rightarrow> phase \<Rightarrow> 'i set" where
  "equivs r p = {vid. \<exists>t. view r p vid = Some (t, True)}"

definition supporters :: "('h \<Rightarrow> 'h option) \<Rightarrow> ('i, 'h, 's) round \<Rightarrow> phase \<Rightarrow> 'h \<Rightarrow> 'i set" where
  "supporters parent r p b = {vid. \<exists>t e. view r p vid = Some (t, e) \<and> (e \<or> descends parent b t)}"

definition support :: "('h \<Rightarrow> 'h option) \<Rightarrow> ('i :: linorder, 'h, 's) round \<Rightarrow> phase \<Rightarrow> 'h \<Rightarrow> nat" where
  "support parent r p b = weight_of_set (voters r) (supporters parent r p b)"

abbreviation quorum :: "('i, 'h, 's) round \<Rightarrow> nat" where
  "quorum r \<equiv> rw (vs_threshold (voters r))"

lemma view_simps:
  "view r Prevote = tracker_view pv_target_hash (r_prevote r)"
  "view r Precommit = tracker_view pc_target_hash (r_precommit r)"
  "current r Prevote = vt_current_weight (r_prevote r)"
  "current r Precommit = vt_current_weight (r_precommit r)"
  by (simp_all add: view_def current_def)

lemma supporters_mono: "descends parent a b \<Longrightarrow> supporters parent r p b \<subseteq> supporters parent r p a"
  unfolding supporters_def using descends_trans by fast

lemma supporters_dom: "supporters parent r p b \<subseteq> dom (view r p)"
  by (auto simp: supporters_def)

lemma equivs_supporters: "equivs r p \<subseteq> supporters parent r p b"
  by (auto simp: equivs_def supporters_def)

lemma support_mono: "descends parent a b \<Longrightarrow> support parent r p b \<le> support parent r p a"
  unfolding support_def by (intro weight_of_set_mono supporters_mono)

section \<open>The invariant\<close>

text \<open>The votes in the graph are exactly the first votes at or above the base; the equivocation bits
  are exactly the equivocators; the running weight is that of the voters seen.\<close>

definition phase_ok ::
  "('h \<Rightarrow> 'h option) \<Rightarrow> ('i :: linorder, 'h, 's) round \<Rightarrow> ('h \<times> vote_node) list \<Rightarrow> phase \<Rightarrow> bool" where
  "phase_ok parent r V p \<longleftrightarrow>
     dom (view r p) \<subseteq> voter_ids (voters r) \<and>
     vw (current r p) = weight_of_set (voters r) (dom (view r p)) \<and>
     (\<forall>vid v. voter_set_get (voters r) vid = Some v \<longrightarrow>
        (phase_bit p (vi_position v) \<in> bitfield_set (cx_equivocations (r_context r)) \<longleftrightarrow> vid \<in> equivs r p) \<and>
        (\<forall>t. (\<exists>x. (t, x) \<in> set V \<and> phase_bit p (vi_position v) \<in> bitfield_set (node_bits x)) \<longleftrightarrow>
             (\<exists>e. view r p vid = Some (t, e) \<and> descends parent (base r) t)))"

definition core_ok ::
  "('h :: linorder \<Rightarrow> 'h option) \<Rightarrow> ('h \<Rightarrow> nat) \<Rightarrow> ('i :: linorder, 'h, 's) round \<Rightarrow> ('h \<times> vote_node) list \<Rightarrow> bool" where
  "core_ok parent number r V \<longleftrightarrow>
     voter_set_ok (voters r) \<and> graph_ok parent number (r_graph r) \<and> votes_ok parent (r_graph r) V \<and>
     (\<forall>p. phase_ok parent r V p)"

lemma core_okD:
  assumes "core_ok parent number r V"
  shows core_voters: "voter_set_ok (voters r)"
    and core_graph: "graph_ok parent number (r_graph r)"
    and core_votes: "votes_ok parent (r_graph r) V"
    and core_phase: "phase_ok parent r V p"
  using assms by (auto simp: core_ok_def)

lemma phase_okD:
  assumes "phase_ok parent r V p"
  shows phase_dom: "dom (view r p) \<subseteq> voter_ids (voters r)"
    and phase_current: "vw (current r p) = weight_of_set (voters r) (dom (view r p))"
    and phase_equivocations: "voter_set_get (voters r) vid = Some v \<Longrightarrow>
      phase_bit p (vi_position v) \<in> bitfield_set (cx_equivocations (r_context r)) \<longleftrightarrow> vid \<in> equivs r p"
    and phase_votes: "voter_set_get (voters r) vid = Some v \<Longrightarrow>
      (\<exists>x. (t, x) \<in> set V \<and> phase_bit p (vi_position v) \<in> bitfield_set (node_bits x)) \<longleftrightarrow>
      (\<exists>e. view r p vid = Some (t, e) \<and> descends parent (base r) t)"
  using assms by (auto simp: phase_ok_def)

section \<open>Computed weights\<close>

lemma node_bits_zero [simp]: "bitfield_set (node_bits 0) = {}"
  by (simp add: zero_vote_node_def)

lemma node_bits_plus [simp]: "bitfield_set (node_bits (a + b)) = bitfield_set (node_bits a) \<union> bitfield_set (node_bits b)"
  by (simp add: plus_vote_node_def bitfield_set_merge)

lemma node_bits_tally:
  "k \<in> bitfield_set (node_bits (tally parent V b)) \<longleftrightarrow>
     (\<exists>t x. (t, x) \<in> set V \<and> descends parent b t \<and> k \<in> bitfield_set (node_bits x))"
proof (induction V)
  case (Cons tx V)
  then show ?case by (cases tx) auto
qed simp

lemma voters_get:
  assumes "voter_set_ok vs" "vid \<in> voter_ids vs"
  shows "\<exists>v. voter_set_get vs vid = Some v"
  using assms voter_set_get_None [of vs vid] by auto

lemma equivocators_equivs:
  assumes "core_ok parent number r V"
  shows "equivocators (r_context r) p = equivs r p"
proof -
  note ph = core_phase [OF assms, of p]
  have "vid \<in> equivocators (r_context r) p \<longleftrightarrow> vid \<in> equivs r p" for vid
  proof (cases "voter_set_get (voters r) vid")
    case None
    then have "vid \<notin> dom (view r p)"
      using phase_dom [OF ph] voter_set_get_None [OF core_voters [OF assms], of vid] by auto
    then show ?thesis using None by (auto simp: equivocators_def bit_voters_def equivs_def)
  next
    case (Some v)
    then show ?thesis using phase_equivocations [OF ph Some] by (simp add: equivocators_def bit_voters_def)
  qed
  then show ?thesis by blast
qed

lemma counted_supporters:
  assumes core: "core_ok parent number r V" and b: "descends parent (base r) b"
  shows "counted (r_context r) (tally parent V b) p = supporters parent r p b"
proof -
  note ph = core_phase [OF core, of p]
  have "vid \<in> counted (r_context r) (tally parent V b) p \<longleftrightarrow> vid \<in> supporters parent r p b" for vid
  proof (cases "voter_set_get (voters r) vid")
    case None
    then have "vid \<notin> dom (view r p)"
      using phase_dom [OF ph] voter_set_get_None [OF core_voters [OF core], of vid] by auto
    then show ?thesis
      using None by (auto simp: counted_def equivocators_equivs [OF core] bit_voters_def equivs_def supporters_def)
  next
    case (Some v)
    have "phase_bit p (vi_position v) \<in> bitfield_set (node_bits (tally parent V b)) \<longleftrightarrow>
        (\<exists>t. descends parent b t \<and> (\<exists>x. (t, x) \<in> set V \<and> phase_bit p (vi_position v) \<in> bitfield_set (node_bits x)))"
      unfolding node_bits_tally by blast
    also have "\<dots> \<longleftrightarrow> (\<exists>t e. view r p vid = Some (t, e) \<and> descends parent b t)"
      unfolding phase_votes [OF ph Some] using descends_trans [OF _ b] by blast
    finally show ?thesis
      using Some by (auto simp: counted_def equivocators_equivs [OF core] bit_voters_def equivs_def supporters_def)
  qed
  then show ?thesis by blast
qed

lemma weight_tally:
  assumes "core_ok parent number r V" "descends parent (base r) b"
  shows "vw (context_weight (r_context r) (tally parent V b) p) = support parent r p b"
  using context_weight_set [OF core_voters [OF assms(1)]] counted_supporters [OF assms]
  by (simp add: support_def)

lemma weight_zero:
  assumes "core_ok parent number r V"
  shows "vw (context_weight (r_context r) 0 p) = weight_of_set (voters r) (equivs r p)"
  using context_weight_set [OF core_voters [OF assms]] equivocators_equivs [OF assms]
  by (simp add: counted_def)

lemma weight_plus:
  "voter_set_ok (cx_voters cx) \<Longrightarrow> vw (context_weight cx a p) \<le> vw (context_weight cx (a + b) p)"
  unfolding context_weight_set
  by (intro weight_of_set_mono) (auto simp: counted_def bit_voters_Un)

lemma support_le_current:
  assumes "core_ok parent number r V"
  shows "support parent r p b \<le> vw (current r p)"
  unfolding support_def phase_current [OF core_phase [OF assms]]
  by (rule weight_of_set_mono [OF supporters_dom])

section \<open>Recording a vote\<close>

text \<open>The step both imports share: voter \<open>vid\<close> of position \<open>v\<close> gets the entry \<open>(t, e)\<close> in phase \<open>p\<close>. Either it is the
  first vote of the voter, put into the graph if it is at or above the base, or the voter becomes an equivocator.\<close>

definition vote_bits :: "voter_info \<Rightarrow> phase \<Rightarrow> vote_node" where
  "vote_bits v p = vote_node_add_vote 0 (vote_new v p)"

lemma bits_vote_bits [simp]: "bitfield_set (node_bits (vote_bits v p)) = {phase_bit p (vi_position v)}"
  by (simp add: vote_bits_def vote_node_add_vote_def zero_vote_node_def bitfield_set_set_bit)

lemma add_vote_node: "vote_node_add_vote n (vote_new v p) = n + vote_bits v p"
  by (simp add: vote_node_add_vote_def vote_bits_def plus_vote_node_def zero_vote_node_def)
     (rule bitfield_set_bit_merge)

definition recorded ::
  "('h \<Rightarrow> 'h option) \<Rightarrow> ('i :: linorder, 'h, 's) round \<Rightarrow> phase \<Rightarrow> 'i \<Rightarrow> voter_info \<Rightarrow> 'h \<Rightarrow> bool \<Rightarrow> ('i, 'h, 's) round \<Rightarrow> bool" where
  "recorded parent r p vid v t e r' \<longleftrightarrow>
     voters r' = voters r \<and> base r' = base r \<and>
     (\<forall>q. view r' q = (if q = p then (view r p)(vid \<mapsto> (t, e)) else view r q)) \<and>
     (if e then view r p vid = Some (t, False) else view r p vid = None) \<and>
     (\<forall>q. current r' q = (if q = p \<and> \<not> e then vote_weight_add_voter (current r q) (vi_weight v) else current r q)) \<and>
     bitfield_set (cx_equivocations (r_context r'))
       = bitfield_set (cx_equivocations (r_context r)) \<union> (if e then {phase_bit p (vi_position v)} else {})"

lemma recordedD:
  assumes "recorded parent r p vid v t e r'"
  shows rec_voters: "voters r' = voters r" and rec_base: "base r' = base r"
    and rec_view: "view r' q = (if q = p then (view r p)(vid \<mapsto> (t, e)) else view r q)"
    and rec_old: "if e then view r p vid = Some (t, False) else view r p vid = None"
    and rec_current: "current r' q = (if q = p \<and> \<not> e then vote_weight_add_voter (current r q) (vi_weight v) else current r q)"
    and rec_equiv: "bitfield_set (cx_equivocations (r_context r'))
       = bitfield_set (cx_equivocations (r_context r)) \<union> (if e then {phase_bit p (vi_position v)} else {})"
  using assms by (auto simp: recorded_def)

lemma recorded_equivs:
  assumes "recorded parent r p vid v t e r'"
  shows "equivs r' q = (if q = p \<and> e then insert vid (equivs r p) else equivs r q)"
  using rec_view [OF assms, of q] rec_old [OF assms] by (auto simp: equivs_def split: if_splits)

lemma recorded_current:
  assumes ok: "voter_set_ok (voters r)" and ph: "phase_ok parent r V q" and v: "voter_set_get (voters r) vid = Some v"
    and rec: "recorded parent r p vid v t e r'"
  shows "vw (current r' q) = weight_of_set (voters r) (dom (view r' q))"
proof (cases "q = p \<and> \<not> e")
  case True
  have "vid \<notin> dom (view r p)" using rec_old [OF rec] True by auto
  then have w: "weight_of_set (voters r) (insert vid (dom (view r p)))
      = weight_of_set (voters r) (dom (view r p)) + rw (vi_weight v)"
    by (rule weight_of_set_insert_voter [OF ok v])
  moreover have "dom (view r' q) = insert vid (dom (view r p))" using rec_view [OF rec, of q] True by auto
  moreover from w have "vw (current r p) + rw (vi_weight v) < 2 ^ 64"
    using weight_of_set_less [OF ok, of "insert vid (dom (view r p))"] phase_current [OF ph] True by simp
  ultimately show ?thesis
    using True phase_current [OF ph] by (simp add: rec_current [OF rec] vw_add_voter)
next
  case False
  then have "dom (view r' q) = dom (view r q)" using rec_view [OF rec, of q] rec_old [OF rec] by auto
  then show ?thesis using False phase_current [OF ph] by (auto simp: rec_current [OF rec])
qed

lemma core_step:
  assumes core: "core_ok parent number r V" and v: "voter_set_get (voters r) vid = Some v"
    and rec: "recorded parent r p vid v t e r'"
    and g: "graph_ok parent number (r_graph r')" "votes_ok parent (r_graph r') V'"
    and V': "V' = (if \<not> e \<and> descends parent (base r) t then V @ [(t, vote_bits v p)] else V)"
  shows "core_ok parent number r' V'"
proof -
  note ok = core_voters [OF core]
  have pos: "w = vid" if "voter_set_get (voters r) w = Some u" "vi_position u = vi_position v" for w u
    using voter_set_position_inj [OF ok that(1) v] that(2) by simp
  have "phase_ok parent r' V' q" for q
  proof -
    note ph = core_phase [OF core, of q]
    have "dom (view r' q) \<subseteq> voter_ids (voters r)"
      using phase_dom [OF ph] rec_view [OF rec, of q] voter_set_get_ids [OF ok v] by (auto split: if_splits)
    moreover have "vw (current r' q) = weight_of_set (voters r) (dom (view r' q))"
      by (rule recorded_current [OF ok ph v rec])
    moreover have "phase_bit q (vi_position u) \<in> bitfield_set (cx_equivocations (r_context r')) \<longleftrightarrow> w \<in> equivs r' q"
      if u: "voter_set_get (voters r) w = Some u" for w u
      using phase_equivocations [OF ph u] pos [OF u] u v
      unfolding rec_equiv [OF rec] recorded_equivs [OF rec] by auto
    moreover have "(\<exists>x. (t', x) \<in> set V' \<and> phase_bit q (vi_position u) \<in> bitfield_set (node_bits x)) \<longleftrightarrow>
        (\<exists>e. view r' q w = Some (t', e) \<and> descends parent (base r) t')"
      if u: "voter_set_get (voters r) w = Some u" for w u t'
    proof -
      note old = phase_votes [OF ph u, of t']
      show ?thesis
      proof (cases "q = p \<and> w = vid")
        case True
        then have uv: "u = v" using u v by simp
        show ?thesis
        proof (cases e)
          case True
          then show ?thesis
            using \<open>q = p \<and> w = vid\<close> old rec_old [OF rec] by (auto simp: V' rec_view [OF rec])
        next
          case False
          then have none: "\<not> (\<exists>x. (t', x) \<in> set V \<and> phase_bit q (vi_position u) \<in> bitfield_set (node_bits x))"
            using \<open>q = p \<and> w = vid\<close> old rec_old [OF rec] by simp
          have "(\<exists>x. (t', x) \<in> set V' \<and> phase_bit q (vi_position u) \<in> bitfield_set (node_bits x))
              \<longleftrightarrow> descends parent (base r) t \<and> t' = t"
            using none False uv \<open>q = p \<and> w = vid\<close> by (auto simp: V')
          then show ?thesis using \<open>q = p \<and> w = vid\<close> False by (auto simp: rec_view [OF rec])
        qed
      next
        case False
        then have "phase_bit q (vi_position u) \<noteq> phase_bit p (vi_position v)" using pos [OF u] by auto
        then have "(\<exists>x. (t', x) \<in> set V' \<and> phase_bit q (vi_position u) \<in> bitfield_set (node_bits x))
            \<longleftrightarrow> (\<exists>x. (t', x) \<in> set V \<and> phase_bit q (vi_position u) \<in> bitfield_set (node_bits x))"
          by (auto simp: V')
        moreover have "view r' q w = view r q w" using False by (simp add: rec_view [OF rec])
        ultimately show ?thesis using old by simp
      qed
    qed
    ultimately show ?thesis
      unfolding phase_ok_def rec_voters [OF rec] rec_base [OF rec] by blast
  qed
  then show ?thesis using g ok by (simp add: core_ok_def rec_voters [OF rec])
qed

section \<open>The ghost\<close>

text \<open>What the search for the ghost of a phase returns, in terms of the support of the blocks: a block with a
  quorum, and the last one on its branch unless the equivocators alone are a quorum.\<close>

definition ghost_is ::
  "('h \<Rightarrow> 'h option) \<Rightarrow> ('h \<Rightarrow> nat) \<Rightarrow> ('i :: linorder, 'h, 's) round \<Rightarrow> phase \<Rightarrow> 'h \<times> nat \<Rightarrow> bool" where
  "ghost_is parent number r p gn \<longleftrightarrow>
     snd gn = number (fst gn) \<and> descends parent (base r) (fst gn) \<and> quorum r \<le> support parent r p (fst gn) \<and>
     (weight_of_set (voters r) (equivs r p) < quorum r \<longrightarrow>
       (\<forall>b. descends parent (fst gn) b \<longrightarrow> fst gn \<noteq> b \<longrightarrow> support parent r p b < quorum r))"

definition has_quorum :: "('i, 'h, 's) round \<Rightarrow> phase \<Rightarrow> vote_node \<Rightarrow> bool" where
  "has_quorum r p n \<longleftrightarrow> vote_weight_ge_voter (context_weight (r_context r) n p) (vs_threshold (voters r))"

lemma has_quorum_iff: "has_quorum r p n \<longleftrightarrow> quorum r \<le> vw (context_weight (r_context r) n p)"
  by (simp add: has_quorum_def ge_voter_iff)

lemma has_quorum_tally:
  "core_ok parent number r V \<Longrightarrow> descends parent (base r) b \<Longrightarrow>
   has_quorum r p (tally parent V b) \<longleftrightarrow> quorum r \<le> support parent r p b"
  by (simp add: has_quorum_iff weight_tally)

lemma has_quorum_mono:
  assumes "core_ok parent number r V" "has_quorum r p n"
  shows "has_quorum r p (n + m)"
  using weight_plus [OF core_voters [OF assms(1)], of n p m] assms(2) by (simp add: has_quorum_iff)

lemma has_quorum_zero:
  "core_ok parent number r V \<Longrightarrow> has_quorum r p 0 \<longleftrightarrow> quorum r \<le> weight_of_set (voters r) (equivs r p)"
  by (simp add: has_quorum_iff weight_zero)

context chain
begin

lemma ghost_of_is:
  assumes core: "core_ok parent number r V" and g: "ghost_of (r_graph r) V (has_quorum r p) a"
  shows "ghost_is parent number r p (a, number a)"
proof -
  have a: "descends parent (base r) a" "has_quorum r p (tally parent V a)"
    "\<And>b. descends parent a b \<Longrightarrow> a \<noteq> b \<Longrightarrow> \<not> has_quorum r p (tally parent V b)"
    using g by (auto simp: ghost_of_def)
  have "support parent r p b < quorum r" if "descends parent a b" "a \<noteq> b" for b
    using a(3) [OF that] has_quorum_tally [OF core descends_trans [OF that(1) a(1)], of p] by simp
  then show ?thesis using a(1,2) has_quorum_tally [OF core a(1)] by (simp add: ghost_is_def)
qed

lemma round_find_ghost:
  assumes core: "core_ok parent number r V"
    and cb: "\<And>h n. cb = Some (h, n) \<Longrightarrow> n = number h \<and> descends parent (base r) h \<and> quorum r \<le> support parent r p h"
  shows "\<exists>x. find_ghost (r_graph r) cb (has_quorum r p) = Some x \<and>
    (case x of None \<Rightarrow> cb = None \<and> support parent r p (base r) < quorum r | Some gn \<Rightarrow> ghost_is parent number r p gn)"
proof (cases "quorum r \<le> weight_of_set (voters r) (equivs r p)")
  case True
  then have all: "has_quorum r p n" for n
    using has_quorum_zero [OF core, of p] has_quorum_mono [OF core, of p 0 n] by simp
  have num: "n = number h" if "cb = Some (h, n)" for h n using cb [OF that] by blast
  have "\<exists>x. find_ghost (r_graph r) cb (has_quorum r p) = Some x \<and>
      (\<forall>a n. x = Some (a, n) \<longrightarrow> n = number a \<and> descends parent (base r) a) \<and>
      (x = None \<longrightarrow> (\<exists>v. \<not> has_quorum r p v))"
    by (rule find_ghost_total [OF core_graph [OF core]]) (rule num)
  then obtain x where x: "find_ghost (r_graph r) cb (has_quorum r p) = Some x"
    "\<forall>a n. x = Some (a, n) \<longrightarrow> n = number a \<and> descends parent (base r) a"
    "x = None \<longrightarrow> (\<exists>v. \<not> has_quorum r p v)"
    by (elim exE conjE) (rule that)
  obtain a n where "x = Some (a, n)" using x(3) all by (cases x) auto
  then have a: "x = Some (a, number a)" "descends parent (base r) a" using x(2) by auto
  then have "ghost_is parent number r p (a, number a)"
    using True all has_quorum_tally [OF core a(2), of p] by (simp add: ghost_is_def)
  then show ?thesis using x(1) a(1) by simp
next
  case False
  then have zero: "\<not> has_quorum r p 0" using has_quorum_zero [OF core] by simp
  note mono = has_quorum_mono [OF core, where p = p]
  note gv = core_graph [OF core] core_votes [OF core]
  show ?thesis
  proof (cases cb)
    case None
    show ?thesis
    proof (cases "has_quorum r p (tally parent V (base r))")
      case True
      from find_ghost_base [of "r_graph r" V "has_quorum r p", OF gv mono zero True]
      obtain a where "find_ghost (r_graph r) None (has_quorum r p) = Some (Some (a, number a))"
        "ghost_of (r_graph r) V (has_quorum r p) a" by blast
      then show ?thesis using None ghost_of_is [OF core] by auto
    next
      case False
      then have "find_ghost (r_graph r) None (has_quorum r p) = Some None" by (rule find_ghost_None [OF gv])
      then show ?thesis using None False has_quorum_tally [OF core, of "base r" p] by simp
    qed
  next
    case (Some hn)
    obtain h n where hn: "hn = (h, n)" by (cases hn)
    have h: "cb = Some (h, number h)" "descends parent (base r) h" "quorum r \<le> support parent r p h"
      using cb [of h n] Some hn by simp_all
    then have "has_quorum r p (tally parent V h)" using has_quorum_tally [OF core h(2)] by simp
    from find_ghost_best [of "r_graph r" V "has_quorum r p", OF gv mono zero h(2) this]
    obtain a where "find_ghost (r_graph r) cb (has_quorum r p) = Some (Some (a, number a))"
      "ghost_of (r_graph r) V (has_quorum r p) a" using h(1) by blast
    then show ?thesis using ghost_of_is [OF core] by auto
  qed
qed

end

end
