(* ===== verification/Round_Update.thy ===== *)
theory Round_Update
  imports Round_Inv
begin

text \<open>
  The function \<^verbatim>\<open>update\<close> of a round (\<^verbatim>\<open>src/round.rs\<close>): it always returns, changes nothing but the finalized block, the estimate and the
  completable flag, and these are the highest blocks at or below the prevote-GHOST that have, respectively that could still
  get, a quorum of precommits.
\<close>

section \<open>Whether a block can still be precommitted\<close>

definition could_commit :: "('h \<Rightarrow> 'h option) \<Rightarrow> ('i :: linorder, 'h, 's) round \<Rightarrow> 'h \<Rightarrow> bool" where
  "could_commit parent r b \<longleftrightarrow>
     quorum r \<le> support parent r Precommit b
       + (rw (vs_total_weight (voters r)) - vw (current r Precommit))
       + min (vw (current r Precommit) - support parent r Precommit b)
             (faulty (voters r) - weight_of_set (voters r) (equivs r Precommit))"

definition possible :: "('i, 'h, 's) round \<Rightarrow> vote_node \<Rightarrow> bool" where
  "possible r = possible_to_precommit (r_context r) (vs_threshold (voters r)) (vt_current_weight (r_precommit r))"

lemma possible_iff:
  assumes "voter_set_ok (voters r)"
  shows "possible r n \<longleftrightarrow>
     quorum r \<le> vw (context_weight (r_context r) n Precommit)
       + (rw (vs_total_weight (voters r)) - vw (current r Precommit))
       + min (vw (current r Precommit) - vw (context_weight (r_context r) n Precommit))
             (faulty (voters r) - vw (equivocation_weight (r_context r) Precommit))"
proof -
  let ?p = "vw (context_weight (r_context r) n Precommit)" and ?c = "vw (current r Precommit)"
  let ?rest = "rw (vs_total_weight (voters r)) - ?c"
    and ?eq = "min (?c - ?p) (faulty (voters r) - vw (equivocation_weight (r_context r) Precommit))"
  have "possible r n \<longleftrightarrow> quorum r \<le> min (min (?p + ?rest) (2 ^ 64 - 1) + ?eq) (2 ^ 64 - 1)"
    by (simp add: possible_def possible_to_precommit_def Let_def faulty_def view_simps weight_simps)
  moreover have "quorum r \<le> 2 ^ 64 - 1" using rw_less(1) [of "vs_threshold (voters r)"] by linarith
  ultimately show ?thesis by linarith
qed

lemma possible_tally:
  assumes core: "core_ok parent number r V" and b: "descends parent (base r) b"
  shows "possible r (tally parent V b) \<longleftrightarrow> could_commit parent r b"
  using possible_iff [OF core_voters [OF core]] weight_tally [OF core b]
    equivocation_weight_set [OF core_voters [OF core]] equivocators_equivs [OF core]
  by (simp add: could_commit_def)

lemma possible_mono:
  assumes core: "core_ok parent number r V" and n: "possible r n"
  shows "possible r (n + m)"
  using n weight_plus [OF core_voters [OF core], of n Precommit m]
  unfolding possible_iff [OF core_voters [OF core]] by linarith

text \<open>With a quorum of precommits and tolerated equivocations, a block nobody voted for cannot get a quorum.\<close>

lemma possible_zero:
  assumes core: "core_ok parent number r V"
    and eq: "weight_of_set (voters r) (equivs r Precommit) \<le> faulty (voters r)"
    and cur: "quorum r \<le> vw (current r Precommit)"
  shows "\<not> possible r 0"
proof -
  note ok = core_voters [OF core]
  have w: "vw (context_weight (r_context r) 0 Precommit) = weight_of_set (voters r) (equivs r Precommit)"
    "vw (equivocation_weight (r_context r) Precommit) = weight_of_set (voters r) (equivs r Precommit)"
    using weight_zero [OF core] equivocation_weight_set [OF ok] equivocators_equivs [OF core] by auto
  have "rw (vs_total_weight (voters r)) + faulty (voters r) < 2 * quorum r" by (rule two_thresholds [OF ok])
  moreover have "quorum r + faulty (voters r) = rw (vs_total_weight (voters r))" by (rule threshold_faulty [OF ok])
  ultimately show ?thesis unfolding possible_iff [OF ok] w using eq cur by linarith
qed

section \<open>The update\<close>

definition highest ::
  "('h \<Rightarrow> 'h option) \<Rightarrow> ('h \<Rightarrow> nat) \<Rightarrow> ('i, 'h, 's) round \<Rightarrow> 'h \<Rightarrow> ('h \<Rightarrow> bool) \<Rightarrow> ('h \<times> nat) option \<Rightarrow> bool" where
  "highest parent number r g P x =
     (case x of
        None \<Rightarrow> \<forall>b. descends parent (base r) b \<longrightarrow> descends parent b g \<longrightarrow> \<not> P b
      | Some (a, n) \<Rightarrow> n = number a \<and> descends parent (base r) a \<and> descends parent a g \<and> P a \<and>
          (\<forall>b. descends parent a b \<longrightarrow> descends parent b g \<longrightarrow> a \<noteq> b \<longrightarrow> \<not> P b))"

definition ghost_ok :: "('h \<Rightarrow> 'h option) \<Rightarrow> ('h \<Rightarrow> nat) \<Rightarrow> ('i :: linorder, 'h, 's) round \<Rightarrow> bool" where
  "ghost_ok parent number r \<longleftrightarrow>
     (case r_prevote_ghost r of
        None \<Rightarrow> support parent r Prevote (base r) < quorum r
      | Some gn \<Rightarrow> ghost_is parent number r Prevote gn) \<and>
     (case r_precommit_ghost r of
        None \<Rightarrow> True
      | Some (g, n) \<Rightarrow> n = number g \<and> descends parent (base r) g \<and> quorum r \<le> support parent r Precommit g)"

text \<open>What a round with prevote-GHOST \<open>g\<close> holds after an update.\<close>

definition updated :: "('h \<Rightarrow> 'h option) \<Rightarrow> ('h \<Rightarrow> nat) \<Rightarrow> ('i :: linorder, 'h, 's) round \<Rightarrow> bool" where
  "updated parent number r \<longleftrightarrow>
     (case r_prevote_ghost r of
        None \<Rightarrow> r_finalized r = None \<and> r_estimate r = None \<and> \<not> r_completable r
      | Some (g, n) \<Rightarrow>
          if vw (current r Precommit) < quorum r
          then r_finalized r = None \<and> r_estimate r = Some (g, n) \<and> \<not> r_completable r
          else highest parent number r g (\<lambda>b. quorum r \<le> support parent r Precommit b) (r_finalized r) \<and>
               highest parent number r g (could_commit parent r) (r_estimate r) \<and>
               (weight_of_set (voters r) (equivs r Precommit) \<le> faulty (voters r) \<longrightarrow>
                 r_completable r = (case r_estimate r of
                     None \<Rightarrow> False
                   | Some (b, _) \<Rightarrow> b \<noteq> g \<or>
                       (\<forall>c. descends parent g c \<longrightarrow> g \<noteq> c \<longrightarrow> \<not> could_commit parent r c))))"

text \<open>Before the searches have something to find, the memoised values are the initial ones.\<close>

definition memo_initial :: "('i, 'h, 's) round \<Rightarrow> bool" where
  "memo_initial r \<longleftrightarrow>
     (r_prevote_ghost r = None \<longrightarrow> r_finalized r = None \<and> r_estimate r = None \<and> \<not> r_completable r) \<and>
     (vw (current r Precommit) < quorum r \<longrightarrow> r_finalized r = None \<and> \<not> r_completable r)"

section \<open>What the notions depend on\<close>

definition same_votes :: "('i, 'h, 's) round \<Rightarrow> ('i, 'h, 's) round \<Rightarrow> bool" where
  "same_votes r r' \<longleftrightarrow> r_context r' = r_context r \<and> r_graph r' = r_graph r \<and> r_prevote r' = r_prevote r \<and>
     r_precommit r' = r_precommit r"

lemma same_votes_fields:
  assumes "same_votes r r'"
  shows "r_context r' = r_context r" "r_graph r' = r_graph r" "view r' p = view r p" "current r' p = current r p"
  using assms by (simp_all add: same_votes_def view_def current_def split: phase.splits)

lemma same_votes_cong:
  assumes "same_votes r r'"
  shows "r_context r' = r_context r" "r_graph r' = r_graph r" "view r' p = view r p" "current r' p = current r p"
    "equivs r' p = equivs r p" "supporters parent r' p b = supporters parent r p b"
    "support parent r' p b = support parent r p b" "could_commit parent r' = could_commit parent r"
    "core_ok parent number r' V = core_ok parent number r V"
    "ghost_is parent number r' p gn = ghost_is parent number r p gn"
    "highest parent number r' g P x = highest parent number r g P x"
proof -
  show c: "r_context r' = r_context r" "r_graph r' = r_graph r" and v: "view r' p = view r p"
    and u: "current r' p = current r p" for p
    by (rule same_votes_fields [OF assms])+
  show e: "equivs r' p = equivs r p" for p by (simp add: equivs_def v)
  show s: "supporters parent r' p b = supporters parent r p b" for p b by (simp add: supporters_def v)
  show w: "support parent r' p b = support parent r p b" for p b by (simp add: support_def s c)
  show "could_commit parent r' = could_commit parent r" by (simp add: fun_eq_iff could_commit_def c u e w)
  show "core_ok parent number r' V = core_ok parent number r V" by (simp add: core_ok_def phase_ok_def c u e v)
  show "ghost_is parent number r' p gn = ghost_is parent number r p gn" by (simp add: ghost_is_def c e w)
  show "highest parent number r' g P x = highest parent number r g P x" by (simp add: highest_def c split: option.splits)
qed

section \<open>The update, case by case, and its frame\<close>

definition settled :: "('i, 'h, 's) round \<Rightarrow> ('i, 'h, 's) round \<Rightarrow> bool" where
  "settled r r' \<longleftrightarrow>
     same_votes r r' \<and> r_prevote_ghost r' = r_prevote_ghost r \<and> r_precommit_ghost r' = r_precommit_ghost r \<and>
     r_round_number r' = r_round_number r \<and> r_historical_votes r' = r_historical_votes r"

lemma round_update_ghost:
  assumes g: "r_prevote_ghost r = Some (g, m)"
    and f: "find_ancestor (r_graph r) g m (has_quorum r Precommit) = Some f"
    and e: "find_ancestor (r_graph r) g m (possible r) = Some e"
  shows "vote_weight_lt_voter (vt_current_weight (r_prevote r)) (vs_threshold (voters r)) \<Longrightarrow> round_update r = Some r"
    and "\<not> vote_weight_lt_voter (vt_current_weight (r_prevote r)) (vs_threshold (voters r)) \<Longrightarrow>
      \<not> vote_weight_ge_voter (vt_current_weight (r_precommit r)) (vs_threshold (voters r)) \<Longrightarrow>
      round_update r = Some (r\<lparr>r_estimate := Some (g, m)\<rparr>)"
    and "\<not> vote_weight_lt_voter (vt_current_weight (r_prevote r)) (vs_threshold (voters r)) \<Longrightarrow>
      vote_weight_ge_voter (vt_current_weight (r_precommit r)) (vs_threshold (voters r)) \<Longrightarrow> e = None \<Longrightarrow>
      round_update r = Some (r\<lparr>r_finalized := f, r_estimate := None, r_completable := False\<rparr>)"
    and "\<not> vote_weight_lt_voter (vt_current_weight (r_prevote r)) (vs_threshold (voters r)) \<Longrightarrow>
      vote_weight_ge_voter (vt_current_weight (r_precommit r)) (vs_threshold (voters r)) \<Longrightarrow> e = Some (b, k) \<Longrightarrow>
      find_ghost (r_graph r) (Some (b, k)) (possible r) = Some x \<Longrightarrow>
      round_update r = Some (r\<lparr>r_finalized := f, r_estimate := Some (b, k),
        r_completable := (b \<noteq> g \<or> (case x of None \<Rightarrow> True | Some y \<Rightarrow> y = (g, m)))\<rparr>)"
proof -
  have unfold: "(\<lambda>v. vote_weight_ge_voter (context_weight (r_context r) v Precommit) (round_threshold r)) = has_quorum r Precommit"
    "possible_to_precommit (r_context r) (round_threshold r) (vt_current_weight (r_precommit r)) = possible r"
    "round_threshold r = vs_threshold (voters r)"
    by (simp_all add: fun_eq_iff has_quorum_def possible_def round_threshold_def)
  show "vote_weight_lt_voter (vt_current_weight (r_prevote r)) (vs_threshold (voters r)) \<Longrightarrow> round_update r = Some r"
    by (simp add: round_update_def unfold)
  show "\<not> vote_weight_lt_voter (vt_current_weight (r_prevote r)) (vs_threshold (voters r)) \<Longrightarrow>
      \<not> vote_weight_ge_voter (vt_current_weight (r_precommit r)) (vs_threshold (voters r)) \<Longrightarrow>
      round_update r = Some (r\<lparr>r_estimate := Some (g, m)\<rparr>)"
    by (simp add: round_update_def unfold g Let_def)
  show "\<not> vote_weight_lt_voter (vt_current_weight (r_prevote r)) (vs_threshold (voters r)) \<Longrightarrow>
      vote_weight_ge_voter (vt_current_weight (r_precommit r)) (vs_threshold (voters r)) \<Longrightarrow> e = None \<Longrightarrow>
      round_update r = Some (r\<lparr>r_finalized := f, r_estimate := None, r_completable := False\<rparr>)"
    using f e by (simp add: round_update_def Let_def g has_quorum_def [abs_def] possible_def round_threshold_def)
  show "\<not> vote_weight_lt_voter (vt_current_weight (r_prevote r)) (vs_threshold (voters r)) \<Longrightarrow>
      vote_weight_ge_voter (vt_current_weight (r_precommit r)) (vs_threshold (voters r)) \<Longrightarrow> e = Some (b, k) \<Longrightarrow>
      find_ghost (r_graph r) (Some (b, k)) (possible r) = Some x \<Longrightarrow>
      round_update r = Some (r\<lparr>r_finalized := f, r_estimate := Some (b, k),
        r_completable := (b \<noteq> g \<or> (case x of None \<Rightarrow> True | Some y \<Rightarrow> y = (g, m)))\<rparr>)"
    using f e
    by (cases "b = g") (simp_all add: round_update_def Let_def g has_quorum_def [abs_def] possible_def round_threshold_def)
qed

context chain
begin

lemma highest_cong_conv:
  assumes "highest_below (r_graph r) V condition g x"
    and "\<And>b. descends parent (base r) b \<Longrightarrow> condition (tally parent V b) \<longleftrightarrow> P b"
  shows "highest parent number r g P x"
proof (cases x)
  case None
  then show ?thesis using assms by (auto simp: highest_below_def highest_def)
next
  case (Some an)
  obtain a n where an: "an = (a, n)" by (cases an)
  have a: "n = number a" "descends parent (base r) a" "descends parent a g" "condition (tally parent V a)"
    "\<And>b. descends parent a b \<Longrightarrow> descends parent b g \<Longrightarrow> a \<noteq> b \<Longrightarrow> \<not> condition (tally parent V b)"
    using assms(1) Some an by (auto simp: highest_below_def)
  have "\<not> P b" if "descends parent a b" "descends parent b g" "a \<noteq> b" for b
    using a(5) [OF that] assms(2) [OF descends_trans [OF that(1) a(2)]] by blast
  then show ?thesis using Some an a(1-4) assms(2) [OF a(2)] by (simp add: highest_def)
qed

lemma ghost_in_graph:
  assumes core: "core_ok parent number r V" and g: "ghost_is parent number r p (g, n)"
    and eq: "weight_of_set (voters r) (equivs r p) < quorum r"
  shows "in_graph (r_graph r) g"
proof (rule ccontr)
  assume out: "\<not> in_graph (r_graph r) g"
  have gb: "descends parent (base r) g" and q: "quorum r \<le> support parent r p g" using g by (auto simp: ghost_is_def)
  have "tally parent V g = 0"
    using out tally_outside [OF core_graph [OF core] _ gb, of V] votes_ok_target [OF core_votes [OF core]]
    by (auto simp: in_graph_def)
  then show False
    using has_quorum_tally [OF core gb, of p] has_quorum_zero [OF core, of p] q eq by simp
qed

lemma ghost_ok_number: "ghost_ok parent number r \<Longrightarrow> r_prevote_ghost r = Some (g, n) \<Longrightarrow> n = number g"
  by (simp add: ghost_ok_def ghost_is_def)

lemma round_update_queries:
  assumes core: "core_ok parent number r V"
  shows "\<exists>f. find_ancestor (r_graph r) g (number g) (has_quorum r Precommit) = Some f"
    and "\<exists>e. find_ancestor (r_graph r) g (number g) (possible r) = Some e \<and> (\<forall>a m. e = Some (a, m) \<longrightarrow> m = number a)"
    and "\<exists>x. find_ghost (r_graph r) (Some (a, number a)) (possible r) = Some x"
proof -
  note gv = core_graph [OF core] core_votes [OF core]
  show "\<exists>f. find_ancestor (r_graph r) g (number g) (has_quorum r Precommit) = Some f"
    using find_ancestor_total [OF gv] by blast
  show "\<exists>e. find_ancestor (r_graph r) g (number g) (possible r) = Some e \<and> (\<forall>a m. e = Some (a, m) \<longrightarrow> m = number a)"
    using find_ancestor_total [OF gv, of g "possible r"] by blast
  show "\<exists>x. find_ghost (r_graph r) (Some (a, number a)) (possible r) = Some x"
    using find_ghost_total [OF gv(1), of "Some (a, number a)" "possible r"] by auto
qed

lemma round_update_total:
  assumes core: "core_ok parent number r V" and g: "ghost_ok parent number r"
  shows "\<exists>r'. round_update r = Some r' \<and> settled r r'"
proof (cases "r_prevote_ghost r")
  case None
  then show ?thesis by (auto simp: round_update_def settled_def same_votes_def Let_def)
next
  case (Some gn)
  obtain h n where gn: "gn = (h, n)" by (cases gn)
  then have h: "r_prevote_ghost r = Some (h, number h)" using ghost_ok_number [OF g] Some by simp
  obtain f where f: "find_ancestor (r_graph r) h (number h) (has_quorum r Precommit) = Some f"
    using round_update_queries(1) [OF core] by blast
  obtain e where e: "find_ancestor (r_graph r) h (number h) (possible r) = Some e"
    "\<forall>a m. e = Some (a, m) \<longrightarrow> m = number a"
    using round_update_queries(2) [OF core] by blast
  note eqs = round_update_ghost [OF h f e(1)]
  consider "vote_weight_lt_voter (vt_current_weight (r_prevote r)) (vs_threshold (voters r))"
    | "\<not> vote_weight_lt_voter (vt_current_weight (r_prevote r)) (vs_threshold (voters r))"
      "\<not> vote_weight_ge_voter (vt_current_weight (r_precommit r)) (vs_threshold (voters r))"
    | "\<not> vote_weight_lt_voter (vt_current_weight (r_prevote r)) (vs_threshold (voters r))"
      "vote_weight_ge_voter (vt_current_weight (r_precommit r)) (vs_threshold (voters r))" "e = None"
    | a where "\<not> vote_weight_lt_voter (vt_current_weight (r_prevote r)) (vs_threshold (voters r))"
      "vote_weight_ge_voter (vt_current_weight (r_precommit r)) (vs_threshold (voters r))" "e = Some (a, number a)"
    using e(2) by (cases e) auto
  then show ?thesis
  proof cases
    case 4
    obtain x where "find_ghost (r_graph r) (Some (a, number a)) (possible r) = Some x"
      using round_update_queries(3) [OF core] by blast
    then have "round_update r = Some (r\<lparr>r_finalized := f, r_estimate := Some (a, number a),
        r_completable := (a \<noteq> h \<or> (case x of None \<Rightarrow> True | Some y \<Rightarrow> y = (h, number h)))\<rparr>)"
      by (rule eqs(4) [OF 4])
    then show ?thesis by (simp add: settled_def same_votes_def)
  next
    case 1
    then show ?thesis using eqs(1) by (simp add: settled_def same_votes_def)
  next
    case 2
    then show ?thesis using eqs(2) by (simp add: settled_def same_votes_def)
  next
    case 3
    then show ?thesis using eqs(3) by (simp add: settled_def same_votes_def)
  qed
qed

lemma round_update_initial:
  assumes core: "core_ok parent number r V" and g: "ghost_ok parent number r" and init: "memo_initial r"
    and upd: "round_update r = Some r'"
  shows "memo_initial r'"
proof (cases "r_prevote_ghost r = None \<or> vw (current r Precommit) < quorum r")
  case True
  then have "r_finalized r' = r_finalized r \<and> r_completable r' = r_completable r \<and>
      (r_prevote_ghost r = None \<longrightarrow> r_estimate r' = r_estimate r)"
    using upd by (auto simp: round_update_def Let_def current_def round_threshold_def ge_voter_iff split: if_splits option.splits)
  then show ?thesis
    using init round_update_total [OF core g] upd by (auto simp: memo_initial_def settled_def same_votes_cong)
next
  case False
  then show ?thesis
    using round_update_total [OF core g] upd by (auto simp: memo_initial_def settled_def same_votes_cong)
qed

lemma round_update_completable:
  assumes core: "core_ok parent number r V" and g: "descends parent (base r) g" "could_commit parent r g"
    and eq: "weight_of_set (voters r) (equivs r Precommit) \<le> faulty (voters r)"
    and cur: "quorum r \<le> vw (current r Precommit)"
    and x: "find_ghost (r_graph r) (Some (g, number g)) (possible r) = Some x"
  shows "(case x of None \<Rightarrow> True | Some y \<Rightarrow> y = (g, number g)) \<longleftrightarrow>
    (\<forall>c. descends parent g c \<longrightarrow> g \<noteq> c \<longrightarrow> \<not> could_commit parent r c)"
proof -
  note mono = possible_mono [OF core]
  have "possible r (tally parent V g)" using possible_tally [OF core g(1)] g(2) by simp
  from find_ghost_best [of "r_graph r" V "possible r", OF core_graph [OF core] core_votes [OF core] mono
      possible_zero [OF core eq cur] g(1) this]
  obtain a where a: "x = Some (a, number a)" "ghost_of (r_graph r) V (possible r) a" "descends parent g a"
    using x by auto
  have above: "possible r (tally parent V c) \<longleftrightarrow> could_commit parent r c" if "descends parent g c" for c
    by (rule possible_tally [OF core descends_trans [OF that g(1)]])
  show ?thesis
  proof (cases "a = g")
    case True
    then have "\<not> could_commit parent r c" if "descends parent g c" "g \<noteq> c" for c
      using a(2) above that by (simp add: ghost_of_def)
    then show ?thesis using a(1) True by simp
  next
    case False
    have "could_commit parent r a" using a(2) above [OF a(3)] by (simp add: ghost_of_def)
    then show ?thesis using a(1,3) False by auto
  qed
qed

text \<open>The condition for the whole result: the prevotes of equivocators alone are not a quorum.\<close>

lemma round_update_spec:
  assumes core: "core_ok parent number r V" and ok: "ghost_ok parent number r"
    and init: "memo_initial r" and eq: "weight_of_set (voters r) (equivs r Prevote) < quorum r"
    and upd: "round_update r = Some r'"
  shows "updated parent number r'"
proof (cases "r_prevote_ghost r")
  case None
  then show ?thesis
    using upd init by (auto simp: round_update_def updated_def memo_initial_def Let_def split: if_splits)
next
  case (Some gn)
  obtain g n where gn: "gn = (g, n)" by (cases gn)
  have h: "r_prevote_ghost r = Some (g, number g)" using ghost_ok_number [OF ok] Some gn by simp
  then have gh: "ghost_is parent number r Prevote (g, number g)" using ok by (simp add: ghost_ok_def)
  then have gb: "descends parent (base r) g" by (simp add: ghost_is_def)
  have "quorum r \<le> vw (current r Prevote)"
    using gh support_le_current [OF core, of Prevote g] by (simp add: ghost_is_def)
  then have pv: "\<not> vote_weight_lt_voter (vt_current_weight (r_prevote r)) (vs_threshold (voters r))"
    by (simp add: lt_voter_iff view_simps)
  have ing: "in_graph (r_graph r) g" by (rule ghost_in_graph [OF core gh eq])
  obtain f where f: "find_ancestor (r_graph r) g (number g) (has_quorum r Precommit) = Some f"
      "highest_below (r_graph r) V (has_quorum r Precommit) g f"
    using find_ancestor_Some [OF core_graph [OF core] core_votes [OF core] ing] by blast
  obtain e where e: "find_ancestor (r_graph r) g (number g) (possible r) = Some e"
      "highest_below (r_graph r) V (possible r) g e"
    using find_ancestor_Some [OF core_graph [OF core] core_votes [OF core] ing] by blast
  have hf: "highest parent number r g (\<lambda>b. quorum r \<le> support parent r Precommit b) f"
    by (rule highest_cong_conv [OF f(2) has_quorum_tally [OF core]])
  have he: "highest parent number r g (could_commit parent r) e"
    by (rule highest_cong_conv [OF e(2) possible_tally [OF core]])
  note eqs = round_update_ghost [OF h f(1) e(1)]
  have sv: "same_votes r r'" using round_update_total [OF core ok] upd by (auto simp: settled_def)
  show ?thesis
  proof (cases "vote_weight_ge_voter (vt_current_weight (r_precommit r)) (vs_threshold (voters r))")
    case False
    then have "r' = r\<lparr>r_estimate := Some (g, number g)\<rparr>" using upd eqs(2) [OF pv False] by simp
    then show ?thesis using False h init by (simp add: updated_def memo_initial_def current_def ge_voter_iff)
  next
    case True
    then have cur: "quorum r \<le> vw (current r Precommit)" by (simp add: ge_voter_iff view_simps)
    show ?thesis
    proof (cases e)
      case None
      have "r' = r\<lparr>r_finalized := f, r_estimate := None, r_completable := False\<rparr>"
        using upd eqs(3) [OF pv True None] by simp
      then have "r_finalized r' = f" "r_estimate r' = None" "r_completable r' = False"
          "r_prevote_ghost r' = Some (g, number g)"
        using h by simp_all
      then show ?thesis using hf he None cur by (simp add: updated_def same_votes_cong [OF sv])
    next
      case (Some bk)
      obtain b k where bk: "bk = (b, k)" by (cases bk)
      have b: "e = Some (b, number b)" "could_commit parent r b" using he Some bk by (auto simp: highest_def)
      obtain x where x: "find_ghost (r_graph r) (Some (b, number b)) (possible r) = Some x"
        using round_update_queries(3) [OF core] by blast
      have r': "r' = r\<lparr>r_finalized := f, r_estimate := Some (b, number b),
          r_completable := (b \<noteq> g \<or> (case x of None \<Rightarrow> True | Some y \<Rightarrow> y = (g, number g)))\<rparr>"
        using upd eqs(4) [OF pv True b(1) x] by simp
      have "(case x of None \<Rightarrow> True | Some y \<Rightarrow> y = (g, number g)) \<longleftrightarrow>
          (\<forall>c. descends parent g c \<longrightarrow> g \<noteq> c \<longrightarrow> \<not> could_commit parent r c)"
        if "b = g" "weight_of_set (voters r) (equivs r Precommit) \<le> faulty (voters r)"
        using round_update_completable [OF core gb _ that(2) cur] b(2) x that(1) by simp
      moreover have "r_finalized r' = f" "r_estimate r' = Some (b, number b)" "r_prevote_ghost r' = Some (g, number g)"
          "r_completable r' = (b \<noteq> g \<or> (case x of None \<Rightarrow> True | Some y \<Rightarrow> y = (g, number g)))"
        using h r' by simp_all
      ultimately show ?thesis using hf he b(1) cur by (simp add: updated_def same_votes_cong [OF sv])
    qed
  qed
qed

end

end
