(* ===== verification/Round_Import.thy ===== *)
theory Round_Import
  imports Round_Update
begin

text \<open>
  Importing votes into a round (\<^verbatim>\<open>import_prevote\<close>, \<^verbatim>\<open>import_precommit\<close> and \<^verbatim>\<open>precommit_ghost\<close> of \<^verbatim>\<open>src/round.rs\<close>): the cases
  of \<^verbatim>\<open>add_vote\<close>, the order in which the view of a round grows, and that every import of a vote with the right block
  number returns, keeps the invariant \<open>round_ok\<close> and only extends the view.
\<close>

section \<open>Growing views\<close>

definition view_le :: "('i \<rightharpoonup> 'h \<times> bool) \<Rightarrow> ('i \<rightharpoonup> 'h \<times> bool) \<Rightarrow> bool" where
  "view_le m m' \<longleftrightarrow> (\<forall>vid t e. m vid = Some (t, e) \<longrightarrow> (\<exists>e'. m' vid = Some (t, e') \<and> (e \<longrightarrow> e')))"

definition extends :: "('i, 'h, 's) round \<Rightarrow> ('i, 'h, 's) round \<Rightarrow> bool" where
  "extends r r' \<longleftrightarrow> voters r' = voters r \<and> base r' = base r \<and> (\<forall>p. view_le (view r p) (view r' p))"

lemma view_leD: "view_le m m' \<Longrightarrow> m vid = Some (t, e) \<Longrightarrow> \<exists>e'. m' vid = Some (t, e') \<and> (e \<longrightarrow> e')"
  by (simp add: view_le_def)

lemma extendsD:
  assumes "extends r r'"
  shows "voters r' = voters r" "base r' = base r" "view_le (view r p) (view r' p)"
  using assms by (auto simp: extends_def)

lemma extends_refl: "extends r r"
  by (simp add: extends_def view_le_def)

lemma view_le_trans: "view_le a b \<Longrightarrow> view_le b c \<Longrightarrow> view_le a c"
  unfolding view_le_def by (metis (no_types))

lemma extends_trans: "extends a b \<Longrightarrow> extends b c \<Longrightarrow> extends a c"
  unfolding extends_def using view_le_trans by metis

lemma same_votes_extends:
  assumes "same_votes r r'"
  shows "extends r r'"
  by (simp add: extends_def same_votes_fields [OF assms] view_le_def)

lemma recorded_extends: "recorded parent r p vid v t e r' \<Longrightarrow> extends r r'"
  by (auto simp: extends_def view_le_def recorded_def split: if_splits)

lemma extends_equivs: "extends r r' \<Longrightarrow> equivs r p \<subseteq> equivs r' p"
  using view_leD [OF extendsD(3)] by (fastforce simp: equivs_def)

lemma extends_dom: "extends r r' \<Longrightarrow> dom (view r p) \<subseteq> dom (view r' p)"
  using view_leD [OF extendsD(3)] by fastforce

lemma extends_supporters: "extends r r' \<Longrightarrow> supporters parent r p b \<subseteq> supporters parent r' p b"
  using view_leD [OF extendsD(3)] by (fastforce simp: supporters_def)

lemma extends_support: "extends r r' \<Longrightarrow> support parent r p b \<le> support parent r' p b"
  by (simp add: support_def extendsD(1) weight_of_set_mono extends_supporters)

lemma extends_equiv_weight:
  "extends r r' \<Longrightarrow> weight_of_set (voters r) (equivs r p) \<le> weight_of_set (voters r') (equivs r' p)"
  by (simp add: extendsD(1) weight_of_set_mono extends_equivs)

lemma extends_current:
  assumes "extends r r'" "core_ok parent number r V" "core_ok parent number r' V'"
  shows "vw (current r p) \<le> vw (current r' p)"
  using phase_current [OF core_phase [OF assms(2)], of p] phase_current [OF core_phase [OF assms(3)], of p]
    weight_of_set_mono [OF extends_dom [OF assms(1)]]
  by (simp add: extendsD(1) [OF assms(1)])

section \<open>The tracker\<close>

text \<open>The four things \<^verbatim>\<open>add_vote\<close> can do: nothing for a vote it holds already, nothing for a further vote of a known
  equivocator, note the first vote of a voter, note the second one as an equivocation.\<close>

lemma add_vote_cases:
  obtains
    (duplicate) m where "add_vote vt vid x s w = (vt, \<lparr>av_multiplicity = None, av_duplicated = True\<rparr>)"
      "bt_get (vt_votes vt) vid = Some m" "vote_multiplicity_contains m x s"
  | (excess) a b where "add_vote vt vid x s w = (vt, \<lparr>av_multiplicity = None, av_duplicated = False\<rparr>)"
      "bt_get (vt_votes vt) vid = Some (Equivocated a b)" "\<not> vote_multiplicity_contains (Equivocated a b) x s"
  | (first) vt' where "add_vote vt vid x s w = (vt', \<lparr>av_multiplicity = Some (Single x s), av_duplicated = False\<rparr>)"
      "tracker_view tgt vt vid = None" "tracker_view tgt vt' = (tracker_view tgt vt)(vid \<mapsto> (tgt x, False))"
      "vt_current_weight vt' = vote_weight_add_voter (vt_current_weight vt) w"
      "bt_get (vt_votes vt) vid = None" "bt_get (vt_votes vt') = (bt_get (vt_votes vt))(vid \<mapsto> Single x s)"
  | (second) vt' y u where "add_vote vt vid x s w = (vt', \<lparr>av_multiplicity = Some (Equivocated (y, u) (x, s)), av_duplicated = False\<rparr>)"
      "tracker_view tgt vt vid = Some (tgt y, False)" "tracker_view tgt vt' = (tracker_view tgt vt)(vid \<mapsto> (tgt y, True))"
      "vt_current_weight vt' = vt_current_weight vt"
      "bt_get (vt_votes vt) vid = Some (Single y u)" "(y, u) \<noteq> (x, s)"
      "bt_get (vt_votes vt') = (bt_get (vt_votes vt))(vid \<mapsto> Equivocated (y, u) (x, s))"
proof (cases "bt_get (vt_votes vt) vid")
  case None
  show ?thesis
    by (rule first [of "vt\<lparr>vt_current_weight := vote_weight_add_voter (vt_current_weight vt) w,
          vt_votes := bt_insert vid (Single x s) (vt_votes vt)\<rparr>"])
       (use None in \<open>auto simp: add_vote_def Let_def tracker_view_def fun_eq_iff\<close>)
next
  case (Some m)
  show ?thesis
  proof (cases "vote_multiplicity_contains m x s")
    case True
    then show ?thesis using Some by (intro duplicate [of m]) (simp_all add: add_vote_def)
  next
    case False
    show ?thesis
    proof (cases m)
      case (Single y u)
      show ?thesis
        by (rule second [of "vt\<lparr>vt_votes := bt_insert vid (Equivocated (y, u) (x, s)) (vt_votes vt)\<rparr>" y u])
           (use Some False Single in \<open>auto simp: add_vote_def Let_def tracker_view_def fun_eq_iff\<close>)
    next
      case (Equivocated a b)
      then show ?thesis using Some False by (intro excess [of a b]) (simp_all add: add_vote_def)
    qed
  qed
qed

section \<open>The invariant of a round\<close>

text \<open>The memoised state is that of the last update: of some earlier view of the round.\<close>

definition memo_ok :: "('h :: linorder \<Rightarrow> 'h option) \<Rightarrow> ('h \<Rightarrow> nat) \<Rightarrow> ('i :: linorder, 'h, 's) round \<Rightarrow> bool" where
  "memo_ok parent number r \<longleftrightarrow>
     (\<exists>r0 V0. extends r0 r \<and> round_state r0 = round_state r \<and> core_ok parent number r0 V0 \<and> ghost_ok parent number r0 \<and>
        (weight_of_set (voters r0) (equivs r0 Prevote) < quorum r0 \<longrightarrow> updated parent number r0))"

definition round_ok :: "('h :: linorder \<Rightarrow> 'h option) \<Rightarrow> ('h \<Rightarrow> nat) \<Rightarrow> ('i :: linorder, 'h, 's) round \<Rightarrow> bool" where
  "round_ok parent number r \<longleftrightarrow>
     (\<exists>V. core_ok parent number r V) \<and> ghost_ok parent number r \<and> memo_initial r \<and> memo_ok parent number r"

lemma round_okE:
  assumes "round_ok parent number r"
  obtains V where "core_ok parent number r V" "ghost_ok parent number r" "memo_initial r" "memo_ok parent number r"
  using assms by (auto simp: round_ok_def)

lemma memo_ok_stale: "memo_ok parent number r \<Longrightarrow> extends r r' \<Longrightarrow> round_state r' = round_state r \<Longrightarrow> memo_ok parent number r'"
  unfolding memo_ok_def using extends_trans by metis

lemma memo_ok_updated:
  "core_ok parent number r V \<Longrightarrow> ghost_ok parent number r \<Longrightarrow>
   (weight_of_set (voters r) (equivs r Prevote) < quorum r \<longrightarrow> updated parent number r) \<Longrightarrow> memo_ok parent number r"
  unfolding memo_ok_def using extends_refl by blast

section \<open>After a vote has been recorded\<close>

lemma support_outside:
  assumes rec: "recorded parent r p vid v t False r'" and t: "\<not> descends parent (base r) t" and b: "descends parent (base r) b"
  shows "support parent r' q b = support parent r q b"
proof -
  have "\<not> descends parent b t" using t descends_trans [OF _ b] by blast
  then have "supporters parent r' q b = supporters parent r q b"
    using rec_view [OF rec, of q] rec_old [OF rec] by (auto simp: supporters_def split: if_splits)
  then show ?thesis by (simp add: support_def rec_voters [OF rec])
qed

lemma ghost_ok_outside:
  assumes rec: "recorded parent r p vid v t False r'" and t: "\<not> descends parent (base r) t"
    and gh: "r_prevote_ghost r' = r_prevote_ghost r" "r_precommit_ghost r' = r_precommit_ghost r"
    and ok: "ghost_ok parent number r"
  shows "ghost_ok parent number r'"
proof -
  note sup = support_outside [OF rec t] and fr = rec_voters [OF rec] rec_base [OF rec]
  have "ghost_is parent number r' Prevote gn" if g: "ghost_is parent number r Prevote gn" for gn
  proof -
    have b: "descends parent (base r) (fst gn)" using g by (simp add: ghost_is_def)
    have "support parent r' Prevote b = support parent r Prevote b" if "descends parent (fst gn) b" for b
      by (rule sup [OF descends_trans [OF that b]])
    then show ?thesis using g recorded_equivs [OF rec, of Prevote] sup [OF b] by (simp add: ghost_is_def fr)
  qed
  then show ?thesis using ok sup by (auto simp: ghost_ok_def gh fr split: option.splits prod.splits)
qed

text \<open>The memoised GHOSTs of a round, with more votes: still blocks with a quorum.\<close>

definition ghosts_below :: "('h \<Rightarrow> 'h option) \<Rightarrow> ('h \<Rightarrow> nat) \<Rightarrow> ('i :: linorder, 'h, 's) round \<Rightarrow> bool" where
  "ghosts_below parent number r \<longleftrightarrow>
     (\<forall>g n. r_prevote_ghost r = Some (g, n) \<longrightarrow>
        n = number g \<and> descends parent (base r) g \<and> quorum r \<le> support parent r Prevote g) \<and>
     (\<forall>g n. r_precommit_ghost r = Some (g, n) \<longrightarrow>
        n = number g \<and> descends parent (base r) g \<and> quorum r \<le> support parent r Precommit g)"

lemma ghosts_below_extends:
  assumes ok: "ghost_ok parent number r" and ex: "extends r r'"
    and gh: "r_prevote_ghost r' = r_prevote_ghost r" "r_precommit_ghost r' = r_precommit_ghost r"
  shows "ghosts_below parent number r'"
proof -
  have "quorum r \<le> support parent r' p g" if "quorum r \<le> support parent r p g" for p g
    using that extends_support [OF ex, of parent p g] by linarith
  then show ?thesis
    using ok by (auto simp: ghosts_below_def ghost_ok_def ghost_is_def gh extendsD [OF ex] split: option.splits)
qed

context chain
begin

lemma round_finish:
  assumes core: "core_ok parent number r V" and gh: "ghost_ok parent number r" and init: "memo_initial r"
  shows "\<exists>r'. round_update r = Some r' \<and> round_ok parent number r' \<and> settled r r'"
proof -
  obtain r' where r': "round_update r = Some r'" "settled r r'" using round_update_total [OF core gh] by blast
  then have sv: "same_votes r r'" and g: "r_prevote_ghost r' = r_prevote_ghost r" "r_precommit_ghost r' = r_precommit_ghost r"
    by (auto simp: settled_def)
  have core': "core_ok parent number r' V" using core by (simp add: same_votes_cong [OF sv])
  have gh': "ghost_ok parent number r'" using gh unfolding ghost_ok_def g same_votes_cong [OF sv] .
  have "updated parent number r'" if "weight_of_set (voters r') (equivs r' Prevote) < quorum r'"
    using that round_update_spec [OF core gh init _ r'(1)] by (simp add: same_votes_cong [OF sv])
  then have "memo_ok parent number r'" by (intro memo_ok_updated [OF core' gh'] impI)
  then have "round_ok parent number r'"
    using core' gh' round_update_initial [OF core gh init r'(1)] by (auto simp: round_ok_def)
  then show ?thesis using r' by blast
qed

lemma prevote_ghost_search:
  assumes core: "core_ok parent number r V" and below: "ghosts_below parent number r" and init: "memo_initial r"
  shows "\<exists>r'. (if vote_weight_ge_voter (vt_current_weight (r_prevote r)) (vs_threshold (voters r))
      then Option.bind (find_ghost (r_graph r) (r_prevote_ghost r) (has_quorum r Prevote))
        (\<lambda>ghost. Some (r\<lparr>r_prevote_ghost := ghost\<rparr>))
      else Some r) = Some r' \<and> same_votes r r' \<and> ghost_ok parent number r' \<and> memo_initial r'"
proof (cases "vote_weight_ge_voter (vt_current_weight (r_prevote r)) (vs_threshold (voters r))")
  case True
  have "n = number h \<and> descends parent (base r) h \<and> quorum r \<le> support parent r Prevote h"
    if "r_prevote_ghost r = Some (h, n)" for h n using below that by (simp add: ghosts_below_def)
  from round_find_ghost [OF core this]
  obtain x where x: "find_ghost (r_graph r) (r_prevote_ghost r) (has_quorum r Prevote) = Some x"
    "case x of None \<Rightarrow> r_prevote_ghost r = None \<and> support parent r Prevote (base r) < quorum r
      | Some gn \<Rightarrow> ghost_is parent number r Prevote gn"
    by blast
  let ?r = "r\<lparr>r_prevote_ghost := x\<rparr>"
  have sv: "same_votes r ?r" by (simp add: same_votes_def)
  have "ghost_ok parent number ?r"
    using x(2) below unfolding ghost_ok_def ghosts_below_def same_votes_cong [OF sv]
    by (auto split: option.splits)
  moreover have "memo_initial ?r"
    using init x(2) unfolding memo_initial_def same_votes_cong [OF sv] by (simp split: option.splits)
  ultimately show ?thesis using True x(1) sv by simp
next
  case False
  have "support parent r Prevote b < quorum r" for b
    using False support_le_current [OF core, of Prevote b] by (simp add: ge_voter_iff view_simps)
  then have sup: "\<not> quorum r \<le> support parent r Prevote b" for b by (simp add: not_le)
  then have "r_prevote_ghost r = None"
    using below unfolding ghosts_below_def by (cases "r_prevote_ghost r") auto
  then have "ghost_ok parent number r"
    using below sup [of "base r"] by (auto simp: ghost_ok_def ghosts_below_def split: option.splits)
  then show ?thesis using False init by (simp add: same_votes_def)
qed

lemma vote_recorded:
  assumes ok: "round_ok parent number r" and v: "voter_set_get (voters r) vid = Some v"
    and rec: "recorded parent r p vid v t e r1" and st: "round_state r1 = round_state r" "r_precommit_ghost r1 = r_precommit_ghost r"
    and g: "graph_ok parent number (r_graph r1)" "\<forall>V. core_ok parent number r V \<longrightarrow> votes_ok parent (r_graph r1)
      (if \<not> e \<and> descends parent (base r) t then V @ [(t, vote_bits v p)] else V)"
  shows "\<exists>V. core_ok parent number r1 V" "ghosts_below parent number r1" "memo_initial r1" "memo_ok parent number r1"
proof -
  obtain V where V: "core_ok parent number r V" "ghost_ok parent number r" "memo_initial r" "memo_ok parent number r"
    by (rule round_okE [OF ok])
  have core1: "core_ok parent number r1 (if \<not> e \<and> descends parent (base r) t then V @ [(t, vote_bits v p)] else V)"
    by (rule core_step [OF V(1) v rec g(1) g(2) [rule_format, OF V(1)] HOL.refl])
  then show "\<exists>V. core_ok parent number r1 V" by blast
  have ex: "extends r r1" by (rule recorded_extends [OF rec])
  show "ghosts_below parent number r1"
    using ghosts_below_extends [OF V(2) ex] st by (simp add: round_state_def)
  show "memo_ok parent number r1" by (rule memo_ok_stale [OF V(4) ex st(1)])
  have "vw (current r Precommit) \<le> vw (current r1 Precommit)" by (rule extends_current [OF ex V(1) core1])
  then show "memo_initial r1"
    using V(3) st(1) by (auto simp: memo_initial_def round_state_def extendsD [OF ex])
qed

lemma vote_refused:
  assumes ok: "round_ok parent number r" and v: "voter_set_get (voters r) vid = Some v"
    and rec: "recorded parent r p vid v t False r1" and st: "round_state r1 = round_state r" "r_precommit_ghost r1 = r_precommit_ghost r"
    and g: "r_graph r1 = r_graph r" and t: "\<not> descends parent (base r) t"
  shows "round_ok parent number r1"
proof -
  obtain V where V: "core_ok parent number r V" "ghost_ok parent number r" by (rule round_okE [OF ok])
  have gh: "ghost_ok parent number r1"
    using ghost_ok_outside [OF rec t _ _ V(2)] st by (simp add: round_state_def)
  have "graph_ok parent number (r_graph r1)" using core_graph [OF V(1)] g by simp
  moreover have "\<forall>V. core_ok parent number r V \<longrightarrow>
      votes_ok parent (r_graph r1) (if \<not> False \<and> descends parent (base r) t then V @ [(t, vote_bits v p)] else V)"
    using g t by (auto dest: core_votes)
  ultimately show ?thesis using vote_recorded [OF ok v rec st] gh unfolding round_ok_def by blast
qed

end

section \<open>The imports, case by case\<close>

definition prevote_finish :: "('i, 'h :: linorder, 's) round \<Rightarrow> ('i, 'h, 's) round option" where
  "prevote_finish r = Option.bind
     (if vote_weight_ge_voter (vt_current_weight (r_prevote r)) (vs_threshold (voters r))
      then Option.bind (find_ghost (r_graph r) (r_prevote_ghost r) (has_quorum r Prevote))
        (\<lambda>ghost. Some (r\<lparr>r_prevote_ghost := ghost\<rparr>))
      else Some r) round_update"

definition prevote_log where
  "prevote_log r pv vid s = push_vote (r_historical_votes r) \<lparr>sm_message = MPrevote pv, sm_signature = s, sm_id = vid\<rparr>"

definition precommit_log where
  "precommit_log r pc vid s = push_vote (r_historical_votes r) \<lparr>sm_message = MPrecommit pc, sm_signature = s, sm_id = vid\<rparr>"

lemma round_update_keeps:
  "round_update r = Some r' \<Longrightarrow> r_prevote r' = r_prevote r \<and> r_precommit r' = r_precommit r \<and> r_historical_votes r' = r_historical_votes r \<and>
     r_graph r' = r_graph r"
  by (auto simp: round_update_def Let_def split: if_splits option.splits bind_splits)

lemma prevote_finish_keeps:
  "prevote_finish r = Some r' \<Longrightarrow> r_prevote r' = r_prevote r \<and> r_historical_votes r' = r_historical_votes r \<and> r_graph r' = r_graph r"
  by (auto simp: prevote_finish_def dest!: round_update_keeps split: if_splits bind_splits)

lemma import_prevote_eqs:
  assumes v: "voter_set_get (voters r) vid = Some v"
  shows "add_vote (r_prevote r) vid pv s (vi_weight v) = (r_prevote r, \<lparr>av_multiplicity = None, av_duplicated = d\<rparr>) \<Longrightarrow>
      import_prevote anc r pv vid s = Some (r, Inr (import_result_default\<lparr>ir_valid_voter := True, ir_duplicated := d\<rparr>))"
    and "add_vote (r_prevote r) vid pv s (vi_weight v) = (vt, \<lparr>av_multiplicity = Some (Single pv s), av_duplicated = d\<rparr>) \<Longrightarrow>
      vote_graph_insert anc vote_node_add_vote (r_graph r) (pv_target_hash pv) (pv_target_number pv) (vote_new v Prevote)
        = Some (Inl er) \<Longrightarrow>
      import_prevote anc r pv vid s = Some (r\<lparr>r_prevote := vt\<rparr>, Inl er)"
    and "add_vote (r_prevote r) vid pv s (vi_weight v) = (vt, \<lparr>av_multiplicity = Some (Single pv s), av_duplicated = d\<rparr>) \<Longrightarrow>
      vote_graph_insert anc vote_node_add_vote (r_graph r) (pv_target_hash pv) (pv_target_number pv) (vote_new v Prevote)
        = Some (Inr g) \<Longrightarrow>
      import_prevote anc r pv vid s =
        map_option (\<lambda>r'. (r', Inr (import_result_default\<lparr>ir_valid_voter := True, ir_equivocation := None\<rparr>)))
          (prevote_finish (r\<lparr>r_prevote := vt, r_graph := g, r_historical_votes := prevote_log r pv vid s\<rparr>))"
    and "add_vote (r_prevote r) vid pv s (vi_weight v) = (vt, \<lparr>av_multiplicity = Some (Equivocated x y), av_duplicated = d\<rparr>) \<Longrightarrow>
      import_prevote anc r pv vid s =
        map_option (\<lambda>r'. (r', Inr (import_result_default\<lparr>ir_valid_voter := True,
            ir_equivocation := Some \<lparr>eq_round_number = r_round_number r, eq_identity = vid, eq_first = x, eq_second = y\<rparr>\<rparr>)))
          (prevote_finish (r\<lparr>r_prevote := vt, r_context := equivocated (r_context r) v Prevote,
             r_historical_votes := prevote_log r pv vid s\<rparr>))"
  using v
  by (simp_all add: import_prevote_def prevote_finish_def prevote_log_def Let_def has_quorum_def [abs_def] round_threshold_def
      map_option_bind split: bind_splits)

lemma import_precommit_eqs:
  assumes v: "voter_set_get (voters r) vid = Some v"
  shows "add_vote (r_precommit r) vid pc s (vi_weight v) = (r_precommit r, \<lparr>av_multiplicity = None, av_duplicated = d\<rparr>) \<Longrightarrow>
      import_precommit anc r pc vid s = Some (r, Inr (import_result_default\<lparr>ir_valid_voter := True, ir_duplicated := d\<rparr>))"
    and "add_vote (r_precommit r) vid pc s (vi_weight v) = (vt, \<lparr>av_multiplicity = Some (Single pc s), av_duplicated = d\<rparr>) \<Longrightarrow>
      vote_graph_insert anc vote_node_add_vote (r_graph r) (pc_target_hash pc) (pc_target_number pc) (vote_new v Precommit)
        = Some (Inl er) \<Longrightarrow>
      import_precommit anc r pc vid s = Some (r\<lparr>r_precommit := vt\<rparr>, Inl er)"
    and "add_vote (r_precommit r) vid pc s (vi_weight v) = (vt, \<lparr>av_multiplicity = Some (Single pc s), av_duplicated = d\<rparr>) \<Longrightarrow>
      vote_graph_insert anc vote_node_add_vote (r_graph r) (pc_target_hash pc) (pc_target_number pc) (vote_new v Precommit)
        = Some (Inr g) \<Longrightarrow>
      import_precommit anc r pc vid s =
        map_option (\<lambda>r'. (r', Inr (import_result_default\<lparr>ir_valid_voter := True, ir_equivocation := None\<rparr>)))
          (round_update (r\<lparr>r_precommit := vt, r_graph := g, r_historical_votes := precommit_log r pc vid s\<rparr>))"
    and "add_vote (r_precommit r) vid pc s (vi_weight v) = (vt, \<lparr>av_multiplicity = Some (Equivocated x y), av_duplicated = d\<rparr>) \<Longrightarrow>
      import_precommit anc r pc vid s =
        map_option (\<lambda>r'. (r', Inr (import_result_default\<lparr>ir_valid_voter := True,
            ir_equivocation := Some \<lparr>eq_round_number = r_round_number r, eq_identity = vid, eq_first = x, eq_second = y\<rparr>\<rparr>)))
          (round_update (r\<lparr>r_precommit := vt, r_context := equivocated (r_context r) v Precommit,
             r_historical_votes := precommit_log r pc vid s\<rparr>))"
  using v
  by (simp_all add: import_precommit_def precommit_log_def Let_def map_option_bind split: bind_splits)

section \<open>What an import does\<close>

text \<open>The outcomes of the import of the vote \<open>x\<close> for block \<open>t\<close> in phase \<open>p\<close>, with the round and the result it returns.\<close>

definition fresh :: "('h :: linorder \<Rightarrow> 'h option) \<Rightarrow> ('h \<Rightarrow> nat) \<Rightarrow> ('i :: linorder, 'h, 's) round \<Rightarrow> bool" where
  "fresh parent number r \<longleftrightarrow>
     (weight_of_set (voters r) (equivs r Prevote) < quorum r \<longrightarrow> updated parent number r)"

text \<open>The tracker holds one more multiplicity, and the message is at the end of the log.\<close>

definition entered :: "('i, 'p, 's) vote_tracker \<Rightarrow> 'i \<Rightarrow> ('p, 's) vote_multiplicity \<Rightarrow> ('i, 'p, 's) vote_tracker \<Rightarrow> bool" where
  "entered vt vid m vt' \<longleftrightarrow> bt_get (vt_votes vt') = (bt_get (vt_votes vt))(vid \<mapsto> m)"

definition logged :: "('p \<Rightarrow> 'h message) \<Rightarrow> ('i, 'h, 's) round \<Rightarrow> 'i \<Rightarrow> 'p \<Rightarrow> 's \<Rightarrow> ('h, 's, 'i) historical_votes" where
  "logged msg r vid x s = push_vote (r_historical_votes r) \<lparr>sm_message = msg x, sm_signature = s, sm_id = vid\<rparr>"

inductive imported ::
  "('h :: linorder \<Rightarrow> 'h option) \<Rightarrow> ('h \<Rightarrow> nat) \<Rightarrow> ('p \<Rightarrow> 'h) \<Rightarrow> (('i :: linorder, 'h, 's) round \<Rightarrow> ('i, 'p, 's) vote_tracker)
     \<Rightarrow> ('p \<Rightarrow> 'h message) \<Rightarrow> phase \<Rightarrow> ('i, 'h, 's) round \<Rightarrow> 'i \<Rightarrow> 'p \<Rightarrow> 's
     \<Rightarrow> ('i, 'h, 's) round \<Rightarrow> error + ('i, 'p, 's) import_result \<Rightarrow> bool"
  for parent number tgt trk msg p r vid x s where
  not_voter: "vid \<notin> voter_ids (voters r) \<Longrightarrow> imported parent number tgt trk msg p r vid x s r (Inr import_result_default)"
| duplicate: "vid \<in> voter_ids (voters r) \<Longrightarrow> view r p vid \<noteq> None \<Longrightarrow>
    bt_get (vt_votes (trk r)) vid = Some m \<Longrightarrow> vote_multiplicity_contains m x s \<Longrightarrow>
    imported parent number tgt trk msg p r vid x s r (Inr (import_result_default\<lparr>ir_valid_voter := True, ir_duplicated := True\<rparr>))"
| excess: "vid \<in> voter_ids (voters r) \<Longrightarrow> view r p vid \<noteq> None \<Longrightarrow>
    bt_get (vt_votes (trk r)) vid = Some (Equivocated a b) \<Longrightarrow> \<not> vote_multiplicity_contains (Equivocated a b) x s \<Longrightarrow>
    imported parent number tgt trk msg p r vid x s r (Inr (import_result_default\<lparr>ir_valid_voter := True, ir_duplicated := False\<rparr>))"
| refused: "voter_set_get (voters r) vid = Some v \<Longrightarrow> recorded parent r p vid v (tgt x) False r' \<Longrightarrow>
    \<not> descends parent (base r) (tgt x) \<Longrightarrow> round_state r' = round_state r \<Longrightarrow> bt_get (vt_votes (trk r)) vid = None \<Longrightarrow>
    entered (trk r) vid (Single x s) (trk r') \<Longrightarrow> r_historical_votes r' = r_historical_votes r \<Longrightarrow> r_graph r' = r_graph r \<Longrightarrow>
    imported parent number tgt trk msg p r vid x s r' (Inl NotDescendent)"
| counted: "voter_set_get (voters r) vid = Some v \<Longrightarrow> recorded parent r p vid v (tgt x) False r' \<Longrightarrow>
    descends parent (base r) (tgt x) \<Longrightarrow> fresh parent number r' \<Longrightarrow> bt_get (vt_votes (trk r)) vid = None \<Longrightarrow>
    entered (trk r) vid (Single x s) (trk r') \<Longrightarrow> r_historical_votes r' = logged msg r vid x s \<Longrightarrow>
    imported parent number tgt trk msg p r vid x s r' (Inr (import_result_default\<lparr>ir_valid_voter := True, ir_equivocation := None\<rparr>))"
| equivocation: "voter_set_get (voters r) vid = Some v \<Longrightarrow> recorded parent r p vid v (tgt y) True r' \<Longrightarrow>
    fresh parent number r' \<Longrightarrow> (y, u) \<noteq> (x, s) \<Longrightarrow> bt_get (vt_votes (trk r)) vid = Some (Single y u) \<Longrightarrow>
    entered (trk r) vid (Equivocated (y, u) (x, s)) (trk r') \<Longrightarrow> r_historical_votes r' = logged msg r vid x s \<Longrightarrow>
    r_graph r' = r_graph r \<Longrightarrow>
    imported parent number tgt trk msg p r vid x s r' (Inr (import_result_default\<lparr>ir_valid_voter := True,
      ir_equivocation := Some \<lparr>eq_round_number = r_round_number r, eq_identity = vid, eq_first = (y, u), eq_second = (x, s)\<rparr>\<rparr>))"

abbreviation imported_prevote where
  "imported_prevote parent number \<equiv> imported parent number pv_target_hash r_prevote MPrevote Prevote"

abbreviation imported_precommit where
  "imported_precommit parent number \<equiv> imported parent number pc_target_hash r_precommit MPrecommit Precommit"

lemma imported_extends: "imported parent number tgt trk msg p r vid x s r' res \<Longrightarrow> extends r r'"
  by (induction rule: imported.induct) (auto intro: extends_refl recorded_extends)

lemma imported_changed:
  "imported parent number tgt trk msg p r vid x s r' (Inr res) \<Longrightarrow> trk r' \<noteq> trk r \<Longrightarrow> fresh parent number r'"
  by (erule imported.cases) auto

lemma recorded_same:
  assumes "recorded parent r p vid v t e r1" "same_votes r1 r'"
  shows "recorded parent r p vid v t e r'"
  using assms(1) unfolding recorded_def same_votes_fields [OF assms(2)] .

lemma bitfield_equivocated:
  "bitfield_set (cx_equivocations (equivocated cx v p)) = bitfield_set (cx_equivocations cx) \<union> {phase_bit p (vi_position v)}"
  by (auto simp: equivocated_def bitfield_set_set_bit)

lemma cx_voters_equivocated [simp]: "cx_voters (equivocated cx v p) = cx_voters cx"
  by (simp add: equivocated_def)

context chain
begin

lemma recorded_finish:
  assumes ok: "round_ok parent number r" and v: "voter_set_get (voters r) vid = Some v"
    and rec: "recorded parent r p vid v t e r1" and st: "round_state r1 = round_state r" "r_precommit_ghost r1 = r_precommit_ghost r"
    and g: "graph_ok parent number (r_graph r1)" "\<forall>V. core_ok parent number r V \<longrightarrow> votes_ok parent (r_graph r1)
      (if \<not> e \<and> descends parent (base r) t then V @ [(t, vote_bits v p)] else V)"
  shows "\<exists>r'. prevote_finish r1 = Some r' \<and> round_ok parent number r' \<and> recorded parent r p vid v t e r' \<and> fresh parent number r'"
proof -
  note vr = vote_recorded [OF ok v rec st g]
  obtain V1 where core1: "core_ok parent number r1 V1" using vr(1) by blast
  obtain r2 where r2: "(if vote_weight_ge_voter (vt_current_weight (r_prevote r1)) (vs_threshold (voters r1))
      then Option.bind (find_ghost (r_graph r1) (r_prevote_ghost r1) (has_quorum r1 Prevote))
        (\<lambda>ghost. Some (r1\<lparr>r_prevote_ghost := ghost\<rparr>))
      else Some r1) = Some r2" "same_votes r1 r2" "ghost_ok parent number r2" "memo_initial r2"
    using prevote_ghost_search [OF core1 vr(2,3)] by (elim exE conjE) (rule that)
  have core2: "core_ok parent number r2 V1" using core1 unfolding same_votes_cong [OF r2(2)] .
  obtain r' where r': "round_update r2 = Some r'" "round_ok parent number r'" "settled r2 r'"
    using round_finish [OF core2 r2(3,4)] by (elim exE conjE) (rule that)
  have sv: "same_votes r2 r'" using r'(3) by (simp add: settled_def)
  have "fresh parent number r'"
    using round_update_spec [OF core2 r2(3,4) _ r'(1)] by (simp add: fresh_def same_votes_cong [OF sv])
  moreover have "prevote_finish r1 = Some r'" unfolding prevote_finish_def r2(1) by (simp add: r'(1))
  ultimately show ?thesis using r'(2) recorded_same [OF recorded_same [OF rec r2(2)] sv] by blast
qed

lemma ghost_ok_precommit:
  assumes rec: "recorded parent r Precommit vid v t e r1" and ok: "ghost_ok parent number r"
    and gh: "r_prevote_ghost r1 = r_prevote_ghost r" and below: "ghosts_below parent number r1"
  shows "ghost_ok parent number r1"
proof -
  note fr = rec_voters [OF rec] rec_base [OF rec]
  have v: "view r1 Prevote = view r Prevote" using rec_view [OF rec, of Prevote] by simp
  have "support parent r1 Prevote b = support parent r Prevote b" for b
    by (simp add: support_def supporters_def v fr)
  moreover have "equivs r1 Prevote = equivs r Prevote" by (simp add: equivs_def v)
  ultimately have "ghost_is parent number r1 Prevote = ghost_is parent number r Prevote"
    "support parent r1 Prevote (base r1) = support parent r Prevote (base r)"
    by (simp_all add: fun_eq_iff ghost_is_def fr)
  then show ?thesis
    using ok below unfolding ghost_ok_def ghosts_below_def gh fr by (auto split: option.splits)
qed

lemma recorded_finish_precommit:
  assumes ok: "round_ok parent number r" and v: "voter_set_get (voters r) vid = Some v"
    and rec: "recorded parent r Precommit vid v t e r1" and st: "round_state r1 = round_state r" "r_precommit_ghost r1 = r_precommit_ghost r"
    and g: "graph_ok parent number (r_graph r1)" "\<forall>V. core_ok parent number r V \<longrightarrow> votes_ok parent (r_graph r1)
      (if \<not> e \<and> descends parent (base r) t then V @ [(t, vote_bits v Precommit)] else V)"
  shows "\<exists>r'. round_update r1 = Some r' \<and> round_ok parent number r' \<and> recorded parent r Precommit vid v t e r' \<and>
    fresh parent number r'"
proof -
  note vr = vote_recorded [OF ok v rec st g]
  obtain V1 where core1: "core_ok parent number r1 V1" using vr(1) by blast
  have "ghost_ok parent number r" using ok by (simp add: round_ok_def)
  then have gh: "ghost_ok parent number r1"
    using ghost_ok_precommit [OF rec _ _ vr(2)] st(1) by (simp add: round_state_def)
  obtain r' where r': "round_update r1 = Some r'" "round_ok parent number r'" "settled r1 r'"
    using round_finish [OF core1 gh vr(3)] by (elim exE conjE) (rule that)
  have sv: "same_votes r1 r'" using r'(3) by (simp add: settled_def)
  have "fresh parent number r'"
    using round_update_spec [OF core1 gh vr(3) _ r'(1)] by (simp add: fresh_def same_votes_cong [OF sv])
  then show ?thesis using r' recorded_same [OF rec sv] by blast
qed

lemma import_insert:
  assumes core: "core_ok parent number r V" and t: "descends parent (base r) t"
  obtains g where "vote_graph_insert ancestry vote_node_add_vote (r_graph r) t (number t) (vote_new v p) = Some (Inr g)"
    "graph_ok parent number g" "g_base g = base r"
    "\<forall>V. core_ok parent number r V \<longrightarrow> votes_ok parent g (V @ [(t, vote_bits v p)])"
proof -
  have ins: "\<exists>g. vote_graph_insert ancestry vote_node_add_vote (r_graph r) t (number t) (vote_new v p) = Some (Inr g) \<and>
      graph_ok parent number g \<and> votes_ok parent g (V @ [(t, vote_bits v p)]) \<and> nodes g = insert t (nodes (r_graph r)) \<and>
      g_base g = base r" if "core_ok parent number r V" for V
    by (rule insert_Inr [OF core_graph [OF that] core_votes [OF that] t]) (rule add_vote_node)
  obtain g where g: "vote_graph_insert ancestry vote_node_add_vote (r_graph r) t (number t) (vote_new v p) = Some (Inr g)"
    "graph_ok parent number g" "g_base g = base r" using ins [OF core] by blast
  have "votes_ok parent g (V @ [(t, vote_bits v p)])" if "core_ok parent number r V" for V
    using ins [OF that] g(1) by auto
  then show thesis using that [OF g] by blast
qed

end

lemma recorded_prevote:
  assumes "g_base g = base r" "tracker_view pv_target_hash (r_prevote r) vid = (if e then Some (t, False) else None)"
    "tracker_view pv_target_hash vt = (tracker_view pv_target_hash (r_prevote r))(vid \<mapsto> (t, e))"
    "vt_current_weight vt = (if e then vt_current_weight (r_prevote r) else vote_weight_add_voter (vt_current_weight (r_prevote r)) (vi_weight v))"
    "cx = (if e then equivocated (r_context r) v Prevote else r_context r)"
  shows "recorded parent r Prevote vid v t e (r\<lparr>r_prevote := vt, r_context := cx, r_graph := g, r_historical_votes := l\<rparr>)"
  using assms by (simp add: recorded_def view_def current_def bitfield_equivocated split: phase.splits)

lemma recorded_precommit:
  assumes "g_base g = base r" "tracker_view pc_target_hash (r_precommit r) vid = (if e then Some (t, False) else None)"
    "tracker_view pc_target_hash vt = (tracker_view pc_target_hash (r_precommit r))(vid \<mapsto> (t, e))"
    "vt_current_weight vt = (if e then vt_current_weight (r_precommit r) else vote_weight_add_voter (vt_current_weight (r_precommit r)) (vi_weight v))"
    "cx = (if e then equivocated (r_context r) v Precommit else r_context r)"
  shows "recorded parent r Precommit vid v t e (r\<lparr>r_precommit := vt, r_context := cx, r_graph := g, r_historical_votes := l\<rparr>)"
  using assms by (simp add: recorded_def view_def current_def bitfield_equivocated split: phase.splits)

context chain
begin

lemma import_prevote_imported:
  assumes ok: "round_ok parent number r" and num: "pv_target_number x = number (pv_target_hash x)"
  shows "\<exists>r' res. import_prevote ancestry r x vid s = Some (r', res) \<and> round_ok parent number r' \<and>
    imported_prevote parent number r vid x s r' res"
proof (cases "voter_set_get (voters r) vid")
  case None
  then have "vid \<notin> voter_ids (voters r)" using voter_set_get_None ok by (auto simp: round_ok_def dest: core_voters)
  then show ?thesis using None ok imported.not_voter by (auto simp: import_prevote_def)
next
  case (Some v)
  let ?t = "pv_target_hash x" and ?ins = "vote_graph_insert ancestry vote_node_add_vote (r_graph r)"
  obtain V where core: "core_ok parent number r V" using ok by (auto simp: round_ok_def)
  have ids: "vid \<in> voter_ids (voters r)" by (rule voter_set_get_ids [OF core_voters [OF core] Some])
  note eqs = import_prevote_eqs [OF Some, where anc = ancestry]
  show ?thesis
  proof (cases rule: add_vote_cases [where vt = "r_prevote r" and vid = vid and x = x and s = s and w = "vi_weight v" and tgt = pv_target_hash])
    case (duplicate m)
    have seen: "view r Prevote vid \<noteq> None" using duplicate(2) by (simp add: view_simps tracker_view_def)
    show ?thesis
      using eqs(1) [OF duplicate(1)] ok imported.duplicate [OF ids seen, where trk = r_prevote, OF duplicate(2,3)] by (intro exI conjI) assumption
  next
    case (excess a b)
    have seen: "view r Prevote vid \<noteq> None" using excess(2) by (simp add: view_simps tracker_view_def)
    show ?thesis
      using eqs(1) [OF excess(1)] ok imported.excess [OF ids seen, where trk = r_prevote, OF excess(2,3)] by (intro exI conjI) assumption
  next
    case (first vt)
    show ?thesis
    proof (cases "descends parent (base r) ?t")
      case True
      obtain g where g: "?ins ?t (number ?t) (vote_new v Prevote) = Some (Inr g)" "graph_ok parent number g" "g_base g = base r"
        "\<forall>V. core_ok parent number r V \<longrightarrow> votes_ok parent g (V @ [(?t, vote_bits v Prevote)])"
        by (rule import_insert [OF core True])
      let ?r1 = "r\<lparr>r_prevote := vt, r_graph := g, r_historical_votes := prevote_log r x vid s\<rparr>"
      have rec: "recorded parent r Prevote vid v ?t False ?r1"
        using recorded_prevote [where r = r and g = g and cx = "r_context r" and e = False] g(3) first by simp
      obtain r' where r': "prevote_finish ?r1 = Some r'" "round_ok parent number r'" "recorded parent r Prevote vid v ?t False r'"
          "fresh parent number r'"
        using recorded_finish [OF ok Some rec] g(2,4) True by (auto simp: round_state_def)
      show ?thesis
        using eqs(3) [OF first(1)] g(1) num r' imported.counted [where tgt = pv_target_hash and trk = r_prevote and msg = MPrevote and x = x, OF Some r'(3) True r'(4) first(5)]
          prevote_finish_keeps [OF r'(1)] first(6) by (auto simp: entered_def logged_def prevote_log_def)
    next
      case False
      have ins: "?ins ?t (number ?t) (vote_new v Prevote) = Some (Inl NotDescendent)"
        by (rule insert_Inl [OF core_graph [OF core] False])
      have rec: "recorded parent r Prevote vid v ?t False (r\<lparr>r_prevote := vt\<rparr>)"
        using recorded_prevote [where r = r and g = "r_graph r" and cx = "r_context r" and e = False
          and l = "r_historical_votes r"] first by simp
      have st: "round_state (r\<lparr>r_prevote := vt\<rparr>) = round_state r" by (simp add: round_state_def)
      have "round_ok parent number (r\<lparr>r_prevote := vt\<rparr>)"
        by (rule vote_refused [OF ok Some rec st _ _ False]) simp_all
      then show ?thesis using eqs(2) [OF first(1)] ins num imported.refused [where tgt = pv_target_hash and trk = r_prevote and x = x, OF Some rec False st first(5)] first(6)
        by (auto simp: entered_def)
    qed
  next
    case (second vt y u)
    let ?r1 = "r\<lparr>r_prevote := vt, r_context := equivocated (r_context r) v Prevote, r_historical_votes := prevote_log r x vid s\<rparr>"
    have rec: "recorded parent r Prevote vid v (pv_target_hash y) True ?r1"
      using recorded_prevote [where r = r and g = "r_graph r" and cx = "equivocated (r_context r) v Prevote" and e = True] second by simp
    have "graph_ok parent number (r_graph ?r1)" "\<forall>V. core_ok parent number r V \<longrightarrow> votes_ok parent (r_graph ?r1) V"
      using core_graph [OF core] by (auto dest: core_votes)
    then obtain r' where r': "prevote_finish ?r1 = Some r'" "round_ok parent number r'"
        "recorded parent r Prevote vid v (pv_target_hash y) True r'" "fresh parent number r'"
      using recorded_finish [OF ok Some rec] by (auto simp: round_state_def)
    show ?thesis
      using eqs(4) [OF second(1)] r' imported.equivocation [where tgt = pv_target_hash and trk = r_prevote and msg = MPrevote and y = y and x = x, OF Some r'(3,4) second(6,5)]
        prevote_finish_keeps [OF r'(1)] second(7) by (auto simp: entered_def logged_def prevote_log_def)
  qed
qed

lemma import_precommit_imported:
  assumes ok: "round_ok parent number r" and num: "pc_target_number x = number (pc_target_hash x)"
  shows "\<exists>r' res. import_precommit ancestry r x vid s = Some (r', res) \<and> round_ok parent number r' \<and>
    imported_precommit parent number r vid x s r' res"
proof (cases "voter_set_get (voters r) vid")
  case None
  then have "vid \<notin> voter_ids (voters r)" using voter_set_get_None ok by (auto simp: round_ok_def dest: core_voters)
  then show ?thesis using None ok imported.not_voter by (auto simp: import_precommit_def)
next
  case (Some v)
  let ?t = "pc_target_hash x" and ?ins = "vote_graph_insert ancestry vote_node_add_vote (r_graph r)"
  obtain V where core: "core_ok parent number r V" using ok by (auto simp: round_ok_def)
  have ids: "vid \<in> voter_ids (voters r)" by (rule voter_set_get_ids [OF core_voters [OF core] Some])
  note eqs = import_precommit_eqs [OF Some, where anc = ancestry]
  show ?thesis
  proof (cases rule: add_vote_cases [where vt = "r_precommit r" and vid = vid and x = x and s = s and w = "vi_weight v" and tgt = pc_target_hash])
    case (duplicate m)
    have seen: "view r Precommit vid \<noteq> None" using duplicate(2) by (simp add: view_simps tracker_view_def)
    show ?thesis
      using eqs(1) [OF duplicate(1)] ok imported.duplicate [OF ids seen, where trk = r_precommit, OF duplicate(2,3)] by (intro exI conjI) assumption
  next
    case (excess a b)
    have seen: "view r Precommit vid \<noteq> None" using excess(2) by (simp add: view_simps tracker_view_def)
    show ?thesis
      using eqs(1) [OF excess(1)] ok imported.excess [OF ids seen, where trk = r_precommit, OF excess(2,3)] by (intro exI conjI) assumption
  next
    case (first vt)
    show ?thesis
    proof (cases "descends parent (base r) ?t")
      case True
      obtain g where g: "?ins ?t (number ?t) (vote_new v Precommit) = Some (Inr g)" "graph_ok parent number g" "g_base g = base r"
        "\<forall>V. core_ok parent number r V \<longrightarrow> votes_ok parent g (V @ [(?t, vote_bits v Precommit)])"
        by (rule import_insert [OF core True])
      let ?r1 = "r\<lparr>r_precommit := vt, r_graph := g, r_historical_votes := precommit_log r x vid s\<rparr>"
      have rec: "recorded parent r Precommit vid v ?t False ?r1"
        using recorded_precommit [where r = r and g = g and cx = "r_context r" and e = False] g(3) first by simp
      obtain r' where r': "round_update ?r1 = Some r'" "round_ok parent number r'" "recorded parent r Precommit vid v ?t False r'"
          "fresh parent number r'"
        using recorded_finish_precommit [OF ok Some rec] g(2,4) True by (auto simp: round_state_def)
      show ?thesis
        using eqs(3) [OF first(1)] g(1) num r' imported.counted [where tgt = pc_target_hash and trk = r_precommit and msg = MPrecommit and x = x, OF Some r'(3) True r'(4) first(5)]
          round_update_keeps [OF r'(1)] first(6) by (auto simp: entered_def logged_def precommit_log_def)
    next
      case False
      have ins: "?ins ?t (number ?t) (vote_new v Precommit) = Some (Inl NotDescendent)"
        by (rule insert_Inl [OF core_graph [OF core] False])
      have rec: "recorded parent r Precommit vid v ?t False (r\<lparr>r_precommit := vt\<rparr>)"
        using recorded_precommit [where r = r and g = "r_graph r" and cx = "r_context r" and e = False
          and l = "r_historical_votes r"] first by simp
      have st: "round_state (r\<lparr>r_precommit := vt\<rparr>) = round_state r" by (simp add: round_state_def)
      have "round_ok parent number (r\<lparr>r_precommit := vt\<rparr>)"
        by (rule vote_refused [OF ok Some rec st _ _ False]) simp_all
      then show ?thesis using eqs(2) [OF first(1)] ins num imported.refused [where tgt = pc_target_hash and trk = r_precommit and x = x, OF Some rec False st first(5)] first(6)
        by (auto simp: entered_def)
    qed
  next
    case (second vt y u)
    let ?r1 = "r\<lparr>r_precommit := vt, r_context := equivocated (r_context r) v Precommit, r_historical_votes := precommit_log r x vid s\<rparr>"
    have rec: "recorded parent r Precommit vid v (pc_target_hash y) True ?r1"
      using recorded_precommit [where r = r and g = "r_graph r" and cx = "equivocated (r_context r) v Precommit" and e = True] second by simp
    have "graph_ok parent number (r_graph ?r1)" "\<forall>V. core_ok parent number r V \<longrightarrow> votes_ok parent (r_graph ?r1) V"
      using core_graph [OF core] by (auto dest: core_votes)
    then obtain r' where r': "round_update ?r1 = Some r'" "round_ok parent number r'"
        "recorded parent r Precommit vid v (pc_target_hash y) True r'" "fresh parent number r'"
      using recorded_finish_precommit [OF ok Some rec] by (auto simp: round_state_def)
    show ?thesis
      using eqs(4) [OF second(1)] r' imported.equivocation [where tgt = pc_target_hash and trk = r_precommit and msg = MPrecommit and y = y and x = x, OF Some r'(3,4) second(6,5)]
        round_update_keeps [OF r'(1)] second(7) by (auto simp: entered_def logged_def precommit_log_def)
  qed
qed

end

end
