(* ===== verification/Round_Steps.thy ===== *)
theory Round_Steps
  imports Round_Import
begin

text \<open>
  A round as a state machine: the steps are the operations of \<^verbatim>\<open>Round\<close> that change it, with votes that carry the number
  of their target block. Every reachable round satisfies \<open>round_ok\<close>, views only grow along steps, and the
  state memoised by the last update is monotone.
\<close>

section \<open>Steps\<close>

inductive round_step ::
  "('h \<Rightarrow> 'h \<Rightarrow> error + 'h list) \<Rightarrow> ('h \<Rightarrow> nat) \<Rightarrow> ('i :: linorder, 'h :: linorder, 's) round \<Rightarrow> ('i, 'h, 's) round \<Rightarrow> bool"
  for ancestry number where
  prevote: "import_prevote ancestry r x vid s = Some (r', res) \<Longrightarrow> pv_target_number x = number (pv_target_hash x) \<Longrightarrow>
    round_step ancestry number r r'"
| precommit: "import_precommit ancestry r y vid s = Some (r', res') \<Longrightarrow> pc_target_number y = number (pc_target_hash y) \<Longrightarrow>
    round_step ancestry number r r'"
| ghost: "precommit_ghost r = Some (r', z) \<Longrightarrow> round_step ancestry number r r'"
| set_prevoted: "round_step ancestry number r (set_prevoted_index r)"
| set_precommitted: "round_step ancestry number r (set_precommitted_index r)"

abbreviation round_steps ::
  "('h \<Rightarrow> 'h \<Rightarrow> error + 'h list) \<Rightarrow> ('h \<Rightarrow> nat) \<Rightarrow> ('i :: linorder, 'h :: linorder, 's) round \<Rightarrow> ('i, 'h, 's) round \<Rightarrow> bool" where
  "round_steps ancestry number \<equiv> (round_step ancestry number)\<^sup>*\<^sup>*"

inductive reachable ::
  "('h \<Rightarrow> 'h \<Rightarrow> error + 'h list) \<Rightarrow> ('h \<Rightarrow> nat) \<Rightarrow> ('i :: linorder) voter_set \<Rightarrow> 'h :: linorder \<Rightarrow> ('i, 'h, 's) round \<Rightarrow> bool"
  for ancestry number vs b where
  start: "voter_set_new ws = Some (Some vs) \<Longrightarrow>
    reachable ancestry number vs b (round_new \<lparr>rp_round_number = n, rp_voters = vs, rp_base = (b, number b)\<rparr>)"
| step: "reachable ancestry number vs b r \<Longrightarrow> round_step ancestry number r r' \<Longrightarrow> reachable ancestry number vs b r'"

lemma reachable_steps: "round_steps ancestry number r r' \<Longrightarrow> reachable ancestry number vs b r \<Longrightarrow> reachable ancestry number vs b r'"
  by (induction rule: rtranclp_induct) (auto intro: reachable.step)

section \<open>The new round\<close>

lemma tracker_view_new [simp]: "tracker_view tgt vote_tracker_new = Map.empty"
  by (simp add: tracker_view_def vote_tracker_new_def fun_eq_iff)

lemma round_new_fields:
  assumes "r = round_new \<lparr>rp_round_number = n, rp_voters = vs, rp_base = (b, m)\<rparr>"
  shows "voters r = vs" "base r = b" "view r p = Map.empty" "vw (current r p) = 0" "equivs r p = {}"
    "supporters parent r p c = {}" "bitfield_set (cx_equivocations (r_context r)) = {}"
    "r_graph r = vote_graph_new b m 0" "r_prevote_ghost r = None" "r_precommit_ghost r = None"
    "r_finalized r = None" "r_estimate r = None" "\<not> r_completable r"
proof -
  show v: "view r p = Map.empty" for p by (simp add: assms round_new_def view_def split: phase.splits)
  show "equivs r p = {}" "supporters parent r p c = {}" by (simp_all add: equivs_def supporters_def v)
  show "vw (current r p) = 0"
    by (simp add: assms round_new_def current_def vote_tracker_new_def weight_simps split: phase.splits)
qed (simp_all add: assms round_new_def context_new_def vote_graph_new_def zero_vote_node_def vote_node_default_def)

lemma round_new_ok:
  assumes "voter_set_ok vs" and r: "r = round_new \<lparr>rp_round_number = n, rp_voters = vs, rp_base = (b, number b)\<rparr>"
  shows "round_ok parent number r"
proof -
  note f = round_new_fields [OF r]
  have "phase_ok parent r [] p" for p by (simp add: phase_ok_def f)
  then have core: "core_ok parent number r []"
    using assms(1) graph_ok_new [of parent number b 0] votes_ok_new [of parent b "number b"] by (simp add: core_ok_def f)
  have "0 < quorum r" using voter_set_total_pos [OF assms(1)] three_faulty [OF assms(1)] threshold_faulty [OF assms(1)]
    by (simp add: f)
  then have gh: "ghost_ok parent number r" by (simp add: ghost_ok_def support_def f)
  moreover have "updated parent number r" by (simp add: updated_def f)
  ultimately have "memo_ok parent number r" using memo_ok_updated [OF core gh] by blast
  then show ?thesis using core gh by (auto simp: round_ok_def memo_initial_def f)
qed

section \<open>The invariant is kept\<close>

lemma round_ok_same:
  assumes ok: "round_ok parent number r" and sv: "same_votes r r'" and st: "round_state r' = round_state r"
    and gh: "ghost_ok parent number r'"
  shows "round_ok parent number r'"
proof -
  obtain V where V: "core_ok parent number r V" "memo_initial r" "memo_ok parent number r" by (rule round_okE [OF ok])
  have "core_ok parent number r' V" using V(1) by (simp add: same_votes_cong [OF sv])
  moreover have "memo_initial r'" using V(2) st by (simp add: memo_initial_def round_state_def same_votes_cong [OF sv])
  ultimately show ?thesis
    using gh memo_ok_stale [OF V(3) same_votes_extends [OF sv] st] by (auto simp: round_ok_def)
qed

lemma round_ok_ghosts:
  assumes ok: "round_ok parent number r" and sv: "same_votes r r'"
    and st: "round_state r' = round_state r" "r_precommit_ghost r' = r_precommit_ghost r"
  shows "round_ok parent number r'"
proof (rule round_ok_same [OF ok sv st(1)])
  have g: "r_prevote_ghost r' = r_prevote_ghost r" using st(1) by (simp add: round_state_def)
  have "ghost_ok parent number r" using ok by (simp add: round_ok_def)
  then show "ghost_ok parent number r'" unfolding ghost_ok_def g st(2) same_votes_cong [OF sv] .
qed

context chain
begin

lemma precommit_ghost_ok:
  assumes ok: "round_ok parent number r"
  shows "\<exists>r' x. precommit_ghost r = Some (r', x) \<and> round_ok parent number r' \<and> same_votes r r' \<and>
    round_state r' = round_state r \<and> x = r_precommit_ghost r' \<and>
    (if vw (current r Precommit) < quorum r then x = None
     else case x of None \<Rightarrow> support parent r Precommit (base r) < quorum r | Some gn \<Rightarrow> ghost_is parent number r Precommit gn)"
proof -
  obtain V where V: "core_ok parent number r V" "ghost_ok parent number r" by (rule round_okE [OF ok])
  have cb: "n = number h \<and> descends parent (base r) h \<and> quorum r \<le> support parent r Precommit h"
    if "r_precommit_ghost r = Some (h, n)" for h n using V(2) that by (simp add: ghost_ok_def)
  have hq: "(\<lambda>v. vote_weight_ge_voter (context_weight (r_context r) v Precommit) (round_threshold r)) = has_quorum r Precommit"
    by (simp add: fun_eq_iff has_quorum_def round_threshold_def)
  show ?thesis
  proof (cases "vw (current r Precommit) < quorum r")
    case True
    then have "precommit_ghost r = Some (r, r_precommit_ghost r)"
      by (simp add: precommit_ghost_def Let_def round_threshold_def ge_voter_iff view_simps)
    moreover have "r_precommit_ghost r = None"
    proof (cases "r_precommit_ghost r")
      case (Some hn)
      then show ?thesis
        using cb [of "fst hn" "snd hn"] support_le_current [OF V(1), of Precommit "fst hn"] True by simp
    qed simp
    ultimately show ?thesis using True ok by (simp add: same_votes_def)
  next
    case False
    obtain x where x: "find_ghost (r_graph r) (r_precommit_ghost r) (has_quorum r Precommit) = Some x"
      "case x of None \<Rightarrow> r_precommit_ghost r = None \<and> support parent r Precommit (base r) < quorum r
        | Some gn \<Rightarrow> ghost_is parent number r Precommit gn"
      using round_find_ghost [OF V(1) cb] by blast
    let ?r = "r\<lparr>r_precommit_ghost := x\<rparr>"
    have sv: "same_votes r ?r" by (simp add: same_votes_def)
    have "ghost_ok parent number ?r"
      using x(2) V(2) unfolding ghost_ok_def same_votes_cong [OF sv] by (auto simp: ghost_is_def split: option.splits)
    then have "round_ok parent number ?r" using round_ok_same [OF ok sv] by (simp add: round_state_def)
    moreover have "precommit_ghost r = Some (?r, x)"
      using False x(1) hq by (simp add: precommit_ghost_def Let_def round_threshold_def ge_voter_iff view_simps)
    ultimately show ?thesis using False x(2) sv by (auto simp: round_state_def split: option.splits)
  qed
qed

text \<open>What every step does to the view and to the memoised state.\<close>

lemma round_step_ok:
  assumes "round_step ancestry number r r'" and ok: "round_ok parent number r"
  shows "round_ok parent number r' \<and> extends r r' \<and> (round_state r' = round_state r \<or> fresh parent number r')"
  using assms(1)
proof cases
  case (prevote x vid s res)
  then have r': "round_ok parent number r'" and imp: "imported_prevote parent number r vid x s r' res"
    using import_prevote_imported [OF ok, of x vid s] by auto
  show ?thesis using r' imported_extends [OF imp] imp by (auto elim: imported.cases)
next
  case (precommit y vid s res)
  then have r': "round_ok parent number r'" and imp: "imported_precommit parent number r vid y s r' res"
    using import_precommit_imported [OF ok, of y vid s] by auto
  show ?thesis using r' imported_extends [OF imp] imp by (auto elim: imported.cases)
next
  case (ghost z)
  then show ?thesis using precommit_ghost_ok [OF ok] same_votes_extends by auto
next
  case set_prevoted
  then have sv: "same_votes r r'" and st: "round_state r' = round_state r" "r_precommit_ghost r' = r_precommit_ghost r"
    by (simp_all add: same_votes_def round_state_def set_prevoted_index_def)
  then show ?thesis using round_ok_ghosts [OF ok sv st] same_votes_extends [OF sv] by simp
next
  case set_precommitted
  then have sv: "same_votes r r'" and st: "round_state r' = round_state r" "r_precommit_ghost r' = r_precommit_ghost r"
    by (simp_all add: same_votes_def round_state_def set_precommitted_index_def)
  then show ?thesis using round_ok_ghosts [OF ok sv st] same_votes_extends [OF sv] by simp
qed

lemma round_steps_ok:
  assumes "round_steps ancestry number r r'" and ok: "round_ok parent number r"
  shows "round_ok parent number r' \<and> extends r r'"
  using assms(1)
proof (induction rule: rtranclp_induct)
  case base
  then show ?case using ok extends_refl by blast
next
  case (step r1 r2)
  then show ?case using round_step_ok [OF step.hyps(2)] extends_trans by blast
qed

lemma reachable_ok:
  assumes "reachable ancestry number vs b r"
  shows "round_ok parent number r \<and> voters r = vs \<and> base r = b"
  using assms
proof (induction rule: reachable.induct)
  case (start ws n)
  then show ?case
    using round_new_ok [OF voter_set_new_ok [OF start] HOL.refl] round_new_fields(1,2) [OF HOL.refl] by blast
next
  case (step r r')
  then show ?case using round_step_ok [OF step.hyps(2)] extendsD by metis
qed

end

end
