(* ===== verification/Round_Safety.thy ===== *)
theory Round_Safety
  imports Round_Steps
begin

text \<open>
  Safety of a round: two blocks with a quorum are on one chain unless more than the tolerated weight equivocated, a block that
  later gets a quorum of precommits could already be committed before, so that nothing above the
  estimate of a completable round is ever finalized in it.
\<close>

section \<open>Weights of voter sets\<close>

lemma weight_of_set_Un_le: "weight_of_set vs (A \<union> B) \<le> weight_of_set vs A + weight_of_set vs B"
  using weight_of_set_Un_Int [of vs A B] by linarith

lemma weight_of_set_disjoint: "A \<inter> B = {} \<Longrightarrow> weight_of_set vs (A \<union> B) = weight_of_set vs A + weight_of_set vs B"
  using weight_of_set_Un_Int [of vs A B] by simp

lemma weight_of_set_restrict: "weight_of_set vs (A \<inter> voter_ids vs) = weight_of_set vs A"
  by (simp add: weight_of_set_def)

lemma faulty_less_threshold: "voter_set_ok vs \<Longrightarrow> faulty vs < rw (vs_threshold vs)"
  using three_faulty [of vs] threshold_faulty [of vs] by linarith

section \<open>Later quorums\<close>

lemma later_quorum_possible:
  assumes ex: "extends r r'" and core: "core_ok parent number r V" "core_ok parent number r' V'"
    and eq: "weight_of_set (voters r) (equivs r' Precommit) \<le> faulty (voters r)"
    and q: "quorum r \<le> support parent r' Precommit b"
  shows "could_commit parent r b"
proof -
  let ?w = "weight_of_set (voters r)" and ?S = "supporters parent r Precommit b" and ?S' = "supporters parent r' Precommit b"
  let ?D = "dom (view r Precommit)" and ?E = "equivs r Precommit"
  let ?N = "?S' \<inter> ?D - ?S"
  note ok = core_voters [OF core(1)]
  have D: "?D \<subseteq> voter_ids (voters r)" by (rule phase_dom [OF core_phase [OF core(1)]])
  have S': "?S' \<subseteq> voter_ids (voters r)"
    using supporters_dom phase_dom [OF core_phase [OF core(2)], of Precommit] extendsD(1) [OF ex] by fastforce
  have new: "vid \<in> equivs r' Precommit - ?E" if vid: "vid \<in> ?N" for vid
  proof -
    obtain t e where t: "view r Precommit vid = Some (t, e)" using vid by auto
    then have "\<not> e" "\<not> descends parent b t" using vid by (auto simp: supporters_def)
    moreover obtain e' where "view r' Precommit vid = Some (t, e')" using view_leD [OF extendsD(3) [OF ex] t] by blast
    ultimately show ?thesis using vid t by (auto simp: supporters_def equivs_def)
  qed
  have total: "?w ?D + ?w (voter_ids (voters r) - ?D) = rw (vs_total_weight (voters r))"
    using weight_of_set_disjoint [of ?D "voter_ids (voters r) - ?D" "voters r"] weight_of_set_total [OF ok] D
    by (simp add: Un_absorb1)
  have "?w ?S' \<le> ?w (?S \<union> (voter_ids (voters r) - ?D) \<union> ?N)" using S' by (intro weight_of_set_mono) auto
  also have "\<dots> \<le> ?w ?S + ?w (voter_ids (voters r) - ?D) + ?w ?N"
    using weight_of_set_Un_le [of "voters r" "?S \<union> (voter_ids (voters r) - ?D)" ?N]
      weight_of_set_Un_le [of "voters r" ?S "voter_ids (voters r) - ?D"] by linarith
  finally have le: "quorum r \<le> ?w ?S + ?w (voter_ids (voters r) - ?D) + ?w ?N"
    using q by (simp add: support_def extendsD(1) [OF ex])
  have "?w ?S + ?w ?N = ?w (?S \<union> ?N)" by (rule weight_of_set_disjoint [symmetric]) auto
  also have "\<dots> \<le> ?w ?D" using supporters_dom by (intro weight_of_set_mono) fastforce
  finally have n1: "?w ?N \<le> ?w ?D - ?w ?S" by linarith
  have "?w ?E + ?w ?N = ?w (?E \<union> ?N)" using new by (intro weight_of_set_disjoint [symmetric]) auto
  also have "\<dots> \<le> ?w (equivs r' Precommit)" using new extends_equivs [OF ex] by (intro weight_of_set_mono) auto
  finally have n2: "?w ?N \<le> faulty (voters r) - ?w ?E" using eq by linarith
  show ?thesis
    using le n1 n2 total unfolding could_commit_def support_def phase_current [OF core_phase [OF core(1)]] by linarith
qed

lemma quorum_common_voter:
  assumes core: "core_ok parent number r V" and eq: "weight_of_set (voters r) (equivs r p) \<le> faulty (voters r)"
    and a: "quorum r \<le> support parent r p a" and b: "quorum r \<le> support parent r p b"
  shows "\<exists>t. descends parent a t \<and> descends parent b t"
proof -
  have "faulty (voters r) < weight_of_set (voters r) (supporters parent r p a \<inter> supporters parent r p b)"
    using a b by (intro threshold_intersection [OF core_voters [OF core]]) (simp_all add: support_def)
  then have "\<not> supporters parent r p a \<inter> supporters parent r p b \<subseteq> equivs r p"
    using eq weight_of_set_mono [of "supporters parent r p a \<inter> supporters parent r p b" "equivs r p" "voters r"] by linarith
  then obtain vid where "vid \<in> supporters parent r p a" "vid \<in> supporters parent r p b" "vid \<notin> equivs r p" by blast
  then show ?thesis by (auto simp: supporters_def equivs_def)
qed

lemma quorums_comparable:
  assumes core: "core_ok parent number r V" and eq: "weight_of_set (voters r) (equivs r p) \<le> faulty (voters r)"
    and a: "quorum r \<le> support parent r p a" and b: "quorum r \<le> support parent r p b"
  shows "descends parent a b \<or> descends parent b a"
  using quorum_common_voter [OF assms] descends_linear by metis

lemma ghost_above_quorum:
  assumes core: "core_ok parent number r V" and eq: "weight_of_set (voters r) (equivs r p) \<le> faulty (voters r)"
    and g: "ghost_is parent number r p (g, n)" and b: "quorum r \<le> support parent r p b"
  shows "descends parent b g"
proof -
  have "support parent r p c < quorum r" if "descends parent g c" "g \<noteq> c" for c
    using g that eq faulty_less_threshold [OF core_voters [OF core]] by (simp add: ghost_is_def)
  moreover have "quorum r \<le> support parent r p g" using g by (simp add: ghost_is_def)
  ultimately show ?thesis using quorums_comparable [OF core eq _ b] b by fastforce
qed

lemma could_commit_mono:
  assumes core: "core_ok parent number r V" and d: "descends parent a b" and b: "could_commit parent r b"
  shows "could_commit parent r a"
  using b support_mono [OF d, of r Precommit] support_le_current [OF core, of Precommit a]
    support_le_current [OF core, of Precommit b]
  unfolding could_commit_def by linarith

section \<open>The estimate\<close>

context chain
begin

lemma highest_above:
  assumes "highest parent number r g P (Some (a, n))" "descends parent b g" "P b"
  shows "descends parent b a"
proof -
  have a: "descends parent a g" "\<And>c. descends parent a c \<Longrightarrow> descends parent c g \<Longrightarrow> a \<noteq> c \<Longrightarrow> \<not> P c"
    using assms(1) by (auto simp: highest_def)
  show ?thesis using descends_linear [OF assms(2) a(1)] a(2) [OF _ assms(2)] assms(3) by auto
qed

text \<open>Nothing above the estimate of a completable round ever gets a quorum of both prevotes and precommits.\<close>

lemma completable_estimate:
  assumes ex: "extends r r'" and core: "core_ok parent number r V" "core_ok parent number r' V'"
    and gh: "ghost_ok parent number r" and upd: "updated parent number r" and c: "r_completable r"
    and eq: "\<And>p. weight_of_set (voters r) (equivs r' p) \<le> faulty (voters r)"
    and q: "\<And>p. quorum r \<le> support parent r' p f"
  shows "\<exists>e. r_estimate r = Some (e, number e) \<and> descends parent f e"
proof -
  obtain g where g: "r_prevote_ghost r = Some (g, number g)" "ghost_is parent number r Prevote (g, number g)"
    using upd c gh by (auto simp: updated_def ghost_ok_def ghost_is_def split: option.splits)
  have eqr: "weight_of_set (voters r) (equivs r p) \<le> faulty (voters r)" for p
    using eq [of p] weight_of_set_mono [OF extends_equivs [OF ex], of "voters r" p] by linarith
  have cur: "\<not> vw (current r Precommit) < quorum r" using upd c g(1) by (auto simp: updated_def)
  then obtain e n where e: "r_estimate r = Some (e, n)" "highest parent number r g (could_commit parent r) (r_estimate r)"
      "e \<noteq> g \<or> (\<forall>c. descends parent g c \<longrightarrow> g \<noteq> c \<longrightarrow> \<not> could_commit parent r c)"
    using upd c g(1) eqr [of Precommit] by (auto simp: updated_def split: option.splits)
  then have n: "n = number e" by (simp add: highest_def)
  have poss: "could_commit parent r f" by (rule later_quorum_possible [OF ex core eq q])
  have "quorum r \<le> support parent r' Prevote g"
    using g(2) extends_support [OF ex, of parent Prevote g] by (simp add: ghost_is_def)
  then have "descends parent f g \<or> descends parent g f"
    using quorums_comparable [OF core(2), of Prevote f g] eq q by (simp add: extendsD(1) [OF ex])
  then have "descends parent f g"
  proof
    assume gf: "descends parent g f"
    have "descends parent g e"
      using highest_above [OF e(2) [unfolded e(1)] descends_refl] could_commit_mono [OF core(1) gf poss] .
    moreover have "descends parent e g" using e(1,2) by (simp add: highest_def)
    ultimately have "e = g" using descends_antisym by blast
    then show ?thesis using e(3) gf poss by auto
  qed
  then show ?thesis using highest_above [OF e(2) [unfolded e(1)] _ poss] e(1) n by blast
qed

lemma completable_safe:
  assumes ok: "round_ok parent number r" and steps: "round_steps ancestry number r r'" and c: "r_completable r"
    and eq: "\<And>p. weight_of_set (voters r) (equivs r' p) \<le> faulty (voters r)"
    and q: "\<And>p. quorum r \<le> support parent r' p f"
  shows "\<exists>e. r_estimate r = Some (e, number e) \<and> descends parent f e"
proof -
  obtain V where V: "core_ok parent number r V" "memo_ok parent number r" by (rule round_okE [OF ok])
  have r': "round_ok parent number r'" "extends r r'" using round_steps_ok [OF steps ok] by auto
  obtain V' where V': "core_ok parent number r' V'" by (rule round_okE [OF r'(1)])
  obtain r0 V0 where r0: "extends r0 r" "round_state r0 = round_state r" "core_ok parent number r0 V0"
      "ghost_ok parent number r0" "weight_of_set (voters r0) (equivs r0 Prevote) < quorum r0 \<longrightarrow> updated parent number r0"
    using V(2) by (auto simp: memo_ok_def)
  have ex: "extends r0 r'" by (rule extends_trans [OF r0(1) r'(2)])
  note vs = extendsD(1) [OF r0(1)]
  have "weight_of_set (voters r0) (equivs r0 Prevote) \<le> faulty (voters r0)"
    using weight_of_set_mono [OF extends_equivs [OF ex], of "voters r" Prevote] eq [of Prevote] by (simp add: vs)
  then have "updated parent number r0" using r0(5) faulty_less_threshold [OF core_voters [OF r0(3)]] by simp
  moreover have "r_completable r0" "r_estimate r0 = r_estimate r" using r0(2) c by (simp_all add: round_state_def)
  ultimately show ?thesis
    using completable_estimate [OF ex r0(3) V' r0(4)] eq q by (simp add: vs)
qed

end

end
