(* ===== verification/Round_Facts.thy ===== *)
theory Round_Facts
  imports Round_Safety
begin

text \<open>
  What a reachable round tells its caller: what is finalized has a quorum of both kinds of votes, stays
  finalized and is backed by the precommits of \<^verbatim>\<open>finalizing_precommits\<close>; a block with both quorums gets finalized; the
  participation weights are exact; votes that have not been seen yet can always be cast; a tracker after a list of votes holds
  of every voter the first one and the first different one.
\<close>

section \<open>Finalized blocks\<close>

lemma updated_finalized:
  assumes core: "core_ok parent number r V" and gh: "ghost_ok parent number r" and upd: "updated parent number r"
    and f: "r_finalized r = Some (f, n)"
  shows "n = number f" "descends parent (base r) f" "quorum r \<le> support parent r p f"
    "\<exists>g. r_prevote_ghost r = Some (g, number g) \<and> descends parent f g"
proof -
  obtain g where g: "r_prevote_ghost r = Some (g, number g)" "ghost_is parent number r Prevote (g, number g)"
    using upd f gh by (auto simp: updated_def ghost_ok_def ghost_is_def split: option.splits)
  have h: "highest parent number r g (\<lambda>b. quorum r \<le> support parent r Precommit b) (Some (f, n))"
    using upd f g(1) by (auto simp: updated_def split: if_splits)
  then show "n = number f" "descends parent (base r) f" by (auto simp: highest_def)
  have fg: "descends parent f g" using h by (simp add: highest_def)
  then show "\<exists>g. r_prevote_ghost r = Some (g, number g) \<and> descends parent f g" using g(1) by blast
  show "quorum r \<le> support parent r p f"
    using h g(2) support_mono [OF fg, of r Prevote] by (cases p) (auto simp: highest_def ghost_is_def)
qed

context chain
begin

lemma updated_finalizes:
  assumes core: "core_ok parent number r V" and gh: "ghost_ok parent number r" and upd: "updated parent number r"
    and eq: "\<And>p. weight_of_set (voters r) (equivs r p) \<le> faulty (voters r)"
    and b: "descends parent (base r) b" and q: "\<And>p. quorum r \<le> support parent r p b"
  shows "\<exists>f. r_finalized r = Some (f, number f) \<and> descends parent b f"
proof -
  have "quorum r \<le> support parent r Prevote (base r)" using q [of Prevote] support_mono [OF b, of r Prevote] by linarith
  then obtain g where g: "r_prevote_ghost r = Some (g, number g)" "ghost_is parent number r Prevote (g, number g)"
    using gh by (auto simp: ghost_ok_def ghost_is_def split: option.splits)
  have bg: "descends parent b g" by (rule ghost_above_quorum [OF core eq g(2) q])
  have "\<not> vw (current r Precommit) < quorum r"
    using q [of Precommit] support_le_current [OF core, of Precommit b] by linarith
  then have h: "highest parent number r g (\<lambda>b. quorum r \<le> support parent r Precommit b) (r_finalized r)"
    using upd g(1) by (simp add: updated_def)
  then obtain f n where f: "r_finalized r = Some (f, n)"
    using bg b q [of Precommit] by (cases "r_finalized r") (auto simp: highest_def)
  then have "n = number f" using h by (simp add: highest_def)
  then show ?thesis using highest_above [OF h [unfolded f] bg q] f by blast
qed

lemma round_finalized:
  assumes ok: "round_ok parent number r" and eq: "weight_of_set (voters r) (equivs r Prevote) \<le> faulty (voters r)"
    and f: "r_finalized r = Some (f, n)"
  shows "n = number f \<and> descends parent (base r) f \<and> (\<forall>p. quorum r \<le> support parent r p f)"
proof -
  obtain r0 V0 where r0: "extends r0 r" "round_state r0 = round_state r" "core_ok parent number r0 V0"
      "ghost_ok parent number r0" "weight_of_set (voters r0) (equivs r0 Prevote) < quorum r0 \<longrightarrow> updated parent number r0"
    using ok by (auto simp: round_ok_def memo_ok_def)
  have f0: "r_finalized r0 = Some (f, n)" using r0(2) f by (simp add: round_state_def)
  have "weight_of_set (voters r0) (equivs r0 Prevote) < quorum r0"
    using extends_equiv_weight [OF r0(1), of Prevote] eq faulty_less_threshold [OF core_voters [OF r0(3)]]
    by (simp add: extendsD(1) [OF r0(1)])
  then have upd: "updated parent number r0" using r0(5) by simp
  note u = updated_finalized [OF r0(3,4) upd f0]
  have "quorum r0 \<le> support parent r p f" for p
    using u(3) [of p] extends_support [OF r0(1), of parent p f] by linarith
  then show ?thesis using u(1,2) by (simp add: extendsD(1,2) [OF r0(1)])
qed

lemma finalized_step:
  assumes step: "round_step ancestry number r r'" and ok: "round_ok parent number r"
    and eq: "\<And>p. weight_of_set (voters r') (equivs r' p) \<le> faulty (voters r')"
    and f: "r_finalized r = Some (f, n)"
  shows "\<exists>f'. r_finalized r' = Some (f', number f') \<and> descends parent f f'"
proof -
  have s: "round_ok parent number r'" "extends r r'" "round_state r' = round_state r \<or> fresh parent number r'"
    using round_step_ok [OF step ok] by auto
  have "weight_of_set (voters r) (equivs r Prevote) \<le> faulty (voters r)"
    using extends_equiv_weight [OF s(2), of Prevote] eq [of Prevote] by (simp add: extendsD(1) [OF s(2)])
  then have fin: "n = number f" "descends parent (base r) f" "\<And>p. quorum r \<le> support parent r p f"
    using round_finalized [OF ok _ f] by auto
  show ?thesis
  proof (cases "round_state r' = round_state r")
    case True
    then show ?thesis using f fin(1) by (auto simp: round_state_def)
  next
    case False
    obtain V' where V': "core_ok parent number r' V'" "ghost_ok parent number r'" by (rule round_okE [OF s(1)])
    have "updated parent number r'"
      using s(3) False eq [of Prevote] faulty_less_threshold [OF core_voters [OF V'(1)]] by (simp add: fresh_def)
    moreover have "quorum r' \<le> support parent r' p f" for p
      using fin(3) [of p] extends_support [OF s(2), of parent p f] by (simp add: extendsD(1) [OF s(2)])
    ultimately show ?thesis
      using updated_finalizes [OF V' _ eq, of f] fin(2) by (simp add: extendsD(2) [OF s(2)])
  qed
qed

lemma finalized_steps:
  assumes "round_steps ancestry number r r'" and ok: "round_ok parent number r"
    and eq: "\<And>p. weight_of_set (voters r') (equivs r' p) \<le> faulty (voters r')" and f: "r_finalized r = Some (f, n)"
  shows "\<exists>f'. r_finalized r' = Some (f', number f') \<and> descends parent f f'"
  using assms(1) eq
proof (induction rule: rtranclp_induct)
  case base
  then have "n = number f" using round_finalized [OF ok _ f] by simp
  then show ?case using f by simp
next
  case (step r1 r2)
  have r1: "round_ok parent number r1" using round_steps_ok [OF step.hyps(1) ok] by simp
  have ex: "extends r1 r2" using round_step_ok [OF step.hyps(2) r1] by simp
  have "weight_of_set (voters r1) (equivs r1 p) \<le> faulty (voters r1)" for p
    using extends_equiv_weight [OF ex, of p] step.prems [of p] by (simp add: extendsD(1) [OF ex])
  then obtain f' where f': "r_finalized r1 = Some (f', number f')" "descends parent f f'" using step.IH by blast
  show ?case using finalized_step [OF step.hyps(2) r1 step.prems f'(1)] descends_trans [OF _ f'(2)] by blast
qed

text \<open>Votes that can be cast.\<close>

lemma cast_prevote:
  assumes ok: "round_ok parent number r" and v: "vid \<in> voter_ids (voters r)" and new: "view r Prevote vid = None"
    and t: "descends parent (base r) t"
  shows "\<exists>r'. round_step ancestry number r r' \<and> round_ok parent number r' \<and> fresh parent number r' \<and> extends r r' \<and>
    view r' Prevote = (view r Prevote)(vid \<mapsto> (t, False)) \<and> view r' Precommit = view r Precommit"
proof -
  fix s
  let ?x = "\<lparr>pv_target_hash = t, pv_target_number = number t\<rparr>"
  obtain r' res where r': "import_prevote ancestry r ?x vid s = Some (r', res)" "round_ok parent number r'"
      "imported_prevote parent number r vid ?x s r' res"
    using import_prevote_imported [OF ok, of ?x vid s] by auto
  have "round_step ancestry number r r'" by (rule round_step.prevote [OF r'(1)]) simp
  moreover obtain v where "recorded parent r Prevote vid v t False r'" "fresh parent number r'"
    using r'(3) v new t by (cases rule: imported.cases) (auto simp: recorded_def)
  ultimately show ?thesis
    using r'(2) rec_view [of parent r Prevote vid v t False r'] recorded_extends [of parent r Prevote vid v t False r']
    by auto
qed

lemma cast_precommit:
  assumes ok: "round_ok parent number r" and v: "vid \<in> voter_ids (voters r)" and new: "view r Precommit vid = None"
    and t: "descends parent (base r) t"
  shows "\<exists>r'. round_step ancestry number r r' \<and> round_ok parent number r' \<and> fresh parent number r' \<and> extends r r' \<and>
    view r' Precommit = (view r Precommit)(vid \<mapsto> (t, False)) \<and> view r' Prevote = view r Prevote"
proof -
  fix s
  let ?x = "\<lparr>pc_target_hash = t, pc_target_number = number t\<rparr>"
  obtain r' res where r': "import_precommit ancestry r ?x vid s = Some (r', res)" "round_ok parent number r'"
      "imported_precommit parent number r vid ?x s r' res"
    using import_precommit_imported [OF ok, of ?x vid s] by auto
  have "round_step ancestry number r r'" by (rule round_step.precommit [OF r'(1)]) simp
  moreover obtain v where "recorded parent r Precommit vid v t False r'" "fresh parent number r'"
    using r'(3) v new t by (cases rule: imported.cases) (auto simp: recorded_def)
  ultimately show ?thesis
    using r'(2) rec_view [of parent r Precommit vid v t False r'] recorded_extends [of parent r Precommit vid v t False r']
    by auto
qed

end

section \<open>The trackers\<close>

definition trackers_ok :: "('i :: linorder, 'h, 's) round \<Rightarrow> bool" where
  "trackers_ok r \<longleftrightarrow> bt_ok (vt_votes (r_prevote r)) \<and> bt_ok (vt_votes (r_precommit r))"

lemma add_vote_sorted: "bt_ok (vt_votes vt) \<Longrightarrow> bt_ok (vt_votes (fst (add_vote vt vid x s w)))"
  by (simp add: add_vote_def Let_def split: option.splits vote_multiplicity.splits)

lemma round_update_trackers: "round_update r = Some r' \<Longrightarrow> r_prevote r' = r_prevote r \<and> r_precommit r' = r_precommit r"
  by (auto simp: round_update_def Let_def split: if_splits option.splits bind_splits)

lemma import_prevote_trackers:
  assumes "import_prevote anc r x vid s = Some (r', res)"
  shows "r_precommit r' = r_precommit r \<and> (r_prevote r' = r_prevote r \<or> (\<exists>w. r_prevote r' = fst (add_vote (r_prevote r) vid x s w)))"
proof -
  have "r_prevote r' = r_prevote r \<or> (\<exists>w. r_prevote r' = fst (add_vote (r_prevote r) vid x s w))" "r_precommit r' = r_precommit r"
    using assms
    by (auto simp: import_prevote_def Let_def dest!: round_update_trackers
        split: if_splits option.splits bind_splits prod.splits sum.splits vote_multiplicity.splits)
       (metis fst_conv)+
  then show ?thesis by blast
qed

lemma import_precommit_trackers:
  assumes "import_precommit anc r x vid s = Some (r', res)"
  shows "r_prevote r' = r_prevote r \<and> (r_precommit r' = r_precommit r \<or> (\<exists>w. r_precommit r' = fst (add_vote (r_precommit r) vid x s w)))"
proof -
  have "r_precommit r' = r_precommit r \<or> (\<exists>w. r_precommit r' = fst (add_vote (r_precommit r) vid x s w))" "r_prevote r' = r_prevote r"
    using assms
    by (auto simp: import_precommit_def Let_def dest!: round_update_trackers
        split: if_splits option.splits bind_splits prod.splits sum.splits vote_multiplicity.splits)
       (metis fst_conv)+
  then show ?thesis by blast
qed

lemma import_prevote_tracker_voter:
  assumes "import_prevote anc r x vid s = Some (r', res)" "voter_set_get (voters r) vid = Some v"
  shows "r_prevote r' = fst (add_vote (r_prevote r) vid x s (vi_weight v))"
  using assms
  by (auto simp: import_prevote_def Let_def dest!: round_update_trackers
      split: if_splits option.splits bind_splits prod.splits sum.splits vote_multiplicity.splits)

lemma import_precommit_tracker_voter:
  assumes "import_precommit anc r x vid s = Some (r', res)" "voter_set_get (voters r) vid = Some v"
  shows "r_precommit r' = fst (add_vote (r_precommit r) vid x s (vi_weight v))"
  using assms
  by (auto simp: import_precommit_def Let_def dest!: round_update_trackers
      split: if_splits option.splits bind_splits prod.splits sum.splits vote_multiplicity.splits)

lemma precommit_ghost_trackers:
  "precommit_ghost r = Some (r', x) \<Longrightarrow> r_prevote r' = r_prevote r \<and> r_precommit r' = r_precommit r"
  by (auto simp: precommit_ghost_def Let_def split: if_splits bind_splits)

lemma reachable_trackers:
  assumes "reachable ancestry number vs b r"
  shows "trackers_ok r"
  using assms
proof (induction rule: reachable.induct)
  case (start ws n)
  show ?case by (simp add: trackers_ok_def round_new_def vote_tracker_new_def)
next
  case (step r r')
  from step.hyps(2) step.IH show ?case
  proof cases
    case (prevote x vid s res)
    then show ?thesis using step.IH import_prevote_trackers [OF prevote(1)] add_vote_sorted by (auto simp: trackers_ok_def)
  next
    case (precommit x vid s res)
    then show ?thesis using step.IH import_precommit_trackers [OF precommit(1)] add_vote_sorted by (auto simp: trackers_ok_def)
  next
    case (ghost z)
    then show ?thesis using step.IH precommit_ghost_trackers [OF ghost] by (simp add: trackers_ok_def)
  qed (use step.IH in \<open>simp_all add: trackers_ok_def set_prevoted_index_def set_precommitted_index_def\<close>)
qed

lemma yield_votes_simps [simp]:
  "yield_votes (Single v s) 0 = [(v, s)]" "yield_votes (Equivocated a b) 0 = [a, b]"
  by (simp_all add: yield_votes.simps [of "Single v s" "Suc 0"] yield_votes.simps [of "Single v s" 0]
      yield_votes.simps [of "Equivocated a b" 0] yield_votes.simps [of "Equivocated a b" "Suc 0"]
      yield_votes.simps [of "Equivocated a b" "Suc (Suc 0)"])

text \<open>The votes a tracker holds: of a voter seen once its vote, of an equivocator the first two.\<close>

definition holds :: "('i, 'p, 's) vote_tracker \<Rightarrow> 'i \<Rightarrow> 'p \<Rightarrow> 's \<Rightarrow> bool" where
  "holds vt vid x s \<longleftrightarrow> (case bt_get (vt_votes vt) vid of
     None \<Rightarrow> False
   | Some (Single y u) \<Rightarrow> (x, s) = (y, u)
   | Some (Equivocated a b) \<Rightarrow> (x, s) = a \<or> (x, s) = b)"

lemma holds_add_vote:
  "holds (fst (add_vote vt vid x s w)) v y u \<Longrightarrow> holds vt v y u \<or> v = vid \<and> y = x \<and> u = s"
  by (auto simp: holds_def add_vote_def Let_def split: option.splits vote_multiplicity.splits if_splits)

lemma reachable_numbers:
  assumes "reachable ancestry number vs b r"
  shows "(holds (r_prevote r) v x s \<longrightarrow> pv_target_number x = number (pv_target_hash x)) \<and>
    (holds (r_precommit r) v y u \<longrightarrow> pc_target_number y = number (pc_target_hash y))"
  using assms
proof (induction arbitrary: v x s y u rule: reachable.induct)
  case (start ws n)
  show ?case by (simp add: holds_def round_new_def vote_tracker_new_def)
next
  case (step r r')
  from step.hyps(2) show ?case
  proof cases
    case (prevote a vid c res)
    then show ?thesis using step.IH import_prevote_trackers [OF prevote(1)] by (auto dest!: holds_add_vote)
  next
    case (precommit a vid c res)
    then show ?thesis using step.IH import_precommit_trackers [OF precommit(1)] by (auto dest!: holds_add_vote)
  next
    case (ghost z)
    then show ?thesis using step.IH precommit_ghost_trackers [OF ghost] by simp
  qed (use step.IH in \<open>simp_all add: set_prevoted_index_def set_precommitted_index_def\<close>)
qed

lemma holds_view:
  "holds (r_precommit r) vid x s \<Longrightarrow> view r Precommit vid = Some (t, False) \<Longrightarrow> pc_target_hash x = t"
  by (auto simp: holds_def view_simps tracker_view_def split: option.splits vote_multiplicity.splits)

context chain
begin

lemma finalizing_precommits_set:
  fixes r :: "('i :: linorder, 'h, 's) round"
  assumes ok: "trackers_ok r" and f: "r_finalized r = Some (f, n)"
  shows "\<exists>pcs. finalizing_precommits ancestry r = Some pcs \<and>
    (\<forall>x s vid. \<lparr>sc_precommit = x, sc_signature = s, sc_id = vid\<rparr> \<in> set pcs \<longleftrightarrow>
       vid \<in> supporters parent r Precommit f \<and> holds (r_precommit r) vid x s) \<and>
    sc_id ` set pcs = supporters parent r Precommit f"
proof -
  let ?m = "vt_votes (r_precommit r)"
  let ?P = "\<lambda>(vid, multiplicity). case multiplicity of
      Single v _ \<Rightarrow> is_equal_or_descendent_of ancestry f (pc_target_hash v) | Equivocated _ _ \<Rightarrow> True"
  define Y :: "'i \<times> ('h precommit, 's) vote_multiplicity \<Rightarrow> ('h, 's, 'i) signed_precommit list" where
    "Y = (\<lambda>(vid, multiplicity). map (\<lambda>(v, s). \<lparr>sc_precommit = v, sc_signature = s, sc_id = vid\<rparr>) (yield_votes multiplicity 0))"
  have mem: "(vid, m) \<in> set ?m \<longleftrightarrow> bt_get ?m vid = Some m" for vid m
    using ok bt.set_iter [of ?m] by (simp add: trackers_ok_def)
  have P: "?P (vid, m) \<longleftrightarrow> vid \<in> supporters parent r Precommit f" if "bt_get ?m vid = Some m" for vid m
    using that by (cases m rule: first_vote.cases)
      (auto simp: supporters_def view_simps tracker_view_def is_equal_or_descendent_of_iff)
  have seen: "\<exists>m. bt_get ?m vid = Some m" if "vid \<in> supporters parent r Precommit f" for vid
    using that by (auto simp: supporters_def view_simps tracker_view_def)
  define pcs where "pcs = concat (map Y (filter ?P ?m))"
  have fin: "finalizing_precommits ancestry r = Some pcs" by (simp add: finalizing_precommits_def f pcs_def Y_def)
  have in_pcs: "c \<in> set pcs \<longleftrightarrow> (\<exists>vid m. bt_get ?m vid = Some m \<and> vid \<in> supporters parent r Precommit f \<and> c \<in> set (Y (vid, m)))" for c
  proof -
    have "c \<in> set (concat (map Y (filter Q ?m))) \<longleftrightarrow> (\<exists>vid m. (vid, m) \<in> set ?m \<and> Q (vid, m) \<and> c \<in> set (Y (vid, m)))" for Q
      by auto
    from this [of ?P] show ?thesis unfolding pcs_def mem using P by blast
  qed
  have Y: "\<lparr>sc_precommit = x, sc_signature = s, sc_id = vid\<rparr> \<in> set (Y (w, m)) \<longleftrightarrow> w = vid \<and> holds (r_precommit r) vid x s"
    if "bt_get ?m w = Some m" for x s vid w m
    using that by (cases m) (auto simp: holds_def Y_def)
  have "\<lparr>sc_precommit = x, sc_signature = s, sc_id = vid\<rparr> \<in> set pcs \<longleftrightarrow>
      vid \<in> supporters parent r Precommit f \<and> holds (r_precommit r) vid x s" for x s vid
    unfolding in_pcs using seen [of vid] by (auto simp: Y cong: conj_cong)
  moreover have "sc_id ` set pcs = supporters parent r Precommit f"
  proof
    show "sc_id ` set pcs \<subseteq> supporters parent r Precommit f" by (auto simp: in_pcs Y_def)
    show "supporters parent r Precommit f \<subseteq> sc_id ` set pcs"
    proof
      fix vid assume v: "vid \<in> supporters parent r Precommit f"
      then obtain m where m: "bt_get ?m vid = Some m" using seen by blast
      have "\<exists>c \<in> set (Y (vid, m)). sc_id c = vid" by (cases m) (auto simp: Y_def)
      then show "vid \<in> sc_id ` set pcs" using v m in_pcs by blast
    qed
  qed
  ultimately show ?thesis using fin by blast
qed

end

lemma participation_exact:
  assumes core: "core_ok parent number r V" and ok: "trackers_ok r"
  shows "prevote_participation r = (current r Prevote, card (dom (view r Prevote)))"
    and "precommit_participation r = (current r Precommit, card (dom (view r Precommit)))"
    and "vw (current r p) = weight_of_set (voters r) (dom (view r p))"
proof -
  have d: "dom (tracker_view tgt vt) = dom (bt_get (vt_votes vt))" for tgt vt by (auto simp: tracker_view_def)
  show "prevote_participation r = (current r Prevote, card (dom (view r Prevote)))"
    using ok bt.length_iter [of "vt_votes (r_prevote r)"]
    by (simp add: prevote_participation_def participation_def view_simps trackers_ok_def d)
  show "precommit_participation r = (current r Precommit, card (dom (view r Precommit)))"
    using ok bt.length_iter [of "vt_votes (r_precommit r)"]
    by (simp add: precommit_participation_def participation_def view_simps trackers_ok_def d)
qed (rule phase_current [OF core_phase [OF core]])

section \<open>Votes added in sequence\<close>

text \<open>What \<^verbatim>\<open>add_vote\<close> makes of what the tracker holds for the voter.\<close>

definition mult_add :: "('p, 's) vote_multiplicity option \<Rightarrow> 'p \<times> 's \<Rightarrow> ('p, 's) vote_multiplicity option" where
  "mult_add m xs = (case m of
     None \<Rightarrow> Some (Single (fst xs) (snd xs))
   | Some (Single y u) \<Rightarrow> if (y, u) = xs then m else Some (Equivocated (y, u) xs)
   | Some (Equivocated a b) \<Rightarrow> m)"

lemma mult_add_simps [simp]:
  "mult_add None (x, s) = Some (Single x s)"
  "mult_add (Some (Single y u)) z = (if (y, u) = z then Some (Single y u) else Some (Equivocated (y, u) z))"
  "mult_add (Some (Equivocated a b)) z = Some (Equivocated a b)"
  by (simp_all add: mult_add_def)

lemma add_vote_get:
  "bt_get (vt_votes (fst (add_vote vt vid x s w))) = (bt_get (vt_votes vt))(vid := mult_add (bt_get (vt_votes vt) vid) (x, s))"
  by (cases "bt_get (vt_votes vt) vid"; cases "the (bt_get (vt_votes vt) vid)" rule: first_vote.cases)
     (auto simp: add_vote_def Let_def fun_eq_iff)

lemma fold_mult_add_equivocated: "fold (\<lambda>x m. mult_add m x) xs (Some (Equivocated a b)) = Some (Equivocated a b)"
  by (induction xs) simp_all

lemma fold_mult_add_single:
  "\<exists>m. fold (\<lambda>x m. mult_add m x) xs (Some (Single y u)) = Some m \<and> first_vote m = y \<and> (is_equivocated m \<longleftrightarrow> (\<exists>z \<in> set xs. z \<noteq> (y, u)))"
proof (induction xs)
  case (Cons x xs)
  then show ?case
    by (cases "(y, u) = x") (auto simp: fold_mult_add_equivocated)
qed simp

text \<open>The precommits of one voter in a list, in order.\<close>

definition votes_of :: "('h, 's, 'i) signed_precommit list \<Rightarrow> 'i \<Rightarrow> ('h precommit \<times> 's) list" where
  "votes_of pcs vid = map (\<lambda>c. (sc_precommit c, sc_signature c)) (filter (\<lambda>c. sc_id c = vid) pcs)"

lemma votes_of_simps [simp]:
  "votes_of [] vid = []"
  "votes_of (c # pcs) vid = (if sc_id c = vid then (sc_precommit c, sc_signature c) # votes_of pcs vid else votes_of pcs vid)"
  by (simp_all add: votes_of_def)

text \<open>What a tracker holds after a list of votes of one voter: the first one, with the first different one as an equivocation.\<close>

definition multiplicity_of :: "('p \<times> 's) list \<Rightarrow> ('p, 's) vote_multiplicity option" where
  "multiplicity_of zs = (case zs of
     [] \<Rightarrow> None
   | y # ys \<Rightarrow> (case filter (\<lambda>z. z \<noteq> y) ys of
         [] \<Rightarrow> Some (Single (fst y) (snd y))
       | z # _ \<Rightarrow> Some (Equivocated y z)))"

lemma fold_mult_add_multiplicity: "fold (\<lambda>x m. mult_add m x) zs None = multiplicity_of zs"
proof (cases zs)
  case (Cons y ys)
  obtain x s where y: "y = (x, s)" by (cases y)
  have "fold (\<lambda>x m. mult_add m x) ys (Some (Single x s)) = (case filter (\<lambda>z. z \<noteq> (x, s)) ys of
      [] \<Rightarrow> Some (Single x s) | z # _ \<Rightarrow> Some (Equivocated (x, s) z))"
    by (induction ys) (auto simp: fold_mult_add_equivocated)
  then show ?thesis by (simp add: Cons y multiplicity_of_def split: list.split)
qed (simp add: multiplicity_of_def)

section \<open>The number of a round\<close>

lemma round_update_number: "round_update r = Some r' \<Longrightarrow> r_round_number r' = r_round_number r"
  by (auto simp: round_update_def Let_def split: if_splits option.splits bind_splits)

lemma import_prevote_number: "import_prevote anc r x vid s = Some (r', res) \<Longrightarrow> r_round_number r' = r_round_number r"
  by (auto simp: import_prevote_def Let_def dest!: round_update_number
      split: if_splits option.splits bind_splits prod.splits sum.splits vote_multiplicity.splits)

lemma import_precommit_number: "import_precommit anc r x vid s = Some (r', res) \<Longrightarrow> r_round_number r' = r_round_number r"
  by (auto simp: import_precommit_def Let_def dest!: round_update_number
      split: if_splits option.splits bind_splits prod.splits sum.splits vote_multiplicity.splits)

end
