(* ===== verification/Commit.thy ===== *)
theory Commit
  imports Round_Facts
begin

text \<open>
  Validation of commit messages (\<^verbatim>\<open>validate_commit\<close> and \<^verbatim>\<open>process_commit_validation_result\<close> of \<^verbatim>\<open>src/lib.rs\<close>): the
  precommits of a commit are imported into a fresh round whose base is the lowest block voted for, and the commit is valid
  if the precommit-GHOST of that round is its target. The counters of the source are \<^verbatim>\<open>usize\<close>; they count
  elements of a vector, so that they never wrap, and are natural numbers here.
\<close>

section \<open>Definitions\<close>

record commit_validation_result =
  cvr_valid :: bool
  cvr_num_precommits :: nat
  cvr_num_duplicated_precommits :: nat
  cvr_num_equivocations :: nat
  cvr_num_invalid_voters :: nat

text \<open>\<^verbatim>\<open>Iterator::min_by_key\<close> on the target number: the first of the lowest precommits.\<close>

fun min_by_target_number :: "'h precommit list \<Rightarrow> 'h precommit option" where
  "min_by_target_number [] = None"
| "min_by_target_number (x # xs) =
     Some (fold (\<lambda>p m. if pc_target_number p < pc_target_number m then p else m) xs x)"

text \<open>The loop that imports the precommits: with an error of the chain, or with the round, the result, and whether the
  function has returned from within the loop.\<close>

fun validate_imports ::
  "('h \<Rightarrow> 'h \<Rightarrow> error + 'h list) \<Rightarrow> ('i :: linorder, 'h :: linorder, 's) round \<Rightarrow> 'i btset \<Rightarrow> commit_validation_result
     \<Rightarrow> ('h, 's, 'i) signed_precommit list \<Rightarrow> (error + ('i, 'h, 's) round \<times> commit_validation_result \<times> bool) option" where
  "validate_imports chain_ancestry round reported result [] = Some (Inr (round, result, False))"
| "validate_imports chain_ancestry round reported result (msg # rest) =
     Option.bind (import_precommit chain_ancestry round (sc_precommit msg) (sc_id msg) (sc_signature msg)) (\<lambda>(round, r).
       case r of
         Inl e \<Rightarrow> Some (Inl e)
       | Inr import_result \<Rightarrow>
           (case ir_equivocation import_result of
              Some _ \<Rightarrow>
                (let result = result\<lparr>cvr_num_equivocations := cvr_num_equivocations result + 1\<rparr>
                 in if sc_id msg \<in> set reported then Some (Inr (round, result, True))
                    else validate_imports chain_ancestry round (bs_insert (sc_id msg) reported) result rest)
            | None \<Rightarrow>
                validate_imports chain_ancestry round reported
                  (if ir_duplicated import_result
                   then result\<lparr>cvr_num_duplicated_precommits := cvr_num_duplicated_precommits result + 1\<rparr>
                   else result) rest))"

definition validate_commit ::
  "('h \<Rightarrow> 'h \<Rightarrow> error + 'h list) \<Rightarrow> ('h :: linorder, 's, 'i :: linorder) commit \<Rightarrow> 'i voter_set
     \<Rightarrow> (error + commit_validation_result) option" where
  "validate_commit chain_ancestry commit vs =
     (let valid_precommits = filter (\<lambda>signed. voter_set_contains vs (sc_id signed)) (cm_precommits commit);
          validation_result = \<lparr>cvr_valid = False, cvr_num_precommits = length (cm_precommits commit),
            cvr_num_duplicated_precommits = 0, cvr_num_equivocations = 0,
            cvr_num_invalid_voters = length (filter (\<lambda>signed. \<not> voter_set_contains vs (sc_id signed)) (cm_precommits commit))\<rparr>
      in case min_by_target_number (map sc_precommit valid_precommits) of
           None \<Rightarrow> Some (Inr validation_result)
         | Some lowest \<Rightarrow>
             (let base = (pc_target_hash lowest, pc_target_number lowest)
              in if \<not> list_all (\<lambda>signed. is_equal_or_descendent_of chain_ancestry (fst base) (pc_target_hash (sc_precommit signed)))
                        valid_precommits
                 then Some (Inr validation_result)
                 else Option.bind
                   (validate_imports chain_ancestry
                      (round_new \<lparr>rp_round_number = 0, rp_voters = vs, rp_base = base\<rparr>) [] validation_result valid_precommits)
                   (\<lambda>imported. case imported of
                      Inl e \<Rightarrow> Some (Inl e)
                    | Inr (round, validation_result, returned) \<Rightarrow>
                        if returned then Some (Inr validation_result)
                        else map_option (\<lambda>(_, ghost).
                          Inr (if ghost = Some (cm_target_hash commit, cm_target_number commit)
                               then validation_result\<lparr>cvr_valid := True\<rparr> else validation_result))
                          (precommit_ghost round))))"

record bad_commit =
  bc_num_precommits :: nat
  bc_num_duplicated_precommits :: nat
  bc_num_equivocations :: nat
  bc_num_invalid_voters :: nat

datatype commit_processing_outcome = GoodCommit | BadCommit bad_commit

definition bad_commit_from :: "commit_validation_result \<Rightarrow> bad_commit" where
  "bad_commit_from r = \<lparr>bc_num_precommits = cvr_num_precommits r,
     bc_num_duplicated_precommits = cvr_num_duplicated_precommits r, bc_num_equivocations = cvr_num_equivocations r,
     bc_num_invalid_voters = cvr_num_invalid_voters r\<rparr>"

text \<open>\<^verbatim>\<open>Callback::run\<close>: nothing for a blank callback, else what the callback does with the outcome; the effects of a callback
  are a state of the caller.\<close>

datatype ('o, 'x) callback = Blank | Work "'o \<Rightarrow> 'x \<Rightarrow> 'x"

fun callback_run :: "('o, 'x) callback \<Rightarrow> 'o \<Rightarrow> 'x \<Rightarrow> 'x" where
  "callback_run Blank outcome x = x"
| "callback_run (Work cb) outcome x = cb outcome x"

definition process_commit_validation_result ::
  "commit_validation_result \<Rightarrow> (commit_processing_outcome, 'x) callback \<Rightarrow> 'x \<Rightarrow> 'x" where
  "process_commit_validation_result validation_result callback x =
     (if cvr_valid validation_result then callback_run callback GoodCommit x
      else callback_run callback (BadCommit (bad_commit_from validation_result)) x)"

section \<open>The votes of a list of precommits\<close>

text \<open>The view a list of precommits gives of each voter: the block of the first, and whether there is a different one.\<close>

definition commit_view :: "('h, 's, 'i) signed_precommit list \<Rightarrow> 'i \<rightharpoonup> 'h \<times> bool" where
  "commit_view pcs vid = (case votes_of pcs vid of
     [] \<Rightarrow> None
   | x # xs \<Rightarrow> Some (pc_target_hash (fst x), \<exists>y \<in> set xs. y \<noteq> x))"

lemma fold_mult_add_view:
  "map_option (\<lambda>m. (pc_target_hash (first_vote m), is_equivocated m)) (fold (\<lambda>x m. mult_add m x) (votes_of pcs vid) None)
     = commit_view pcs vid"
proof (cases "votes_of pcs vid")
  case (Cons x xs)
  obtain y u where x: "x = (y, u)" by (cases x)
  obtain m where m: "fold (\<lambda>x m. mult_add m x) xs (Some (Single y u)) = Some m" "first_vote m = y"
    "is_equivocated m \<longleftrightarrow> (\<exists>z \<in> set xs. z \<noteq> (y, u))"
    using fold_mult_add_single [of xs y u] by (elim exE conjE) (rule that)
  then show ?thesis by (simp add: commit_view_def Cons x)
qed (simp add: commit_view_def)

section \<open>The imports\<close>

lemma equivs_finite:
  assumes "round_ok parent number r"
  shows "finite (equivs r p)"
proof -
  obtain V where core: "core_ok parent number r V" by (rule round_okE [OF assms])
  have "equivs r p \<subseteq> dom (view r p)" by (auto simp: equivs_def)
  then show ?thesis using phase_dom [OF core_phase [OF core]] by (meson finite_subset finite_voter_ids)
qed

definition validated ::
  "('h :: linorder \<Rightarrow> 'h option) \<Rightarrow> ('h \<Rightarrow> nat) \<Rightarrow> ('i :: linorder, 'h, 's) round \<Rightarrow> ('h, 's, 'i) signed_precommit list
     \<Rightarrow> commit_validation_result \<Rightarrow> ('i, 'h, 's) round \<Rightarrow> commit_validation_result \<Rightarrow> bool" where
  "validated parent number r pcs res r' res' \<longleftrightarrow> round_ok parent number r' \<and> extends r r' \<and>
    (\<forall>vid. bt_get (vt_votes (r_precommit r')) vid
        = fold (\<lambda>x m. mult_add m x) (votes_of pcs vid) (bt_get (vt_votes (r_precommit r)) vid)) \<and>
    cvr_valid res' = cvr_valid res \<and> cvr_num_precommits res' = cvr_num_precommits res \<and>
    cvr_num_invalid_voters res' = cvr_num_invalid_voters res \<and>
    cvr_num_equivocations res' + card (equivs r Precommit) = cvr_num_equivocations res + card (equivs r' Precommit)"

context chain
begin

lemma validate_imports_ok:
  assumes "round_ok parent number r"
    and "\<forall>c \<in> set pcs. sc_id c \<in> voter_ids (voters r) \<and> descends parent (base r) (pc_target_hash (sc_precommit c)) \<and>
      pc_target_number (sc_precommit c) = number (pc_target_hash (sc_precommit c))"
    and "set E = equivs r Precommit"
  shows "\<exists>r' res'. validate_imports ancestry r E res pcs = Some (Inr (r', res', False)) \<and> validated parent number r pcs res r' res'"
  using assms
proof (induction pcs arbitrary: r E res)
  case Nil
  then show ?case by (simp add: validated_def extends_refl)
next
  case (Cons c pcs)
  let ?x = "sc_precommit c" and ?vid = "sc_id c" and ?s = "sc_signature c"
  have c: "?vid \<in> voter_ids (voters r)" "descends parent (base r) (pc_target_hash ?x)"
    "pc_target_number ?x = number (pc_target_hash ?x)" using Cons.prems(2) by auto
  obtain r1 res1 where r1: "import_precommit ancestry r ?x ?vid ?s = Some (r1, res1)" "round_ok parent number r1"
      "imported_precommit parent number r ?vid ?x ?s r1 res1"
    using import_precommit_imported [OF Cons.prems(1) c(3), of ?vid ?s] by (elim exE conjE) (rule that)
  have ex: "extends r r1" by (rule imported_extends [OF r1(3)])
  have vs: "voter_set_ok (voters r)" using Cons.prems(1) by (auto elim!: round_okE dest: core_voters)
  obtain v where v: "voter_set_get (voters r) ?vid = Some v" using voters_get [OF vs c(1)] by blast
  have tr: "bt_get (vt_votes (r_precommit r1)) vid
      = (if vid = ?vid then mult_add (bt_get (vt_votes (r_precommit r)) vid) (?x, ?s) else bt_get (vt_votes (r_precommit r)) vid)" for vid
    using import_precommit_tracker_voter [OF r1(1) v] by (simp add: add_vote_get)
  have pcs: "\<forall>c \<in> set pcs. sc_id c \<in> voter_ids (voters r1) \<and> descends parent (base r1) (pc_target_hash (sc_precommit c)) \<and>
      pc_target_number (sc_precommit c) = number (pc_target_hash (sc_precommit c))"
    using Cons.prems(2) by (simp add: extendsD [OF ex])
  have go: ?case if eqn: "validate_imports ancestry r E res (c # pcs) = validate_imports ancestry r1 En resn pcs"
      and En: "set En = equivs r1 Precommit" and same: "cvr_valid resn = cvr_valid res" "cvr_num_precommits resn = cvr_num_precommits res"
      "cvr_num_invalid_voters resn = cvr_num_invalid_voters res"
      "cvr_num_equivocations resn + card (equivs r Precommit) = cvr_num_equivocations res + card (equivs r1 Precommit)" for En resn
  proof -
    obtain r' res' where r': "validate_imports ancestry r1 En resn pcs = Some (Inr (r', res', False))"
        "validated parent number r1 pcs resn r' res'"
      using Cons.IH [OF r1(2) pcs En, of resn] by blast
    have "validated parent number r (c # pcs) res r' res'"
      using r'(2) same extends_trans [OF ex, of r'] unfolding validated_def by (simp add: tr)
    then show ?thesis using r'(1) eqn by auto
  qed
  show ?case
    using r1(3)
  proof cases
    case not_voter
    then show ?thesis using c(1) by simp
  next
    case (duplicate m)
    show ?thesis
      by (rule go [of E "res\<lparr>cvr_num_duplicated_precommits := cvr_num_duplicated_precommits res + 1\<rparr>"])
         (use Cons.prems(3) r1(1) duplicate in \<open>auto simp: import_result_default_def\<close>)
  next
    case (excess a b)
    show ?thesis
      by (rule go [of E res]) (use Cons.prems(3) r1(1) excess in \<open>auto simp: import_result_default_def\<close>)
  next
    case (refused v)
    then show ?thesis using c(2) by simp
  next
    case (counted v)
    have "equivs r1 Precommit = equivs r Precommit" using recorded_equivs [OF counted(3)] by simp
    then show ?thesis
      by (intro go [of E res])
         (use Cons.prems(3) r1(1) counted in \<open>auto simp: import_result_default_def\<close>)
  next
    case (equivocation v y u)
    have new: "?vid \<notin> equivs r Precommit" using rec_old [OF equivocation(3)] by (auto simp: equivs_def)
    have eq: "equivs r1 Precommit = insert ?vid (equivs r Precommit)" using recorded_equivs [OF equivocation(3)] by simp
    show ?thesis
      by (intro go [of "bs_insert ?vid E" "res\<lparr>cvr_num_equivocations := cvr_num_equivocations res + 1\<rparr>"])
         (use Cons.prems(3) r1(1) equivocation new equivs_finite [OF Cons.prems(1), of Precommit]
           in \<open>auto simp: import_result_default_def eq\<close>)
  qed
qed

end

section \<open>The verdict\<close>

text \<open>The voters that support a block in a commit, the equivocators, and the abstract criterion.\<close>

definition voter_precommits :: "'i :: linorder voter_set \<Rightarrow> ('h, 's, 'i) commit \<Rightarrow> ('h, 's, 'i) signed_precommit list" where
  "voter_precommits vs c = filter (\<lambda>msg. voter_set_contains vs (sc_id msg)) (cm_precommits c)"

definition commit_supporters :: "('h \<Rightarrow> 'h option) \<Rightarrow> 'i :: linorder voter_set \<Rightarrow> ('h, 's, 'i) commit \<Rightarrow> 'h \<Rightarrow> 'i set" where
  "commit_supporters parent vs c b =
     {vid. \<exists>t e. commit_view (voter_precommits vs c) vid = Some (t, e) \<and> (e \<or> descends parent b t)}"

definition commit_equivocators :: "'i :: linorder voter_set \<Rightarrow> ('h, 's, 'i) commit \<Rightarrow> 'i set" where
  "commit_equivocators vs c = {vid. \<exists>t. commit_view (voter_precommits vs c) vid = Some (t, True)}"

definition commit_justifies ::
  "('h \<Rightarrow> 'h option) \<Rightarrow> ('h \<Rightarrow> nat) \<Rightarrow> 'i :: linorder voter_set \<Rightarrow> ('h, 's, 'i) commit \<Rightarrow> bool" where
  "commit_justifies parent number vs c \<longleftrightarrow>
     cm_target_number c = number (cm_target_hash c) \<and>
     (\<exists>m \<in> set (voter_precommits vs c). descends parent (pc_target_hash (sc_precommit m)) (cm_target_hash c) \<and>
        (\<forall>p \<in> set (voter_precommits vs c). descends parent (pc_target_hash (sc_precommit m)) (pc_target_hash (sc_precommit p)))) \<and>
     rw (vs_threshold vs) \<le> weight_of_set vs (commit_supporters parent vs c (cm_target_hash c)) \<and>
     (\<forall>b. descends parent (cm_target_hash c) b \<longrightarrow> cm_target_hash c \<noteq> b \<longrightarrow>
        weight_of_set vs (commit_supporters parent vs c b) < rw (vs_threshold vs))"

lemma commit_view_entry:
  assumes "commit_view (voter_precommits vs c) vid = Some (t, e)"
  shows "\<exists>p \<in> set (cm_precommits c). sc_id p = vid \<and> pc_target_hash (sc_precommit p) = t \<and>
    (e \<longrightarrow> (\<exists>p' \<in> set (cm_precommits c). sc_id p' = vid \<and> (sc_precommit p, sc_signature p) \<noteq> (sc_precommit p', sc_signature p')))"
proof -
  obtain x xs where xs: "votes_of (voter_precommits vs c) vid = x # xs"
    using assms by (auto simp: commit_view_def split: list.splits)
  have mem: "\<exists>p \<in> set (cm_precommits c). sc_id p = vid \<and> y = (sc_precommit p, sc_signature p)" if "y \<in> set (x # xs)" for y
    using that unfolding xs [symmetric] by (auto simp: votes_of_def voter_precommits_def)
  have te: "t = pc_target_hash (fst x)" "e \<longleftrightarrow> (\<exists>y \<in> set xs. y \<noteq> x)" using assms xs by (auto simp: commit_view_def)
  obtain p where p: "p \<in> set (cm_precommits c)" "sc_id p = vid" "x = (sc_precommit p, sc_signature p)" using mem [of x] by auto
  have "\<exists>p' \<in> set (cm_precommits c). sc_id p' = vid \<and> (sc_precommit p, sc_signature p) \<noteq> (sc_precommit p', sc_signature p')" if eq: e
  proof -
    obtain y where y: "y \<in> set xs" "y \<noteq> x" using eq te(2) by blast
    show ?thesis using mem [of y] y p(3) by auto
  qed
  then show ?thesis using p te(1) by auto
qed

lemma min_by_target_number_Some:
  "xs \<noteq> [] \<Longrightarrow> \<exists>m \<in> set xs. min_by_target_number xs = Some m \<and> (\<forall>p \<in> set xs. pc_target_number m \<le> pc_target_number p)"
proof (cases xs)
  case (Cons x ys)
  let ?f = "\<lambda>p m. if pc_target_number p < pc_target_number m then p else m"
  have "fold ?f zs m \<in> insert m (set zs) \<and> (\<forall>p \<in> insert m (set zs). pc_target_number (fold ?f zs m) \<le> pc_target_number p)" for m zs
  proof (induction zs arbitrary: m)
    case (Cons z zs)
    show ?case using Cons [of "?f z m"] by (auto split: if_splits)
  qed simp
  from this [of ys x] show ?thesis by (simp add: Cons)
qed simp

lemma equivs_from_view: "view r Precommit = commit_view (voter_precommits vs c) \<Longrightarrow> equivs r Precommit = commit_equivocators vs c"
  by (simp add: equivs_def commit_equivocators_def)

lemma support_from_view:
  "view r Precommit = commit_view (voter_precommits vs c) \<Longrightarrow> voters r = vs \<Longrightarrow>
   support parent r Precommit b = weight_of_set vs (commit_supporters parent vs c b)"
  by (simp add: support_def supporters_def commit_supporters_def)

context chain
begin

lemma commit_imports:
  fixes c :: "('h, 's, 'i :: linorder) commit"
  assumes vs: "voter_set_ok vs"
    and num: "\<forall>p \<in> set (voter_precommits vs c). pc_target_number (sc_precommit p) = number (pc_target_hash (sc_precommit p))"
    and low: "\<forall>p \<in> set (voter_precommits vs c). descends parent b (pc_target_hash (sc_precommit p))"
  shows "\<exists>r' res'. validate_imports ancestry (round_new \<lparr>rp_round_number = 0, rp_voters = vs, rp_base = (b, number b)\<rparr>) [] res
      (voter_precommits vs c) = Some (Inr (r', res', False)) \<and>
    round_ok parent number r' \<and> voters r' = vs \<and> base r' = b \<and> view r' Precommit = commit_view (voter_precommits vs c) \<and>
    cvr_valid res' = cvr_valid res \<and> cvr_num_precommits res' = cvr_num_precommits res \<and>
    cvr_num_invalid_voters res' = cvr_num_invalid_voters res \<and>
    cvr_num_equivocations res' = cvr_num_equivocations res + card (commit_equivocators vs c)"
proof -
  define r where "r = (round_new \<lparr>rp_round_number = 0, rp_voters = vs, rp_base = (b, number b)\<rparr> :: ('i, 'h, 's) round)"
  note f = round_new_fields(1-7) [OF r_def]
  have ids: "\<forall>p \<in> set (voter_precommits vs c). sc_id p \<in> voter_ids vs"
    using voter_set_contains_iff [OF vs] by (auto simp: voter_precommits_def)
  have pre: "\<forall>p \<in> set (voter_precommits vs c). sc_id p \<in> voter_ids (voters r) \<and>
      descends parent (base r) (pc_target_hash (sc_precommit p)) \<and>
      pc_target_number (sc_precommit p) = number (pc_target_hash (sc_precommit p))"
    using ids num low by (simp add: f)
  obtain r' res' where r': "validate_imports ancestry r [] res (voter_precommits vs c) = Some (Inr (r', res', False))"
      "validated parent number r (voter_precommits vs c) res r' res'"
    using validate_imports_ok [OF round_new_ok [where number = number, OF vs r_def] pre, of "[]" res] by (auto simp: f)
  have ex: "extends r r'" using r'(2) by (simp add: validated_def)
  have "bt_get (vt_votes (r_precommit r)) vid = None" for vid by (simp add: r_def round_new_def vote_tracker_new_def)
  then have "view r' Precommit vid = commit_view (voter_precommits vs c) vid" for vid
    using r'(2) by (simp add: validated_def view_simps tracker_view_def fold_mult_add_view)
  then have view: "view r' Precommit = commit_view (voter_precommits vs c)" by blast
  show ?thesis
    unfolding r_def [symmetric]
    using r' view equivs_from_view [OF view] by (simp add: validated_def extendsD [OF ex] f)
qed

lemma commit_ghost:
  assumes ok: "round_ok parent number r" and vs: "voters r = vs" and view: "view r Precommit = commit_view (voter_precommits vs c)"
  shows "\<exists>r' x. precommit_ghost r = Some (r', x) \<and>
    (x = Some (t, n) \<longrightarrow> n = number t \<and> descends parent (base r) t \<and>
      rw (vs_threshold vs) \<le> weight_of_set vs (commit_supporters parent vs c t)) \<and>
    (weight_of_set vs (commit_equivocators vs c) \<le> faulty vs \<longrightarrow>
      (x = Some (t, n) \<longleftrightarrow> n = number t \<and> descends parent (base r) t \<and>
        rw (vs_threshold vs) \<le> weight_of_set vs (commit_supporters parent vs c t) \<and>
        (\<forall>b. descends parent t b \<longrightarrow> t \<noteq> b \<longrightarrow> weight_of_set vs (commit_supporters parent vs c b) < rw (vs_threshold vs))))"
proof -
  note sup = support_from_view [OF view vs] and eqv = equivs_from_view [OF view]
  obtain V where core: "core_ok parent number r V" by (rule round_okE [OF ok])
  obtain r' x where x: "precommit_ghost r = Some (r', x)"
      "if vw (current r Precommit) < quorum r then x = None
       else case x of None \<Rightarrow> support parent r Precommit (base r) < quorum r | Some gn \<Rightarrow> ghost_is parent number r Precommit gn"
    using precommit_ghost_ok [OF ok] by blast
  have some: "ghost_is parent number r Precommit (g, k)" if "x = Some (g, k)" for g k
    using x(2) that by (simp split: if_splits)
  have "x = Some (t, n)" if eq: "weight_of_set vs (commit_equivocators vs c) \<le> faulty vs" and n: "n = number t"
      and t: "descends parent (base r) t" "quorum r \<le> support parent r Precommit t"
      and top: "\<forall>b. descends parent t b \<longrightarrow> t \<noteq> b \<longrightarrow> support parent r Precommit b < quorum r"
  proof -
    have "quorum r \<le> support parent r Precommit (base r)" using t(2) support_mono [OF t(1), of r Precommit] by linarith
    moreover have "\<not> vw (current r Precommit) < quorum r" using t(2) support_le_current [OF core, of Precommit t] by linarith
    ultimately obtain g k where g: "x = Some (g, k)" using x(2) by (cases x) auto
    note gi = some [OF g]
    have "descends parent t g" by (rule ghost_above_quorum [OF core _ gi t(2)]) (simp add: eq eqv vs)
    moreover have "quorum r \<le> support parent r Precommit g" using gi by (simp add: ghost_is_def)
    ultimately have "t = g" using top by fastforce
    then show ?thesis using g gi n by (simp add: ghost_is_def)
  qed
  moreover have "n = number t \<and> descends parent (base r) t \<and> quorum r \<le> support parent r Precommit t \<and>
      (weight_of_set vs (commit_equivocators vs c) \<le> faulty vs \<longrightarrow>
        (\<forall>b. descends parent t b \<longrightarrow> t \<noteq> b \<longrightarrow> support parent r Precommit b < quorum r))" if "x = Some (t, n)"
    using some [OF that] faulty_less_threshold [OF core_voters [OF core]] by (auto simp: ghost_is_def vs eqv)
  ultimately have verdict: "(x = Some (t, n) \<longrightarrow> n = number t \<and> descends parent (base r) t \<and> quorum r \<le> support parent r Precommit t) \<and>
      (weight_of_set vs (commit_equivocators vs c) \<le> faulty vs \<longrightarrow>
        (x = Some (t, n) \<longleftrightarrow> n = number t \<and> descends parent (base r) t \<and> quorum r \<le> support parent r Precommit t \<and>
          (\<forall>b. descends parent t b \<longrightarrow> t \<noteq> b \<longrightarrow> support parent r Precommit b < quorum r)))"
    by meson
  show ?thesis by (rule exI [of _ r'], rule exI [of _ x], rule conjI [OF x(1) verdict [unfolded sup vs]])
qed

lemma lowest_precommit:
  assumes num: "\<forall>p \<in> set xs. pc_target_number p = number (pc_target_hash p)" and m: "min_by_target_number xs = Some m"
  shows "m \<in> set xs" "m0 \<in> set xs \<Longrightarrow> (\<And>p. p \<in> set xs \<Longrightarrow> descends parent (pc_target_hash m0) (pc_target_hash p)) \<Longrightarrow>
    pc_target_hash m0 = pc_target_hash m"
proof -
  have "xs \<noteq> []" using m by auto
  then have m': "m \<in> set xs" "\<forall>p \<in> set xs. pc_target_number m \<le> pc_target_number p"
    using min_by_target_number_Some [of xs] m by auto
  show "m \<in> set xs" by (rule m'(1))
  assume m0: "m0 \<in> set xs" "\<And>p. p \<in> set xs \<Longrightarrow> descends parent (pc_target_hash m0) (pc_target_hash p)"
  have d: "descends parent (pc_target_hash m0) (pc_target_hash m)" by (rule m0(2) [OF m'(1)])
  have "number (pc_target_hash m) \<le> number (pc_target_hash m0)"
    using bspec [OF m'(2) m0(1)] bspec [OF num m0(1)] bspec [OF num m'(1)] by simp
  then show "pc_target_hash m0 = pc_target_hash m"
    by (intro descends_number_eq [OF d] le_antisym number_mono [OF d])
qed

end

definition commit_initial :: "'i :: linorder voter_set \<Rightarrow> ('h, 's, 'i) commit \<Rightarrow> commit_validation_result" where
  "commit_initial vs c = \<lparr>cvr_valid = False, cvr_num_precommits = length (cm_precommits c),
     cvr_num_duplicated_precommits = 0, cvr_num_equivocations = 0,
     cvr_num_invalid_voters = length (filter (\<lambda>msg. \<not> voter_set_contains vs (sc_id msg)) (cm_precommits c))\<rparr>"

lemma validate_commit_unfold:
  "validate_commit ancestry c vs =
     (case min_by_target_number (map sc_precommit (voter_precommits vs c)) of
        None \<Rightarrow> Some (Inr (commit_initial vs c))
      | Some m \<Rightarrow>
          if \<not> list_all (\<lambda>p. is_equal_or_descendent_of ancestry (pc_target_hash m) (pc_target_hash (sc_precommit p))) (voter_precommits vs c)
          then Some (Inr (commit_initial vs c))
          else Option.bind
            (validate_imports ancestry
               (round_new \<lparr>rp_round_number = 0, rp_voters = vs, rp_base = (pc_target_hash m, pc_target_number m)\<rparr>) []
               (commit_initial vs c) (voter_precommits vs c))
            (\<lambda>imported. case imported of
               Inl e \<Rightarrow> Some (Inl e)
             | Inr (round, res, returned) \<Rightarrow>
                 if returned then Some (Inr res)
                 else map_option (\<lambda>(_, ghost). Inr (if ghost = Some (cm_target_hash c, cm_target_number c)
                   then res\<lparr>cvr_valid := True\<rparr> else res)) (precommit_ghost round)))"
  unfolding validate_commit_def voter_precommits_def commit_initial_def Let_def fst_conv by (rule HOL.refl)

context chain
begin

lemma validate_commit_ok:
  fixes c :: "('h, 's, 'i :: linorder) commit"
  assumes vs: "voter_set_ok vs"
    and num: "\<forall>p \<in> set (voter_precommits vs c). pc_target_number (sc_precommit p) = number (pc_target_hash (sc_precommit p))"
  shows "\<exists>res. validate_commit ancestry c vs = Some (Inr res) \<and> cvr_num_precommits res = length (cm_precommits c) \<and>
    cvr_num_invalid_voters res = length (filter (\<lambda>msg. \<not> voter_set_contains vs (sc_id msg)) (cm_precommits c)) \<and>
    (cvr_valid res \<longrightarrow> cm_target_number c = number (cm_target_hash c) \<and>
      rw (vs_threshold vs) \<le> weight_of_set vs (commit_supporters parent vs c (cm_target_hash c)) \<and>
      (\<exists>m \<in> set (voter_precommits vs c). descends parent (pc_target_hash (sc_precommit m)) (cm_target_hash c) \<and>
        (\<forall>p \<in> set (voter_precommits vs c). descends parent (pc_target_hash (sc_precommit m)) (pc_target_hash (sc_precommit p)))) \<and>
      cvr_num_equivocations res = card (commit_equivocators vs c)) \<and>
    (weight_of_set vs (commit_equivocators vs c) \<le> faulty vs \<longrightarrow> cvr_valid res = commit_justifies parent number vs c)"
    (is "\<exists>res. ?P res")
proof -
  let ?ps = "voter_precommits vs c" and ?i = "commit_initial vs c" and ?t = "cm_target_hash c"
  have early: "?P ?i" if "\<And>m. m \<in> set ?ps \<Longrightarrow>
      \<not> (\<forall>p \<in> set ?ps. descends parent (pc_target_hash (sc_precommit m)) (pc_target_hash (sc_precommit p)))"
    "validate_commit ancestry c vs = Some (Inr ?i)"
    using that by (auto simp: commit_initial_def commit_justifies_def)
  show ?thesis
  proof (cases "min_by_target_number (map sc_precommit ?ps)")
    case None
    then have "?ps = []" using min_by_target_number_Some [of "map sc_precommit ?ps"] by auto
    then show ?thesis using early None by (intro exI [of _ ?i] early) (simp_all add: validate_commit_unfold)
  next
    case (Some m)
    have num': "\<forall>p \<in> set (map sc_precommit ?ps). pc_target_number p = number (pc_target_hash p)" using num by simp
    have m: "m \<in> set (map sc_precommit ?ps)" by (rule lowest_precommit(1) [OF num' Some])
    then have mn: "pc_target_number m = number (pc_target_hash m)" using num' by blast
    have low: "pc_target_hash (sc_precommit m0) = pc_target_hash m" if "m0 \<in> set ?ps"
        "\<forall>p \<in> set ?ps. descends parent (pc_target_hash (sc_precommit m0)) (pc_target_hash (sc_precommit p))" for m0
      using lowest_precommit(2) [OF num' Some, of "sc_precommit m0"] that by auto
    show ?thesis
    proof (cases "\<forall>p \<in> set ?ps. descends parent (pc_target_hash m) (pc_target_hash (sc_precommit p))")
      case False
      have "validate_commit ancestry c vs = Some (Inr ?i)"
        using False by (auto simp: validate_commit_unfold Some is_equal_or_descendent_of_iff list_all_iff)
      moreover have "\<not> (\<forall>p \<in> set ?ps. descends parent (pc_target_hash (sc_precommit m0)) (pc_target_hash (sc_precommit p)))"
        if "m0 \<in> set ?ps" for m0
      proof
        assume all: "\<forall>p \<in> set ?ps. descends parent (pc_target_hash (sc_precommit m0)) (pc_target_hash (sc_precommit p))"
        show False using False all unfolding low [OF that all] by blast
      qed
      ultimately show ?thesis by (intro exI [of _ ?i] early)
    next
      case True
      obtain r res where r: "validate_imports ancestry
            (round_new \<lparr>rp_round_number = 0, rp_voters = vs, rp_base = (pc_target_hash m, number (pc_target_hash m))\<rparr>) [] ?i ?ps
            = Some (Inr (r, res, False))"
          "round_ok parent number r" "voters r = vs" "base r = pc_target_hash m" "view r Precommit = commit_view ?ps"
          "cvr_valid res = cvr_valid ?i" "cvr_num_precommits res = cvr_num_precommits ?i"
          "cvr_num_invalid_voters res = cvr_num_invalid_voters ?i"
          "cvr_num_equivocations res = cvr_num_equivocations ?i + card (commit_equivocators vs c)"
        using commit_imports [OF vs num True, of ?i] by (elim exE conjE) (rule that)
      obtain r' x where x: "precommit_ghost r = Some (r', x)"
          "x = Some (?t, cm_target_number c) \<longrightarrow> cm_target_number c = number ?t \<and> descends parent (base r) ?t \<and>
            rw (vs_threshold vs) \<le> weight_of_set vs (commit_supporters parent vs c ?t)"
          "weight_of_set vs (commit_equivocators vs c) \<le> faulty vs \<longrightarrow>
            (x = Some (?t, cm_target_number c) \<longleftrightarrow> cm_target_number c = number ?t \<and> descends parent (base r) ?t \<and>
              rw (vs_threshold vs) \<le> weight_of_set vs (commit_supporters parent vs c ?t) \<and>
              (\<forall>b. descends parent ?t b \<longrightarrow> ?t \<noteq> b \<longrightarrow> weight_of_set vs (commit_supporters parent vs c b) < rw (vs_threshold vs)))"
        using commit_ghost [OF r(2,3,5), of ?t "cm_target_number c"] by (elim exE conjE) (rule that)
      define res' where "res' = (if x = Some (?t, cm_target_number c) then res\<lparr>cvr_valid := True\<rparr> else res)"
      have val: "validate_commit ancestry c vs = Some (Inr res')"
        using True r(1) x(1) by (simp add: validate_commit_unfold Some is_equal_or_descendent_of_iff list_all_iff mn res'_def)
      have fields: "cvr_valid res' \<longleftrightarrow> x = Some (?t, cm_target_number c)"
          "cvr_num_precommits res' = length (cm_precommits c)" "cvr_num_equivocations res' = card (commit_equivocators vs c)"
          "cvr_num_invalid_voters res' = length (filter (\<lambda>msg. \<not> voter_set_contains vs (sc_id msg)) (cm_precommits c))"
        using r(6-9) by (simp_all add: res'_def commit_initial_def)
      obtain m0 where m0: "m0 \<in> set ?ps" "m = sc_precommit m0" using m by auto
      have lo: "(\<exists>m \<in> set ?ps. descends parent (pc_target_hash (sc_precommit m)) ?t \<and>
          (\<forall>p \<in> set ?ps. descends parent (pc_target_hash (sc_precommit m)) (pc_target_hash (sc_precommit p)))) \<longleftrightarrow>
          descends parent (base r) ?t" (is "?L \<longleftrightarrow> _")
      proof
        assume ?L
        then obtain m1 where m1: "m1 \<in> set ?ps" "descends parent (pc_target_hash (sc_precommit m1)) ?t"
          "\<forall>p \<in> set ?ps. descends parent (pc_target_hash (sc_precommit m1)) (pc_target_hash (sc_precommit p))" by blast
        show "descends parent (base r) ?t" using m1(2) unfolding low [OF m1(1,3)] r(4) .
      next
        assume "descends parent (base r) ?t"
        then show ?L using m0(1) True unfolding r(4) m0(2) by blast
      qed
      have just: "commit_justifies parent number vs c \<longleftrightarrow> x = Some (?t, cm_target_number c)"
        if "weight_of_set vs (commit_equivocators vs c) \<le> faulty vs"
        unfolding commit_justifies_def lo by (rule x(3) [rule_format, OF that, symmetric])
      have "x = Some (?t, cm_target_number c)" if "cvr_valid res'" using that fields(1) by blast
      note sound = x(2) [rule_format, OF this]
      show ?thesis
        by (intro exI [of _ res'] conjI impI val fields(2-4))
           (erule sound [THEN conjunct1] sound [THEN conjunct2, THEN conjunct2] lo [THEN iffD2, OF sound [THEN conjunct2, THEN conjunct1]]
             | simp only: fields(1) just)+
    qed
  qed
qed

end

end
