(* ===== verification/Environment.thy ===== *)
theory Environment
  imports Commit
begin

text \<open>
  What the voter sees of the outside world (\<^verbatim>\<open>trait Environment\<close> and \<^verbatim>\<open>RoundData\<close> of \<^verbatim>\<open>src/voter/mod.rs\<close>), the buffered sink of the
  same file and the cells that bridge the state of a round to the next one (\<^verbatim>\<open>src/bridge_state.rs\<close>).

  An implementation of the trait is code of the user of the crate: it is the parameter \<open>env\<close>, a record of functions that say
  what the environment answers during one poll; a later poll may be given another record. Timers, futures, streams and sinks
  are opaque tokens; polling a stream or a sink gives its next token. Wakers only schedule polls and are left out.
\<close>

section \<open>Polls\<close>

datatype 'a poll = Pending | Ready 'a

text \<open>A \<^verbatim>\<open>Poll<Result<T, E>>\<close> of the source is an \<open>'e + 'a poll\<close> where it is the result of a method: the operator \<^verbatim>\<open>?\<close> takes a
  \<^verbatim>\<open>Ready(Err(e))\<close> for the error \<^verbatim>\<open>e\<close>. A method with effects returns them also with an error. The operator \<^verbatim>\<open>?\<close>
  between two such methods:\<close>

definition and_then ::
  "('x \<times> 'y \<times> ('e + 'a)) option \<Rightarrow> ('x \<Rightarrow> 'y \<Rightarrow> 'a \<Rightarrow> ('x \<times> 'y \<times> ('e + 'b)) option) \<Rightarrow> ('x \<times> 'y \<times> ('e + 'b)) option" where
  "and_then m f = Option.bind m (\<lambda>(x, y, r). case r of Inl e \<Rightarrow> Some (x, y, Inl e) | Inr a \<Rightarrow> f x y a)"

lemma and_then_simps [simp]:
  "and_then None f = None"
  "and_then (Some (x, y, Inl e)) f = Some (x, y, Inl e)"
  "and_then (Some (x, y, Inr a)) f = f x y a"
  by (simp_all add: and_then_def)

lemma and_then_cases:
  assumes "and_then m f = Some (x', y', r')"
  obtains e where "m = Some (x', y', Inl e)" "r' = Inl e"
  | x y a where "m = Some (x, y, Inr a)" "f x y a = Some (x', y', r')"
proof -
  obtain x y r where "m = Some (x, y, r)" using assms by (cases m) auto
  then show thesis using assms that by (cases r) auto
qed

section \<open>Sinks\<close>

record ('o, 'a, 'e) sink =
  sk_poll_ready :: "'o \<Rightarrow> 'o \<times> ('e + unit) poll"
  sk_start_send :: "'o \<Rightarrow> 'a \<Rightarrow> 'o \<times> ('e + unit)"
  sk_poll_flush :: "'o \<Rightarrow> 'o \<times> ('e + unit) poll"

record ('o, 'a) buffered =
  bf_inner :: 'o
  bf_buffer :: "'a list"

definition buffered_new :: "'o \<Rightarrow> ('o, 'a) buffered" where
  "buffered_new inner = \<lparr>bf_inner = inner, bf_buffer = []\<rparr>"

definition buffered_push :: "('o, 'a) buffered \<Rightarrow> 'a \<Rightarrow> ('o, 'a) buffered" where
  "buffered_push self item = self\<lparr>bf_buffer := bf_buffer self @ [item]\<rparr>"

fun schedule_all :: "('o, 'a, 'e) sink \<Rightarrow> 'o \<Rightarrow> 'a list \<Rightarrow> 'o \<times> 'a list \<times> ('e + unit) poll" where
  "schedule_all sk inner [] = (inner, [], Ready (Inr ()))"
| "schedule_all sk inner (item # buffer) =
     (case sk_poll_ready sk inner of
        (inner, Pending) \<Rightarrow> (inner, item # buffer, Pending)
      | (inner, Ready (Inl e)) \<Rightarrow> (inner, item # buffer, Ready (Inl e))
      | (inner, Ready (Inr _)) \<Rightarrow>
          (case sk_start_send sk inner item of
             (inner, Inl e) \<Rightarrow> (inner, buffer, Ready (Inl e))
           | (inner, Inr _) \<Rightarrow> schedule_all sk inner buffer))"

definition buffered_poll :: "('o, 'a, 'e) sink \<Rightarrow> ('o, 'a) buffered \<Rightarrow> ('o, 'a) buffered \<times> ('e + unit poll)" where
  "buffered_poll sk self =
     (case schedule_all sk (bf_inner self) (bf_buffer self) of
        (inner, buffer, Ready (Inl e)) \<Rightarrow> (\<lparr>bf_inner = inner, bf_buffer = buffer\<rparr>, Inl e)
      | (inner, buffer, Ready (Inr _)) \<Rightarrow>
          (case sk_poll_flush sk inner of (inner, flushed) \<Rightarrow>
             (\<lparr>bf_inner = inner, bf_buffer = buffer\<rparr>,
              case flushed of Pending \<Rightarrow> Inr Pending | Ready (Inl e) \<Rightarrow> Inl e | Ready (Inr _) \<Rightarrow> Inr (Ready ())))
      | (inner, buffer, Pending) \<Rightarrow>
          (case sk_poll_flush sk inner of (inner, flushed) \<Rightarrow>
             (\<lparr>bf_inner = inner, bf_buffer = buffer\<rparr>,
              case flushed of Pending \<Rightarrow> Inr Pending | Ready (Inl e) \<Rightarrow> Inl e | Ready (Inr _) \<Rightarrow> Inr Pending)))"

section \<open>Bridged round states\<close>

text \<open>The two views of a bridged state share an \<^verbatim>\<open>Arc\<close>: the cells are a heap, a view is the address of its cell.\<close>

datatype prior_view = PriorView nat

datatype latter_view = LatterView nat

definition bridge_state :: "'h state \<Rightarrow> 'h state list \<Rightarrow> 'h state list \<times> prior_view \<times> latter_view" where
  "bridge_state initial heap = (heap @ [initial], PriorView (length heap), LatterView (length heap))"

fun prior_view_update :: "prior_view \<Rightarrow> 'h state \<Rightarrow> 'h state list \<Rightarrow> 'h state list" where
  "prior_view_update (PriorView a) new heap = heap[a := new]"

fun latter_view_get :: "latter_view \<Rightarrow> 'h state list \<Rightarrow> 'h state" where
  "latter_view_get (LatterView a) heap = heap ! a"

section \<open>The environment\<close>

record ('i, 't, 'n, 'o) round_data =
  rd_voter_id :: "'i option"
  rd_prevote_timer :: 't
  rd_precommit_timer :: 't
  rd_incoming :: 'n
  rd_outgoing :: 'o

text \<open>\<open>env_poll_next\<close>, \<open>env_timer\<close>, \<open>env_best_chain\<close> and \<open>env_sink\<close> are the polls of the associated types \<^verbatim>\<open>In\<close>, \<^verbatim>\<open>Timer\<close>, \<^verbatim>\<open>BestChain\<close>
  and \<^verbatim>\<open>Out\<close>; \<open>env_from_error\<close> is \<^verbatim>\<open>Error: From<crate::Error>\<close>.\<close>

record ('h, 's, 'i, 'e, 't, 'b, 'n, 'o) environment =
  env_ancestry :: "'h \<Rightarrow> 'h \<Rightarrow> error + 'h list"
  env_from_error :: "error \<Rightarrow> 'e"
  env_round_data :: "u64 \<Rightarrow> ('i, 't, 'n, 'o) round_data"
  env_round_commit_timer :: 't
  env_timer :: "'t \<Rightarrow> ('e + unit) poll"
  env_best_chain_containing :: "'h \<Rightarrow> 'b"
  env_best_chain :: "'b \<Rightarrow> ('e + ('h \<times> nat) option) poll"
  env_poll_next :: "'n \<Rightarrow> 'n \<times> ('e + ('h, 's, 'i) signed_message) option poll"
  env_sink :: "('o, 'h message, 'e) sink"
  env_proposed :: "u64 \<Rightarrow> 'h primary_propose \<Rightarrow> 'e + unit"
  env_prevoted :: "u64 \<Rightarrow> 'h prevote \<Rightarrow> 'e + unit"
  env_precommitted :: "u64 \<Rightarrow> 'h precommit \<Rightarrow> 'e + unit"
  env_completed :: "u64 \<Rightarrow> 'h state \<Rightarrow> 'h \<times> nat \<Rightarrow> ('h, 's, 'i) historical_votes \<Rightarrow> 'e + unit"
  env_concluded :: "u64 \<Rightarrow> 'h state \<Rightarrow> 'h \<times> nat \<Rightarrow> ('h, 's, 'i) historical_votes \<Rightarrow> 'e + unit"
  env_finalize_block :: "'h \<Rightarrow> nat \<Rightarrow> u64 \<Rightarrow> ('h, 's, 'i) commit \<Rightarrow> 'e + unit"

text \<open>The calls that tell the environment something, logged in order.\<close>

datatype ('h, 's, 'i) env_call =
    CallProposed u64 "'h primary_propose"
  | CallPrevoted u64 "'h prevote"
  | CallPrecommitted u64 "'h precommit"
  | CallCompleted u64 "'h state" "'h \<times> nat" "('h, 's, 'i) historical_votes"
  | CallConcluded u64 "'h state" "'h \<times> nat" "('h, 's, 'i) historical_votes"
  | CallFinalizeBlock 'h nat u64 "('h, 's, 'i) commit"
  | CallPrevoteEquivocation u64 "('i, 'h prevote, 's) equivocation"
  | CallPrecommitEquivocation u64 "('i, 'h precommit, 's) equivocation"

text \<open>What the rounds of a voter share: the heap of bridged states, the channel of finality notifications, the log.\<close>

type_synonym ('h, 's, 'i) finalized_notification = "'h \<times> nat \<times> u64 \<times> ('h, 's, 'i) commit"

record ('h, 's, 'i) shared =
  sh_bridged :: "'h state list"
  sh_finalized :: "('h, 's, 'i) finalized_notification list"
  sh_calls :: "('h, 's, 'i) env_call list"

definition call :: "('h, 's, 'i) env_call \<Rightarrow> ('h, 's, 'i) shared \<Rightarrow> ('h, 's, 'i) shared" where
  "call c sh = sh\<lparr>sh_calls := sh_calls sh @ [c]\<rparr>"

lemma call_simps [simp]:
  "sh_calls (call c sh) = sh_calls sh @ [c]" "sh_bridged (call c sh) = sh_bridged sh" "sh_finalized (call c sh) = sh_finalized sh"
  by (simp_all add: call_def)

section \<open>Facts on the sink and the bridge\<close>

text \<open>A sink that keeps what is sent: \<open>sent\<close> reads the items it has accepted.\<close>

definition sink_keeps :: "('o, 'a, 'e) sink \<Rightarrow> ('o \<Rightarrow> 'a list) \<Rightarrow> bool" where
  "sink_keeps sk sent \<longleftrightarrow> (\<forall>x. sent (fst (sk_poll_ready sk x)) = sent x \<and> sent (fst (sk_poll_flush sk x)) = sent x) \<and>
     (\<forall>x item. sent (fst (sk_start_send sk x item)) = (case snd (sk_start_send sk x item) of Inl _ \<Rightarrow> sent x | Inr _ \<Rightarrow> sent x @ [item]))"

lemma schedule_all_keeps:
  assumes "sink_keeps sk sent"
  shows "schedule_all sk inner buffer = (inner', buffer', p) \<Longrightarrow>
    \<exists>lost. sent inner' @ lost @ buffer' = sent inner @ buffer \<and> length lost \<le> 1 \<and>
      ((\<nexists>e. p = Ready (Inl e)) \<longrightarrow> lost = []) \<and> (p = Ready (Inr ()) \<longrightarrow> buffer' = [])"
proof (induction buffer arbitrary: inner)
  case (Cons item buffer)
  obtain i1 r where r: "sk_poll_ready sk inner = (i1, r)" by fastforce
  obtain i2 r' where s: "sk_start_send sk i1 item = (i2, r')" by fastforce
  have keeps: "sent i1 = sent inner" "sent i2 = (case r' of Inl _ \<Rightarrow> sent i1 | Inr _ \<Rightarrow> sent i1 @ [item])"
    using assms r s unfolding sink_keeps_def by (metis fst_conv snd_conv)+
  show ?case
  proof (cases "r = Ready (Inr ()) \<and> r' = Inr ()")
    case True
    then have "schedule_all sk i2 buffer = (inner', buffer', p)" using Cons.prems r s by simp
    from Cons.IH [OF this] show ?thesis using True keeps by simp
  next
    case False
    then show ?thesis using Cons.prems r s keeps by (auto split: poll.splits sum.splits)
  qed
qed simp

lemma schedule_all_ready: "schedule_all sk inner buffer = (inner', buffer', Ready (Inr ())) \<Longrightarrow> buffer' = []"
  by (induction buffer arbitrary: inner) (auto split: prod.split_asm poll.split_asm sum.split_asm)

lemma buffered_poll_ready: "buffered_poll sk bf = (bf', Inr (Ready ())) \<Longrightarrow> bf_buffer bf' = []"
  by (auto simp: buffered_poll_def dest: schedule_all_ready split: prod.split_asm poll.split_asm sum.split_asm)

section \<open>Properties\<close>

text \<open>The buffered sink delivers in order and loses nothing: polling it keeps the sequence of what the sink has accepted and what is
  still buffered; only when the sink fails the one item it failed on is dropped. It is ready only when nothing is buffered.\<close>

theorem buffered_poll_fifo:
  assumes "sink_keeps sk sent" and "buffered_poll sk bf = (bf', res)"
  shows "\<exists>lost. sent (bf_inner bf') @ lost @ bf_buffer bf' = sent (bf_inner bf) @ bf_buffer bf \<and> length lost \<le> 1 \<and>
    ((\<nexists>e. res = Inl e) \<longrightarrow> lost = []) \<and> (res = Inr (Ready ()) \<longrightarrow> bf_buffer bf' = [])"
proof -
  obtain inner buffer p where sch: "schedule_all sk (bf_inner bf) (bf_buffer bf) = (inner, buffer, p)" by (metis prod.exhaust)
  obtain lost where l: "sent inner @ lost @ buffer = sent (bf_inner bf) @ bf_buffer bf" "length lost \<le> 1"
      "(\<nexists>e. p = Ready (Inl e)) \<longrightarrow> lost = []"
    using schedule_all_keeps [OF assms(1) sch] by blast
  obtain inner' fl where fl: "sk_poll_flush sk inner = (inner', fl)" by fastforce
  have "sent inner' = sent inner" using assms(1) fl by (metis fst_conv sink_keeps_def)
  then have "sent (bf_inner bf') @ lost @ bf_buffer bf' = sent (bf_inner bf) @ bf_buffer bf" "(\<nexists>e. res = Inl e) \<longrightarrow> lost = []"
    using assms(2) sch fl l by (auto simp: buffered_poll_def split: poll.split_asm sum.split_asm)
  then show ?thesis using l(2) buffered_poll_ready assms(2) by blast
qed

theorem buffered_poll_fifo_witness:
  "\<exists>bf'. buffered_poll \<lparr>sk_poll_ready = (\<lambda>x. (x, if length x < 2 then Ready (Inr ()) else Pending)),
        sk_start_send = (\<lambda>x item. (x @ [item], Inr ())), sk_poll_flush = (\<lambda>x. (x, Ready (Inr ())))\<rparr>
      \<lparr>bf_inner = [7 :: nat], bf_buffer = [8, 9]\<rparr> = (bf', Inr Pending :: unit + unit poll) \<and> bf_inner bf' @ bf_buffer bf' = [7, 8, 9]"
proof -
  let ?sk = "\<lparr>sk_poll_ready = (\<lambda>x. (x, if length x < 2 then Ready (Inr ()) else Pending)),
        sk_start_send = (\<lambda>x item. (x @ [item], Inr ())), sk_poll_flush = (\<lambda>x. (x, Ready (Inr ())))\<rparr> :: (nat list, nat, unit) sink"
  have poll: "buffered_poll ?sk \<lparr>bf_inner = [7], bf_buffer = [8, 9]\<rparr> = (\<lparr>bf_inner = [7, 8], bf_buffer = [9]\<rparr>, Inr Pending)"
    by (simp add: buffered_poll_def)
  have "sink_keeps ?sk (\<lambda>x. x)" by (simp add: sink_keeps_def)
  from buffered_poll_fifo [OF this poll] poll show ?thesis by auto
qed

end
