(* ===== verification/Voting_Round.thy ===== *)
theory Voting_Round
  imports Environment
begin

text \<open>
  A voter in one round (\<^verbatim>\<open>src/voter/voting_round.rs\<close>): the state machine that proposes, prevotes and precommits, the handling of
  incoming votes and the notification of finality. One definition per function of the source; the methods take the round
  \<open>self\<close> and what the rounds share, and return both, with the \<^verbatim>\<open>Result\<close> where there is one. The outer option is \<open>None\<close>
  for a panic or a loop that does not end.
\<close>

section \<open>The round of a voter\<close>

datatype ('t, 'w) vr_state = Start 't 't | Proposed 't 't | Prevoting 't 'w | Prevoted 't | Precommitted

datatype voting = VotingNo | VotingYes | VotingPrimary

fun is_active :: "voting \<Rightarrow> bool" where
  "is_active VotingYes = True"
| "is_active VotingPrimary = True"
| "is_active VotingNo = False"

fun is_primary :: "voting \<Rightarrow> bool" where
  "is_primary VotingPrimary = True"
| "is_primary VotingYes = False"
| "is_primary VotingNo = False"

record ('h, 's, 'i, 't, 'b, 'n, 'o) voting_round =
  vr_voting :: voting
  vr_votes :: "('i, 'h, 's) round"
  vr_incoming :: 'n
  vr_outgoing :: "('o, 'h message) buffered"
  vr_state :: "('t, 'h \<times> 'b) vr_state option"
  vr_bridged_round_state :: "prior_view option"
  vr_last_round_state :: "latter_view option"
  vr_primary_block :: "('h \<times> nat) option"
  vr_best_finalized :: "('h, 's, 'i) commit option"

definition voting_round_new ::
  "('h :: linorder, 's, 'i :: linorder, 'e, 't, 'b, 'n, 'o) environment \<Rightarrow> u64 \<Rightarrow> 'i voter_set \<Rightarrow> 'h \<times> nat \<Rightarrow> latter_view option
     \<Rightarrow> ('h, 's, 'i, 't, 'b, 'n, 'o) voting_round option" where
  "voting_round_new env round_number vs base_block last_round_state =
     (let round_data = env_round_data env round_number;
          votes = round_new \<lparr>rp_round_number = round_number, rp_voters = vs, rp_base = base_block\<rparr>
      in Option.bind (primary_voter votes) (\<lambda>primary. Some
        \<lparr>vr_voting =
           (if rd_voter_id round_data = Some (fst primary) then VotingPrimary
            else if (case rd_voter_id round_data of None \<Rightarrow> False | Some vid \<Rightarrow> voter_set_contains (cx_voters (r_context votes)) vid)
            then VotingYes else VotingNo),
         vr_votes = votes,
         vr_incoming = rd_incoming round_data,
         vr_outgoing = buffered_new (rd_outgoing round_data),
         vr_state = Some (Start (rd_prevote_timer round_data) (rd_precommit_timer round_data)),
         vr_bridged_round_state = None,
         vr_last_round_state = last_round_state,
         vr_primary_block = None,
         vr_best_finalized = None\<rparr>))"

definition voting_round_completed ::
  "('h, 's, 'i, 'e, 't, 'b, 'n, 'o) environment \<Rightarrow> ('i, 'h, 's) round \<Rightarrow> latter_view option
     \<Rightarrow> ('h, 's, 'i, 't, 'b, 'n, 'o) voting_round" where
  "voting_round_completed env votes last_round_state =
     (let round_data = env_round_data env (r_round_number votes)
      in \<lparr>vr_voting = VotingNo,
          vr_votes = votes,
          vr_incoming = rd_incoming round_data,
          vr_outgoing = buffered_new (rd_outgoing round_data),
          vr_state = None,
          vr_bridged_round_state = None,
          vr_last_round_state = last_round_state,
          vr_primary_block = None,
          vr_best_finalized = None\<rparr>)"

section \<open>Incoming messages\<close>

definition handle_vote ::
  "('h :: linorder, 's, 'i :: linorder, 'e, 't, 'b, 'n, 'o) environment \<Rightarrow> ('h, 's, 'i) signed_message
     \<Rightarrow> ('h, 's, 'i, 't, 'b, 'n, 'o) voting_round \<Rightarrow> ('h, 's, 'i) shared
     \<Rightarrow> (('h, 's, 'i, 't, 'b, 'n, 'o) voting_round \<times> ('h, 's, 'i) shared \<times> ('e + unit)) option" where
  "handle_vote env vote self sh =
     (if \<not> is_equal_or_descendent_of (env_ancestry env) (fst (round_base (vr_votes self))) (fst (message_target (sm_message vote)))
      then Some (self, sh, Inr ())
      else case sm_message vote of
        MPrevote prevote \<Rightarrow>
          Option.bind (import_prevote (env_ancestry env) (vr_votes self) prevote (sm_id vote) (sm_signature vote)) (\<lambda>(votes, result).
            let self = self\<lparr>vr_votes := votes\<rparr>
            in case result of
                 Inl e \<Rightarrow> Some (self, sh, Inl (env_from_error env e))
               | Inr import_result \<Rightarrow>
                   (case ir_equivocation import_result of
                      None \<Rightarrow> Some (self, sh, Inr ())
                    | Some e \<Rightarrow> Some (self, call (CallPrevoteEquivocation (r_round_number votes) e) sh, Inr ())))
      | MPrecommit precommit \<Rightarrow>
          Option.bind (import_precommit (env_ancestry env) (vr_votes self) precommit (sm_id vote) (sm_signature vote)) (\<lambda>(votes, result).
            let self = self\<lparr>vr_votes := votes\<rparr>
            in case result of
                 Inl e \<Rightarrow> Some (self, sh, Inl (env_from_error env e))
               | Inr import_result \<Rightarrow>
                   (case ir_equivocation import_result of
                      None \<Rightarrow> Some (self, sh, Inr ())
                    | Some e \<Rightarrow> Some (self, call (CallPrecommitEquivocation (r_round_number votes) e) sh, Inr ())))
      | MPrimaryPropose primary \<Rightarrow>
          Option.bind (primary_voter (vr_votes self)) (\<lambda>(primary_id, _).
            Some (if sm_id vote = primary_id
                  then self\<lparr>vr_primary_block := Some (pp_target_hash primary, pp_target_number primary)\<rparr> else self,
              sh, Inr ())))"

text \<open>The loop over the stream of incoming messages runs as long as the stream is ready.\<close>

partial_function (option) vr_process_incoming ::
  "('h :: linorder, 's, 'i :: linorder, 'e, 't, 'b, 'n, 'o) environment
     \<Rightarrow> ('h, 's, 'i, 't, 'b, 'n, 'o) voting_round \<Rightarrow> ('h, 's, 'i) shared
     \<Rightarrow> (('h, 's, 'i, 't, 'b, 'n, 'o) voting_round \<times> ('h, 's, 'i) shared \<times> ('e + unit)) option" where
  "vr_process_incoming env self sh =
     (case env_poll_next env (vr_incoming self) of (incoming, polled) \<Rightarrow>
        (case polled of
           Pending \<Rightarrow> Some (self\<lparr>vr_incoming := incoming\<rparr>, sh, Inr ())
         | Ready item \<Rightarrow>
             (case item of
                None \<Rightarrow> Some (self\<lparr>vr_incoming := incoming\<rparr>, sh, Inr ())
              | Some received \<Rightarrow>
                  (case received of
                     Inl e \<Rightarrow> Some (self\<lparr>vr_incoming := incoming\<rparr>, sh, Inl e)
                   | Inr vote \<Rightarrow>
                       Option.bind (handle_vote env vote (self\<lparr>vr_incoming := incoming\<rparr>) sh) (\<lambda>(self, sh, result).
                         case result of Inl e \<Rightarrow> Some (self, sh, Inl e) | Inr _ \<Rightarrow> vr_process_incoming env self sh)))))"

section \<open>Casting votes\<close>

definition vr_primary_propose ::
  "('h, 's, 'i, 'e, 't, 'b, 'n, 'o) environment \<Rightarrow> 'h state
     \<Rightarrow> ('h, 's, 'i, 't, 'b, 'n, 'o) voting_round \<Rightarrow> ('h, 's, 'i) shared
     \<Rightarrow> (('h, 's, 'i, 't, 'b, 'n, 'o) voting_round \<times> ('h, 's, 'i) shared \<times> ('e + unit)) option" where
  "vr_primary_propose env last_round_state self sh = Some
     (case vr_state self of
        Some (Start prevote_timer precommit_timer) \<Rightarrow>
          (case (st_estimate last_round_state, is_primary (vr_voting self)) of
             (Some last_round_estimate, True) \<Rightarrow>
               if (case st_finalized last_round_state of None \<Rightarrow> True | Some f \<Rightarrow> snd f < snd last_round_estimate)
               then (let primary = primary_propose_new (fst last_round_estimate) (snd last_round_estimate);
                         round_number = r_round_number (vr_votes self);
                         sh = call (CallProposed round_number primary) sh
                     in case env_proposed env round_number primary of
                          Inl e \<Rightarrow> (self\<lparr>vr_state := None\<rparr>, sh, Inl e)
                        | Inr _ \<Rightarrow>
                            (self\<lparr>vr_outgoing := buffered_push (vr_outgoing self) (MPrimaryPropose primary),
                                  vr_state := Some (Proposed prevote_timer precommit_timer)\<rparr>, sh, Inr ()))
               else (self, sh, Inr ())
           | _ \<Rightarrow> (self, sh, Inr ()))
      | _ \<Rightarrow> (self, sh, Inr ()))"

text \<open>\<^verbatim>\<open>construct_prevote\<close>: the block whose best chain we vote for, and the future that finds it.\<close>

definition construct_prevote ::
  "('h, 's, 'i, 'e, 't, 'b, 'n, 'o) environment \<Rightarrow> 'h state \<Rightarrow> ('h, 's, 'i, 't, 'b, 'n, 'o) voting_round \<Rightarrow> ('h \<times> 'b) option" where
  "construct_prevote env last_round_state self =
     Option.bind (st_estimate last_round_state) (\<lambda>last_round_estimate.
       Option.bind
         (case vr_primary_block self of
            None \<Rightarrow> Some (fst last_round_estimate)
          | Some primary_block \<Rightarrow>
              Option.bind (st_prevote_ghost last_round_state) (\<lambda>last_prevote_g. Some
                (if primary_block = last_prevote_g then fst primary_block
                 else if snd last_prevote_g \<le> snd primary_block then fst last_round_estimate
                 else case env_ancestry env (fst last_round_estimate) (fst last_prevote_g) of
                   Inr ancestry \<Rightarrow>
                     (let to_sub = snd primary_block + 1;
                          offset = (if snd last_prevote_g < to_sub then 0 else snd last_prevote_g - to_sub)
                      in if slice_get ancestry offset = Some (fst primary_block) then fst primary_block
                         else fst last_round_estimate)
                 | Inl NotDescendent \<Rightarrow> fst last_round_estimate)))
         (\<lambda>find_descendent_of. Some (find_descendent_of, env_best_chain_containing env find_descendent_of)))"

definition start_prevoting ::
  "('h, 's, 'i, 'e, 't, 'b, 'n, 'o) environment \<Rightarrow> 'h state \<Rightarrow> 't \<Rightarrow> 't \<Rightarrow> bool
     \<Rightarrow> ('h, 's, 'i, 't, 'b, 'n, 'o) voting_round \<Rightarrow> ('h, 's, 'i) shared
     \<Rightarrow> (('h, 's, 'i, 't, 'b, 'n, 'o) voting_round \<times> ('h, 's, 'i) shared \<times> ('e + unit)) option" where
  "start_prevoting env last_round_state prevote_timer precommit_timer proposed self sh =
     (case (case env_timer env prevote_timer of
              Ready (Inl e) \<Rightarrow> Inl e
            | Ready (Inr _) \<Rightarrow> Inr True
            | Pending \<Rightarrow> Inr (r_completable (vr_votes self))) of
        Inl e \<Rightarrow> Some (self\<lparr>vr_state := None\<rparr>, sh, Inl e)
      | Inr should_prevote \<Rightarrow>
          if should_prevote
          then if is_active (vr_voting self)
               then Option.bind (construct_prevote env last_round_state self) (\<lambda>best.
                 Some (self\<lparr>vr_state := Some (Prevoting precommit_timer best)\<rparr>, sh, Inr ()))
               else Some (self\<lparr>vr_state := Some (Prevoted precommit_timer)\<rparr>, sh, Inr ())
          else if proposed then Some (self\<lparr>vr_state := Some (Proposed prevote_timer precommit_timer)\<rparr>, sh, Inr ())
          else Some (self\<lparr>vr_state := Some (Start prevote_timer precommit_timer)\<rparr>, sh, Inr ()))"

definition finish_prevoting ::
  "('h, 's, 'i, 'e, 't, 'b, 'n, 'o) environment \<Rightarrow> 't \<Rightarrow> 'h \<Rightarrow> 'b
     \<Rightarrow> ('h, 's, 'i, 't, 'b, 'n, 'o) voting_round \<Rightarrow> ('h, 's, 'i) shared
     \<Rightarrow> (('h, 's, 'i, 't, 'b, 'n, 'o) voting_round \<times> ('h, 's, 'i) shared \<times> ('e + unit)) option" where
  "finish_prevoting env precommit_timer base_hash best_chain self sh = Some
     (case env_best_chain env best_chain of
        Ready (Inl e) \<Rightarrow> (self\<lparr>vr_state := None\<rparr>, sh, Inl e)
      | Pending \<Rightarrow> (self\<lparr>vr_state := Some (Prevoting precommit_timer (base_hash, best_chain))\<rparr>, sh, Inr ())
      | Ready (Inr (Some target)) \<Rightarrow>
          (let prevote = prevote_new (fst target) (snd target);
               round_number = r_round_number (vr_votes self);
               sh = call (CallPrevoted round_number prevote) sh
           in case env_prevoted env round_number prevote of
                Inl e \<Rightarrow> (self\<lparr>vr_state := None\<rparr>, sh, Inl e)
              | Inr _ \<Rightarrow>
                  (self\<lparr>vr_votes := set_prevoted_index (vr_votes self),
                        vr_outgoing := buffered_push (vr_outgoing self) (MPrevote prevote),
                        vr_state := Some (Prevoted precommit_timer)\<rparr>, sh, Inr ()))
      | Ready (Inr None) \<Rightarrow> (self\<lparr>vr_state := None, vr_voting := VotingNo\<rparr>, sh, Inr ()))"

definition vr_prevote ::
  "('h, 's, 'i, 'e, 't, 'b, 'n, 'o) environment \<Rightarrow> 'h state
     \<Rightarrow> ('h, 's, 'i, 't, 'b, 'n, 'o) voting_round \<Rightarrow> ('h, 's, 'i) shared
     \<Rightarrow> (('h, 's, 'i, 't, 'b, 'n, 'o) voting_round \<times> ('h, 's, 'i) shared \<times> ('e + unit)) option" where
  "vr_prevote env last_round_state self sh =
     (case vr_state self of
        Some (Start prevote_timer precommit_timer) \<Rightarrow>
          start_prevoting env last_round_state prevote_timer precommit_timer False self sh
      | Some (Proposed prevote_timer precommit_timer) \<Rightarrow>
          start_prevoting env last_round_state prevote_timer precommit_timer True self sh
      | Some (Prevoting precommit_timer (base_hash, best_chain)) \<Rightarrow>
          finish_prevoting env precommit_timer base_hash best_chain self sh
      | _ \<Rightarrow> Some (self, sh, Inr ()))"

definition construct_precommit :: "('h, 's, 'i, 't, 'b, 'n, 'o) voting_round \<Rightarrow> 'h precommit" where
  "construct_precommit self =
     (let t = (case st_prevote_ghost (round_state (vr_votes self)) of Some target \<Rightarrow> target | None \<Rightarrow> round_base (vr_votes self))
      in precommit_new (fst t) (snd t))"

definition vr_precommit ::
  "('h, 's, 'i, 'e, 't, 'b, 'n, 'o) environment \<Rightarrow> 'h state
     \<Rightarrow> ('h, 's, 'i, 't, 'b, 'n, 'o) voting_round \<Rightarrow> ('h, 's, 'i) shared
     \<Rightarrow> (('h, 's, 'i, 't, 'b, 'n, 'o) voting_round \<times> ('h, 's, 'i) shared \<times> ('e + unit)) option" where
  "vr_precommit env last_round_state self sh =
     (case vr_state self of
        Some (Prevoted precommit_timer) \<Rightarrow>
          Option.bind (st_estimate last_round_state) (\<lambda>last_round_estimate.
            let above_estimate =
                  (case st_prevote_ghost (round_state (vr_votes self)) of
                     None \<Rightarrow> False
                   | Some p_g \<Rightarrow> p_g = last_round_estimate \<or>
                       is_equal_or_descendent_of (env_ancestry env) (fst last_round_estimate) (fst p_g));
                should_precommit =
                  (if above_estimate
                   then (case env_timer env precommit_timer of
                           Ready (Inl e) \<Rightarrow> Inl e
                         | Ready (Inr _) \<Rightarrow> Inr True
                         | Pending \<Rightarrow> Inr (r_completable (vr_votes self)))
                   else Inr False)
            in Some (case should_precommit of
                 Inl e \<Rightarrow> (self\<lparr>vr_state := None\<rparr>, sh, Inl e)
               | Inr should \<Rightarrow>
                   if should
                   then if is_active (vr_voting self)
                        then (let precommit = construct_precommit self;
                                  round_number = r_round_number (vr_votes self);
                                  sh = call (CallPrecommitted round_number precommit) sh
                              in case env_precommitted env round_number precommit of
                                   Inl e \<Rightarrow> (self\<lparr>vr_state := None\<rparr>, sh, Inl e)
                                 | Inr _ \<Rightarrow>
                                     (self\<lparr>vr_votes := set_precommitted_index (vr_votes self),
                                           vr_outgoing := buffered_push (vr_outgoing self) (MPrecommit precommit),
                                           vr_state := Some Precommitted\<rparr>, sh, Inr ()))
                        else (self\<lparr>vr_state := Some Precommitted\<rparr>, sh, Inr ())
                   else (self, sh, Inr ())))
      | _ \<Rightarrow> Some (self, sh, Inr ()))"

section \<open>Notification and completion\<close>

definition notify ::
  "('h, 's, 'i, 'e, 't, 'b, 'n, 'o) environment \<Rightarrow> 'h state \<Rightarrow> 'h state
     \<Rightarrow> ('h, 's, 'i, 't, 'b, 'n, 'o) voting_round \<Rightarrow> ('h, 's, 'i) shared
     \<Rightarrow> (('h, 's, 'i, 't, 'b, 'n, 'o) voting_round \<times> ('h, 's, 'i) shared) option" where
  "notify env last_state new_state self sh =
     (let sh = (if last_state \<noteq> new_state
                then (case vr_bridged_round_state self of
                        Some b \<Rightarrow> sh\<lparr>sh_bridged := prior_view_update b new_state (sh_bridged sh)\<rparr>
                      | None \<Rightarrow> sh)
                else sh);
          state_changed = (st_finalized last_state \<noteq> st_finalized new_state);
          sent_finality_notifications = (vr_best_finalized self \<noteq> None)
      in if st_completable new_state \<and> (state_changed \<or> \<not> sent_finality_notifications) \<and>
            (vr_state self = Some Precommitted \<or> vr_last_round_state self = None)
         then (case st_finalized new_state of
                 Some (f_hash, f_number) \<Rightarrow>
                   Option.bind (finalizing_precommits (env_ancestry env) (vr_votes self)) (\<lambda>precommits.
                     let commit = \<lparr>cm_target_hash = f_hash, cm_target_number = f_number, cm_precommits = precommits\<rparr>
                     in Some (self\<lparr>vr_best_finalized := Some commit\<rparr>,
                          sh\<lparr>sh_finalized := sh_finalized sh @ [(f_hash, f_number, r_round_number (vr_votes self), commit)]\<rparr>))
               | None \<Rightarrow> Some (self, sh))
         else Some (self, sh))"

text \<open>The guard at the end of \<^verbatim>\<open>poll\<close>: the estimate of the last round is finalized.\<close>

definition last_round_estimate_finalized :: "'h state option \<Rightarrow> ('h \<times> nat) option \<Rightarrow> bool" where
  "last_round_estimate_finalized last_round_state current_finalized =
     (case last_round_state of
        None \<Rightarrow> True
      | Some last_state \<Rightarrow>
          (case (st_estimate last_state, st_finalized last_state) of
             (Some (_, last_round_estimate), Some (_, last_round_finalized)) \<Rightarrow>
               last_round_estimate \<le> last_round_finalized \<or>
               (case current_finalized of None \<Rightarrow> False | Some (_, n) \<Rightarrow> last_round_estimate \<le> n)
           | _ \<Rightarrow> False))"

definition cast_votes ::
  "('h, 's, 'i, 'e, 't, 'b, 'n, 'o) environment \<Rightarrow> 'h state option
     \<Rightarrow> ('h, 's, 'i, 't, 'b, 'n, 'o) voting_round \<Rightarrow> ('h, 's, 'i) shared
     \<Rightarrow> (('h, 's, 'i, 't, 'b, 'n, 'o) voting_round \<times> ('h, 's, 'i) shared \<times> ('e + unit)) option" where
  "cast_votes env last_round_state self sh =
     (case last_round_state of
        None \<Rightarrow> Some (self, sh, Inr ())
      | Some last_state \<Rightarrow>
          and_then (vr_primary_propose env last_state self sh) (\<lambda>self sh _.
            and_then (vr_prevote env last_state self sh) (\<lambda>self sh _. vr_precommit env last_state self sh)))"

definition voting_round_poll ::
  "('h :: linorder, 's, 'i :: linorder, 'e, 't, 'b, 'n, 'o) environment
     \<Rightarrow> ('h, 's, 'i, 't, 'b, 'n, 'o) voting_round \<Rightarrow> ('h, 's, 'i) shared
     \<Rightarrow> (('h, 's, 'i, 't, 'b, 'n, 'o) voting_round \<times> ('h, 's, 'i) shared \<times> ('e + unit poll)) option" where
  "voting_round_poll env self sh =
     (let pre_state = round_state (vr_votes self)
      in and_then (vr_process_incoming env self sh) (\<lambda>self sh _.
           let last_round_state = map_option (\<lambda>s. latter_view_get s (sh_bridged sh)) (vr_last_round_state self)
           in and_then (cast_votes env last_round_state self sh) (\<lambda>self sh _.
                case buffered_poll (env_sink env) (vr_outgoing self) of (outgoing, flushed) \<Rightarrow>
                  and_then (Some (self\<lparr>vr_outgoing := outgoing\<rparr>, sh, flushed)) (\<lambda>self sh flushed.
                    case flushed of
                      Pending \<Rightarrow> Some (self, sh, Inr Pending)
                    | Ready _ \<Rightarrow>
                        and_then (vr_process_incoming env self sh) (\<lambda>self sh _.
                          Option.bind (notify env pre_state (round_state (vr_votes self)) self sh) (\<lambda>(self, sh).
                            Some (self, sh, Inr
                              (if \<not> r_completable (vr_votes self) then Pending
                               else if \<not> last_round_estimate_finalized last_round_state (r_finalized (vr_votes self)) then Pending
                               else Ready ()))))))))"

section \<open>The other operations\<close>

text \<open>The loop of \<^verbatim>\<open>check_and_import_from_commit\<close>.\<close>

fun import_commit_precommits ::
  "('h :: linorder, 's, 'i :: linorder, 'e, 't, 'b, 'n, 'o) environment \<Rightarrow> ('h, 's, 'i) signed_precommit list
     \<Rightarrow> ('h, 's, 'i, 't, 'b, 'n, 'o) voting_round \<Rightarrow> ('h, 's, 'i) shared
     \<Rightarrow> (('h, 's, 'i, 't, 'b, 'n, 'o) voting_round \<times> ('h, 's, 'i) shared \<times> ('e + unit)) option" where
  "import_commit_precommits env [] self sh = Some (self, sh, Inr ())"
| "import_commit_precommits env (p # ps) self sh =
     Option.bind (import_precommit (env_ancestry env) (vr_votes self) (sc_precommit p) (sc_id p) (sc_signature p)) (\<lambda>(votes, result).
       let self = self\<lparr>vr_votes := votes\<rparr>
       in case result of
            Inl e \<Rightarrow> Some (self, sh, Inl (env_from_error env e))
          | Inr import_result \<Rightarrow>
              import_commit_precommits env ps self
                (case ir_equivocation import_result of
                   None \<Rightarrow> sh
                 | Some e \<Rightarrow> call (CallPrecommitEquivocation (r_round_number votes) e) sh))"

definition check_and_import_from_commit ::
  "('h :: linorder, 's, 'i :: linorder, 'e, 't, 'b, 'n, 'o) environment \<Rightarrow> ('h, 's, 'i) commit
     \<Rightarrow> ('h, 's, 'i, 't, 'b, 'n, 'o) voting_round \<Rightarrow> ('h, 's, 'i) shared
     \<Rightarrow> (('h, 's, 'i, 't, 'b, 'n, 'o) voting_round \<times> ('h, 's, 'i) shared \<times> ('e + ('h \<times> nat) option)) option" where
  "check_and_import_from_commit env commit self sh =
     Option.bind (validate_commit (env_ancestry env) commit (cx_voters (r_context (vr_votes self)))) (\<lambda>validated.
       case validated of
         Inl e \<Rightarrow> Some (self, sh, Inl (env_from_error env e))
       | Inr result \<Rightarrow>
           if \<not> cvr_valid result then Some (self, sh, Inr None)
           else and_then (import_commit_precommits env (cm_precommits commit) self sh) (\<lambda>self sh _.
             Some (self, sh, Inr (Some (cm_target_hash commit, cm_target_number commit)))))"

text \<open>\<^verbatim>\<open>bridge_state\<close>: a new cell with the state of the round, whose prior view the round keeps.\<close>

definition vr_bridge_state ::
  "('h, 's, 'i, 't, 'b, 'n, 'o) voting_round \<Rightarrow> ('h, 's, 'i) shared
     \<Rightarrow> ('h, 's, 'i, 't, 'b, 'n, 'o) voting_round \<times> ('h, 's, 'i) shared \<times> latter_view" where
  "vr_bridge_state self sh =
     (case bridge_state (round_state (vr_votes self)) (sh_bridged sh) of (heap, prior_view, latter_view) \<Rightarrow>
        (self\<lparr>vr_bridged_round_state := Some prior_view\<rparr>, sh\<lparr>sh_bridged := heap\<rparr>, latter_view))"

end
