(* ===== verification/Voting_Facts.thy ===== *)
theory Voting_Facts
  imports Voting_Round
begin

text \<open>
  Facts on the round of a voter: what the handling of messages leaves alone and what it does to the votes, which calls the
  state machine makes, and that the operations return.
\<close>

section \<open>Handling messages\<close>

text \<open>A message whose target carries the number of its block, as the documentation of the stream asks for.\<close>

definition vote_ok :: "('h \<Rightarrow> nat) \<Rightarrow> ('h, 's, 'i) signed_message \<Rightarrow> bool" where
  "vote_ok number m \<longleftrightarrow> (case sm_message m of
     MPrevote p \<Rightarrow> pv_target_number p = number (pv_target_hash p)
   | MPrecommit p \<Rightarrow> pc_target_number p = number (pc_target_hash p)
   | MPrimaryPropose _ \<Rightarrow> True)"

definition env_votes_ok :: "('h \<Rightarrow> nat) \<Rightarrow> ('h, 's, 'i, 'e, 't, 'b, 'n, 'o) environment \<Rightarrow> bool" where
  "env_votes_ok number env \<longleftrightarrow> (\<forall>n n' m. env_poll_next env n = (n', Ready (Some (Inr m))) \<longrightarrow> vote_ok number m)"

fun is_equivocation_call :: "('h, 's, 'i) env_call \<Rightarrow> bool" where
  "is_equivocation_call (CallPrevoteEquivocation _ _) = True"
| "is_equivocation_call (CallPrecommitEquivocation _ _) = True"
| "is_equivocation_call _ = False"

text \<open>What the handling of messages keeps: everything but the votes, the stream and the block of the primary; the only calls
  report equivocations.\<close>

definition handles ::
  "('h, 's, 'i, 't, 'b, 'n, 'o) voting_round \<Rightarrow> ('h, 's, 'i) shared
     \<Rightarrow> ('h, 's, 'i, 't, 'b, 'n, 'o) voting_round \<Rightarrow> ('h, 's, 'i) shared \<Rightarrow> bool" where
  "handles self sh self' sh' \<longleftrightarrow>
     vr_voting self' = vr_voting self \<and> vr_outgoing self' = vr_outgoing self \<and> vr_state self' = vr_state self \<and>
     vr_bridged_round_state self' = vr_bridged_round_state self \<and> vr_last_round_state self' = vr_last_round_state self \<and>
     vr_best_finalized self' = vr_best_finalized self \<and> r_round_number (vr_votes self') = r_round_number (vr_votes self) \<and>
     sh_bridged sh' = sh_bridged sh \<and> sh_finalized sh' = sh_finalized sh \<and>
     (\<exists>cs. sh_calls sh' = sh_calls sh @ cs \<and> list_all is_equivocation_call cs)"

lemma handles_refl [simp]: "handles self sh self sh"
  by (simp add: handles_def)

lemma handles_incoming [simp]: "handles self sh (self\<lparr>vr_incoming := n\<rparr>) sh"
  by (simp add: handles_def)

lemma handles_trans: "handles a x b y \<Longrightarrow> handles b y c z \<Longrightarrow> handles a x c z"
  unfolding handles_def by auto

lemma handlesD:
  assumes "handles self sh self' sh'"
  shows "vr_voting self' = vr_voting self" "vr_outgoing self' = vr_outgoing self" "vr_state self' = vr_state self"
    "vr_bridged_round_state self' = vr_bridged_round_state self" "vr_last_round_state self' = vr_last_round_state self"
    "vr_best_finalized self' = vr_best_finalized self" "r_round_number (vr_votes self') = r_round_number (vr_votes self)"
    "sh_bridged sh' = sh_bridged sh" "sh_finalized sh' = sh_finalized sh"
    "\<exists>cs. sh_calls sh' = sh_calls sh @ cs \<and> list_all is_equivocation_call cs"
  using assms by (simp_all add: handles_def)

lemma handle_vote_cases:
  assumes h: "handle_vote env vote self sh = Some (self', sh', res)"
  obtains (skip) pb where "self' = self\<lparr>vr_primary_block := pb\<rparr>" "sh' = sh" "res = Inr ()"
  | (prevote) p votes ires where "sm_message vote = MPrevote p" "self' = self\<lparr>vr_votes := votes\<rparr>"
      "import_prevote (env_ancestry env) (vr_votes self) p (sm_id vote) (sm_signature vote) = Some (votes, ires)"
      "sh' = sh \<or> (\<exists>e. sh' = call (CallPrevoteEquivocation (r_round_number votes) e) sh)"
  | (precommit) p votes ires where "sm_message vote = MPrecommit p" "self' = self\<lparr>vr_votes := votes\<rparr>"
      "import_precommit (env_ancestry env) (vr_votes self) p (sm_id vote) (sm_signature vote) = Some (votes, ires)"
      "sh' = sh \<or> (\<exists>e. sh' = call (CallPrecommitEquivocation (r_round_number votes) e) sh)"
proof (cases "is_equal_or_descendent_of (env_ancestry env) (fst (round_base (vr_votes self))) (fst (message_target (sm_message vote)))")
  case False
  then show ?thesis using h skip [of "vr_primary_block self"] by (simp add: handle_vote_def)
next
  case True
  note h' = h [unfolded handle_vote_def, simplified True, simplified]
  show ?thesis
  proof (cases "sm_message vote")
    case (MPrevote p)
    then obtain votes ires where i: "import_prevote (env_ancestry env) (vr_votes self) p (sm_id vote) (sm_signature vote) = Some (votes, ires)"
      using h' by (auto simp: bind_eq_Some_conv)
    show ?thesis
      by (rule prevote [OF MPrevote _ i])
        (use h' MPrevote i in \<open>auto simp: Let_def split: sum.split_asm option.split_asm\<close>)
  next
    case (MPrecommit p)
    then obtain votes ires where i: "import_precommit (env_ancestry env) (vr_votes self) p (sm_id vote) (sm_signature vote) = Some (votes, ires)"
      using h' by (auto simp: bind_eq_Some_conv)
    show ?thesis
      by (rule precommit [OF MPrecommit _ i])
        (use h' MPrecommit i in \<open>auto simp: Let_def split: sum.split_asm option.split_asm\<close>)
  next
    case (MPrimaryPropose p)
    then obtain x w where i: "primary_voter (vr_votes self) = Some (x, w)" using h' by (auto simp: bind_eq_Some_conv)
    show ?thesis
      by (rule skip [of "if sm_id vote = x then Some (pp_target_hash p, pp_target_number p) else vr_primary_block self"])
        (use h' MPrimaryPropose i in auto)
  qed
qed

lemma handle_vote_handles:
  assumes "handle_vote env vote self sh = Some (self', sh', res)"
  shows "handles self sh self' sh'"
  using assms
proof (cases rule: handle_vote_cases)
  case (prevote p votes ires)
  then show ?thesis using import_prevote_number by (auto simp: handles_def)
next
  case (precommit p votes ires)
  then show ?thesis using import_precommit_number by (auto simp: handles_def)
qed (simp add: handles_def)

lemma handle_vote_steps:
  assumes "handle_vote env vote self sh = Some (self', sh', res)" and "vote_ok number vote"
  shows "round_steps (env_ancestry env) number (vr_votes self) (vr_votes self')"
  using assms(1)
proof (cases rule: handle_vote_cases)
  case (prevote p votes ires)
  then show ?thesis using assms(2) round_step.prevote [OF prevote(3), of number] by (auto simp: vote_ok_def)
next
  case (precommit p votes ires)
  then show ?thesis using assms(2) round_step.precommit [OF precommit(3), of number] by (auto simp: vote_ok_def)
qed simp

lemma primary_voter_total:
  assumes "voter_set_ok (cx_voters (r_context r))"
  shows "\<exists>x w. primary_voter r = Some (x, w)"
  using voter_set_nonempty [OF assms]
  by (simp add: primary_voter_def voter_set_nth_mod_def voter_set_nth_def slice_get_def)

lemma imported_above:
  "imported parent number tgt trk msg p r vid x s r' res \<Longrightarrow> descends parent (g_base (r_graph r)) (tgt x) \<Longrightarrow> \<exists>a. res = Inr a"
  by (erule imported.cases) auto

context chain
begin

text \<open>The check of the base makes the import of a vote never fail.\<close>

lemma handle_vote_total:
  assumes anc: "env_ancestry env = ancestry" and r: "reachable ancestry number vs b (vr_votes self)" and m: "vote_ok number vote"
  shows "\<exists>self' sh'. handle_vote env vote self sh = Some (self', sh', Inr ())"
proof (cases "descends parent b (fst (message_target (sm_message vote)))")
  case False
  then show ?thesis
    using is_equal_or_descendent_of_iff reachable_ok [OF r] by (simp add: handle_vote_def anc round_base_def vote_graph_base_def)
next
  case d: True
  have ok: "round_ok parent number (vr_votes self)" and bs: "g_base (r_graph (vr_votes self)) = b" using reachable_ok [OF r] by auto
  have vs: "voter_set_ok (cx_voters (r_context (vr_votes self)))" using ok by (auto simp: round_ok_def dest: core_voters)
  have above: "is_equal_or_descendent_of ancestry b (fst (message_target (sm_message vote)))"
    using d is_equal_or_descendent_of_iff by blast
  note unf = handle_vote_def anc round_base_def vote_graph_base_def bs
  show ?thesis
  proof (cases "sm_message vote")
    case (MPrimaryPropose p)
    then show ?thesis using primary_voter_total [OF vs] above by (auto simp: unf)
  next
    case (MPrevote p)
    then obtain r' res where i: "import_prevote ancestry (vr_votes self) p (sm_id vote) (sm_signature vote) = Some (r', res)"
        "imported_prevote parent number (vr_votes self) (sm_id vote) p (sm_signature vote) r' res"
      using import_prevote_imported [OF ok, of p "sm_id vote" "sm_signature vote"] m by (auto simp: vote_ok_def)
    have "\<exists>a. res = Inr a" by (rule imported_above [OF i(2)]) (use d MPrevote bs in simp)
    then show ?thesis using MPrevote i(1) above by (auto simp: unf Let_def split: option.splits)
  next
    case (MPrecommit p)
    then obtain r' res where i: "import_precommit ancestry (vr_votes self) p (sm_id vote) (sm_signature vote) = Some (r', res)"
        "imported_precommit parent number (vr_votes self) (sm_id vote) p (sm_signature vote) r' res"
      using import_precommit_imported [OF ok, of p "sm_id vote" "sm_signature vote"] m by (auto simp: vote_ok_def)
    have "\<exists>a. res = Inr a" by (rule imported_above [OF i(2)]) (use d MPrecommit bs in simp)
    then show ?thesis using MPrecommit i(1) above by (auto simp: unf Let_def split: option.splits)
  qed
qed

end

section \<open>The stream of messages\<close>

lemma vr_process_incoming_induct [consumes 1, case_names stop fail item]:
  assumes run: "vr_process_incoming env self sh = Some y"
    and stop: "\<And>self sh n res. P self sh (self\<lparr>vr_incoming := n\<rparr>, sh, res)"
    and fail: "\<And>self sh n vote self' sh' e. env_poll_next env (vr_incoming self) = (n, Ready (Some (Inr vote))) \<Longrightarrow>
      handle_vote env vote (self\<lparr>vr_incoming := n\<rparr>) sh = Some (self', sh', Inl e) \<Longrightarrow> P self sh (self', sh', Inl e)"
    and item: "\<And>self sh n vote self' sh' y. env_poll_next env (vr_incoming self) = (n, Ready (Some (Inr vote))) \<Longrightarrow>
      handle_vote env vote (self\<lparr>vr_incoming := n\<rparr>) sh = Some (self', sh', Inr ()) \<Longrightarrow> P self' sh' y \<Longrightarrow> P self sh y"
  shows "P self sh y"
proof -
  have "env' = env \<longrightarrow> P self sh y" if "vr_process_incoming env' self sh = Some y" for env'
  proof (rule vr_process_incoming.raw_induct [OF _ that])
    fix rec env' self sh y
    assume IH: "\<And>env' self sh y. rec env' self sh = Some y \<Longrightarrow> env' = env \<longrightarrow> P self sh y"
      and 1: "(case env_poll_next env' (vr_incoming self) of (incoming, polled) \<Rightarrow>
        (case polled of
           Pending \<Rightarrow> Some (self\<lparr>vr_incoming := incoming\<rparr>, sh, Inr ())
         | Ready item \<Rightarrow>
             (case item of
                None \<Rightarrow> Some (self\<lparr>vr_incoming := incoming\<rparr>, sh, Inr ())
              | Some received \<Rightarrow>
                  (case received of
                     Inl e \<Rightarrow> Some (self\<lparr>vr_incoming := incoming\<rparr>, sh, Inl e)
                   | Inr vote \<Rightarrow>
                       Option.bind (handle_vote env' vote (self\<lparr>vr_incoming := incoming\<rparr>) sh) (\<lambda>(self, sh, result).
                         case result of Inl e \<Rightarrow> Some (self, sh, Inl e) | Inr _ \<Rightarrow> rec env' self sh))))) = Some y"
    show "env' = env \<longrightarrow> P self sh y"
    proof
      assume [simp]: "env' = env"
      obtain n polled where n: "env_poll_next env (vr_incoming self) = (n, polled)" by fastforce
      show "P self sh y"
      proof (cases "\<exists>vote. polled = Ready (Some (Inr vote))")
        case False
        then show ?thesis using 1 n stop by (auto split: poll.split_asm option.split_asm sum.split_asm)
      next
        case True
        then obtain vote where polled: "polled = Ready (Some (Inr vote))" by blast
        obtain self1 sh1 res where h: "handle_vote env vote (self\<lparr>vr_incoming := n\<rparr>) sh = Some (self1, sh1, res)"
          using 1 n by (auto simp: polled bind_eq_Some_conv)
        show ?thesis
        proof (cases res)
          case (Inl e)
          then show ?thesis using 1 n h fail [OF n [unfolded polled]] by (auto simp: polled)
        next
          case (Inr u)
          then have "rec env self1 sh1 = Some y" using 1 n h by (simp add: polled)
          then show ?thesis using IH item [OF n [unfolded polled]] h Inr by simp
        qed
      qed
    qed
  qed
  then show ?thesis using run by blast
qed

lemma vr_process_incoming_handles:
  assumes "vr_process_incoming env self sh = Some (self', sh', res)"
  shows "handles self sh self' sh'"
proof -
  have "handles self sh (fst y) (fst (snd y))" if "vr_process_incoming env self sh = Some y" for y
    using that
  proof (induction rule: vr_process_incoming_induct)
    case (fail self sh n vote self' sh' e)
    then show ?case using handles_trans [OF handles_incoming handle_vote_handles] by auto
  next
    case (item self sh n vote self' sh' y)
    then show ?case using handles_trans [OF handles_trans [OF handles_incoming handle_vote_handles [OF item(2)]]] by simp
  qed simp
  from this [OF assms] show ?thesis by simp
qed

lemma vr_process_incoming_steps:
  assumes "vr_process_incoming env self sh = Some (self', sh', res)" and ok: "env_votes_ok number env"
  shows "round_steps (env_ancestry env) number (vr_votes self) (vr_votes self')"
proof -
  have vote: "vote_ok number vote" if "env_poll_next env m = (n, Ready (Some (Inr vote)))" for m n vote
    using ok that by (auto simp: env_votes_ok_def)
  have "round_steps (env_ancestry env) number (vr_votes self) (vr_votes (fst y))" if "vr_process_incoming env self sh = Some y" for y
    using that
  proof (induction rule: vr_process_incoming_induct)
    case (fail self sh n vote self' sh' e)
    then show ?case using handle_vote_steps [OF fail(2) vote [OF fail(1)]] by simp
  next
    case (item self sh n vote self' sh' y)
    then show ?case using rtranclp_trans [OF handle_vote_steps [OF item(2) vote [OF item(1)]]] by simp
  qed simp
  from this [OF assms(1)] show ?thesis by simp
qed

text \<open>A stream that is ready only finitely often before it is pending, ends or fails: then the loop ends.\<close>

fun runs_dry :: "('h, 's, 'i, 'e, 't, 'b, 'n, 'o) environment \<Rightarrow> nat \<Rightarrow> 'n \<Rightarrow> bool" where
  "runs_dry env 0 n = False"
| "runs_dry env (Suc k) n = (case env_poll_next env n of (n', Ready (Some (Inr _))) \<Rightarrow> runs_dry env k n' | _ \<Rightarrow> True)"

lemma handle_vote_incoming: "handle_vote env vote self sh = Some (self', sh', res) \<Longrightarrow> vr_incoming self' = vr_incoming self"
  by (erule handle_vote_cases) auto

context chain
begin

lemma vr_process_incoming_total:
  assumes anc: "env_ancestry env = ancestry" and ok: "env_votes_ok number env"
  shows "runs_dry env k (vr_incoming self) \<Longrightarrow> reachable ancestry number vs b (vr_votes self) \<Longrightarrow>
    \<exists>y. vr_process_incoming env self sh = Some y"
proof (induction k arbitrary: self sh)
  case (Suc k)
  obtain n polled where n: "env_poll_next env (vr_incoming self) = (n, polled)" by fastforce
  show ?case
  proof (cases "\<exists>vote. polled = Ready (Some (Inr vote))")
    case False
    then show ?thesis unfolding vr_process_incoming.simps [of env self] n by (auto split: poll.splits option.splits sum.splits)
  next
    case True
    then obtain vote where polled: "polled = Ready (Some (Inr vote))" by blast
    have v: "vote_ok number vote" using ok n by (auto simp: env_votes_ok_def polled)
    let ?self = "self\<lparr>vr_incoming := n\<rparr>"
    have r: "reachable ancestry number vs b (vr_votes ?self)" using Suc.prems(2) by simp
    obtain self1 sh1 where h: "handle_vote env vote ?self sh = Some (self1, sh1, Inr ())"
      using handle_vote_total [OF anc r v] by blast
    have "runs_dry env k (vr_incoming self1)" using Suc.prems(1) n polled handle_vote_incoming [OF h] by simp
    moreover have "reachable ancestry number vs b (vr_votes self1)"
      by (rule reachable_steps [OF handle_vote_steps [OF h v, unfolded anc] r])
    ultimately obtain self2 sh2 res where "vr_process_incoming env self1 sh1 = Some (self2, sh2, res)" using Suc.IH by fastforce
    then show ?thesis using n h by (simp add: vr_process_incoming.simps [of env self] polled)
  qed
qed simp

end

end
