(* ===== verification/Voting_Steps.thy ===== *)
theory Voting_Steps
  imports Voting_Facts
begin

text \<open>
  The votes a voter casts in a round, as an automaton: at most one hint, then at most one prevote, then at most one precommit.
  The calls that the round of a voter makes in any run of its operations, whatever the environment answers and
  whatever happens between them to what it shares, are a run of the automaton.
\<close>

section \<open>The automaton\<close>

datatype progress = NoVote | HintSent | PrevoteCast | PrecommitCast

fun cast_next :: "u64 \<Rightarrow> progress \<Rightarrow> ('h, 's, 'i) env_call \<Rightarrow> progress option" where
  "cast_next n q (CallProposed m _) = (if m = n \<and> q = NoVote then Some HintSent else None)"
| "cast_next n q (CallPrevoted m _) = (if m = n \<and> (q = NoVote \<or> q = HintSent) then Some PrevoteCast else None)"
| "cast_next n q (CallPrecommitted m _) = (if m = n \<and> q = PrevoteCast then Some PrecommitCast else None)"
| "cast_next n q (CallPrevoteEquivocation _ _) = Some q"
| "cast_next n q (CallPrecommitEquivocation _ _) = Some q"
| "cast_next n q (CallCompleted _ _ _ _) = None"
| "cast_next n q (CallConcluded _ _ _ _) = None"
| "cast_next n q (CallFinalizeBlock _ _ _ _) = None"

fun cast_run :: "u64 \<Rightarrow> progress \<Rightarrow> ('h, 's, 'i) env_call list \<Rightarrow> progress option" where
  "cast_run n q [] = Some q"
| "cast_run n q (c # cs) = Option.bind (cast_next n q c) (\<lambda>q. cast_run n q cs)"

lemma cast_run_append: "cast_run n q (cs @ cs') = Option.bind (cast_run n q cs) (\<lambda>q. cast_run n q cs')"
  by (induction cs arbitrary: q) (auto split: bind_splits)

lemma cast_run_equivocations: "list_all is_equivocation_call cs \<Longrightarrow> cast_run n q cs = Some q"
proof (induction cs)
  case (Cons c cs)
  then show ?case by (cases c) auto
qed simp

text \<open>How many votes of each kind a run of the automaton has.\<close>

fun is_prevoted_call :: "('h, 's, 'i) env_call \<Rightarrow> bool" where
  "is_prevoted_call (CallPrevoted _ _) = True"
| "is_prevoted_call _ = False"

fun is_precommitted_call :: "('h, 's, 'i) env_call \<Rightarrow> bool" where
  "is_precommitted_call (CallPrecommitted _ _) = True"
| "is_precommitted_call _ = False"

fun casts_left :: "progress \<Rightarrow> nat \<times> nat" where
  "casts_left NoVote = (1, 1)"
| "casts_left HintSent = (1, 1)"
| "casts_left PrevoteCast = (0, 1)"
| "casts_left PrecommitCast = (0, 0)"

lemma cast_run_counts:
  "cast_run n q cs = Some q' \<Longrightarrow>
     length (filter is_prevoted_call cs) + fst (casts_left q') = fst (casts_left q) \<and>
     length (filter is_precommitted_call cs) + snd (casts_left q') = snd (casts_left q)"
proof (induction cs arbitrary: q)
  case (Cons c cs)
  then obtain q1 where "cast_next n q c = Some q1" "cast_run n q1 cs = Some q'" by (auto simp: bind_eq_Some_conv)
  then show ?case using Cons.IH [of q1] by (cases c) (auto split: if_splits)
qed simp

section \<open>The state machine runs the automaton\<close>

fun cast_state :: "('t, 'w) vr_state option \<Rightarrow> bool \<Rightarrow> progress \<Rightarrow> bool" where
  "cast_state None active q = True"
| "cast_state (Some (Start _ _)) active q = (q = NoVote)"
| "cast_state (Some (Proposed _ _)) active q = (q = HintSent \<and> active)"
| "cast_state (Some (Prevoting _ _)) active q = ((q = NoVote \<or> q = HintSent) \<and> active)"
| "cast_state (Some (Prevoted _)) active q = (q = (if active then PrevoteCast else NoVote))"
| "cast_state (Some Precommitted) active q = (q = (if active then PrecommitCast else NoVote))"

definition cast_inv :: "('h, 's, 'i, 't, 'b, 'n, 'o) voting_round \<Rightarrow> progress \<Rightarrow> bool" where
  "cast_inv self q \<longleftrightarrow> cast_state (vr_state self) (is_active (vr_voting self)) q"

definition casts ::
  "('h, 's, 'i, 't, 'b, 'n, 'o) voting_round \<Rightarrow> ('h, 's, 'i) shared
     \<Rightarrow> ('h, 's, 'i, 't, 'b, 'n, 'o) voting_round \<Rightarrow> ('h, 's, 'i) shared \<Rightarrow> bool" where
  "casts self sh self' sh' \<longleftrightarrow> r_round_number (vr_votes self') = r_round_number (vr_votes self) \<and>
     vr_last_round_state self' = vr_last_round_state self \<and>
     (is_active (vr_voting self') \<longrightarrow> is_active (vr_voting self)) \<and>
     (\<exists>cs. sh_calls sh' = sh_calls sh @ cs \<and> (\<forall>q. cast_inv self q \<longrightarrow>
        (\<exists>q'. cast_run (r_round_number (vr_votes self)) q cs = Some q' \<and> cast_inv self' q' \<and>
          (\<not> is_active (vr_voting self) \<longrightarrow> q' = q))))"

lemma castsI:
  assumes "r_round_number (vr_votes self') = r_round_number (vr_votes self)" "vr_last_round_state self' = vr_last_round_state self"
    and "is_active (vr_voting self') \<Longrightarrow> is_active (vr_voting self)" and "sh_calls sh' = sh_calls sh @ cs"
    and "\<And>q. cast_inv self q \<Longrightarrow> \<exists>q'. cast_run (r_round_number (vr_votes self)) q cs = Some q' \<and> cast_inv self' q' \<and>
          (\<not> is_active (vr_voting self) \<longrightarrow> q' = q)"
  shows "casts self sh self' sh'"
  using assms unfolding casts_def by blast

lemma castsE:
  assumes "casts self sh self' sh'" "sh_calls sh' = sh_calls sh @ cs" "cast_inv self q"
  obtains q' where "cast_run (r_round_number (vr_votes self)) q cs = Some q'" "cast_inv self' q'"
    "\<not> is_active (vr_voting self) \<longrightarrow> q' = q"
  using assms unfolding casts_def by auto

lemma casts_trans:
  assumes "casts a x b y" "casts b y c z"
  shows "casts a x c z"
proof -
  obtain cs where cs: "sh_calls y = sh_calls x @ cs" using assms(1) by (auto simp: casts_def)
  obtain cs' where cs': "sh_calls z = sh_calls y @ cs'" using assms(2) by (auto simp: casts_def)
  show ?thesis
  proof (rule castsI [where cs = "cs @ cs'"])
    fix q assume "cast_inv a q"
    then obtain q' where q': "cast_run (r_round_number (vr_votes a)) q cs = Some q'" "cast_inv b q'" "\<not> is_active (vr_voting a) \<longrightarrow> q' = q"
      by (rule castsE [OF assms(1) cs])
    obtain q'' where "cast_run (r_round_number (vr_votes b)) q' cs' = Some q''" "cast_inv c q''" "\<not> is_active (vr_voting b) \<longrightarrow> q'' = q'"
      by (rule castsE [OF assms(2) cs' q'(2)])
    then show "\<exists>q'. cast_run (r_round_number (vr_votes a)) q (cs @ cs') = Some q' \<and> cast_inv c q' \<and> (\<not> is_active (vr_voting a) \<longrightarrow> q' = q)"
      using q' assms(1) by (auto simp: cast_run_append casts_def)
  qed (use assms cs cs' in \<open>auto simp: casts_def\<close>)
qed

lemma casts_same:
  assumes "r_round_number (vr_votes self') = r_round_number (vr_votes self)" "vr_last_round_state self' = vr_last_round_state self"
    "vr_voting self' = vr_voting self" "vr_state self' = vr_state self" "sh_calls sh' = sh_calls sh"
  shows "casts self sh self' sh'"
  by (rule castsI [where cs = "[]"]) (use assms in \<open>auto simp: cast_inv_def\<close>)

lemma casts_handles: "handles self sh self' sh' \<Longrightarrow> casts self sh self' sh'"
proof -
  assume h: "handles self sh self' sh'"
  obtain cs where cs: "sh_calls sh' = sh_calls sh @ cs" "list_all is_equivocation_call cs" using handlesD(10) [OF h] by blast
  show ?thesis by (rule castsI [OF _ _ _ cs(1)]) (simp_all add: handlesD(1-9) [OF h] cast_run_equivocations [OF cs(2)] cast_inv_def)
qed

lemma round_number_set_index [simp]:
  "r_round_number (set_prevoted_index r) = r_round_number r" "r_round_number (set_precommitted_index r) = r_round_number r"
  by (simp_all add: set_prevoted_index_def set_precommitted_index_def)

lemma primary_active: "is_primary v \<Longrightarrow> is_active v"
  by (cases v) auto

lemma vr_primary_propose_casts:
  assumes "vr_primary_propose env last_state self sh = Some (self', sh', res)"
  shows "casts self sh self' sh'"
proof (cases "self' = self \<and> sh' = sh")
  case True
  then show ?thesis by (simp add: casts_same)
next
  case False
  then obtain t t' e where st: "vr_state self = Some (Start t t')" "is_primary (vr_voting self)" "st_estimate last_state = Some e"
    using assms by (auto simp: vr_primary_propose_def split: option.split_asm vr_state.split_asm bool.split_asm)
  then show ?thesis
    using assms False primary_active [OF st(2)]
    by (auto simp: vr_primary_propose_def Let_def cast_inv_def split: if_split_asm sum.split_asm
        intro!: castsI [where cs = "[CallProposed (r_round_number (vr_votes self)) (primary_propose_new (fst e) (snd e))]"])
qed

lemma start_prevoting_casts:
  assumes "start_prevoting env last_state t t' proposed self sh = Some (self', sh', res)"
    and "vr_state self = Some (if proposed then Proposed t t' else Start t t')"
  shows "casts self sh self' sh'"
proof (rule castsI [where cs = "[]"])
  fix q assume q: "cast_inv self q"
  show "\<exists>q'. cast_run (r_round_number (vr_votes self)) q [] = Some q' \<and> cast_inv self' q' \<and> (\<not> is_active (vr_voting self) \<longrightarrow> q' = q)"
    using assms q
    by (auto simp: start_prevoting_def cast_inv_def bind_eq_Some_conv split: poll.split_asm sum.split_asm if_split_asm)
qed (use assms in \<open>auto simp: start_prevoting_def bind_eq_Some_conv split: poll.split_asm sum.split_asm if_split_asm\<close>)

lemma finish_prevoting_casts:
  assumes "finish_prevoting env t h bc self sh = Some (self', sh', res)" and st: "vr_state self = Some (Prevoting t (h, bc))"
  shows "casts self sh self' sh'"
proof (cases "\<exists>x. env_best_chain env bc = Ready (Inr (Some x))")
  case True
  then obtain x where x: "env_best_chain env bc = Ready (Inr (Some x))" by blast
  show ?thesis
    by (rule castsI [where cs = "[CallPrevoted (r_round_number (vr_votes self)) (prevote_new (fst x) (snd x))]"])
      (use assms x in \<open>auto simp: finish_prevoting_def Let_def cast_inv_def split: sum.split_asm\<close>)
next
  case False
  show ?thesis
    by (rule castsI [where cs = "[]"])
      (use assms False in \<open>auto simp: finish_prevoting_def cast_inv_def split: poll.split_asm sum.split_asm option.split_asm\<close>)
qed

lemma vr_prevote_casts:
  assumes "vr_prevote env last_state self sh = Some (self', sh', res)"
  shows "casts self sh self' sh'"
proof (cases "vr_state self")
  case None
  then show ?thesis using assms by (simp add: vr_prevote_def casts_same)
next
  case (Some st)
  show ?thesis
  proof (cases st)
    case (Start t t')
    then show ?thesis using assms Some start_prevoting_casts [of env last_state t t' False self sh] by (simp add: vr_prevote_def)
  next
    case (Proposed t t')
    then show ?thesis using assms Some start_prevoting_casts [of env last_state t t' True self sh] by (simp add: vr_prevote_def)
  next
    case (Prevoting t w)
    then show ?thesis using assms Some finish_prevoting_casts [of env t "fst w" "snd w" self sh]
      by (cases w) (simp add: vr_prevote_def)
  qed (use assms Some in \<open>auto simp: vr_prevote_def casts_same\<close>)
qed

lemma vr_precommit_cases:
  assumes h: "vr_precommit env last_state self sh = Some (self', sh', res)"
  obtains (idle) "self' = self" "sh' = sh"
  | (fail) "self' = self\<lparr>vr_state := None\<rparr>" "sh' = sh"
  | (watch) t where "vr_state self = Some (Prevoted t)" "\<not> is_active (vr_voting self)"
      "self' = self\<lparr>vr_state := Some Precommitted\<rparr>" "sh' = sh"
  | (cast) t e g where "vr_state self = Some (Prevoted t)" "is_active (vr_voting self)" "st_estimate last_state = Some e"
      "r_prevote_ghost (vr_votes self) = Some g" "g = e \<or> is_equal_or_descendent_of (env_ancestry env) (fst e) (fst g)"
      "sh' = call (CallPrecommitted (r_round_number (vr_votes self)) (precommit_new (fst g) (snd g))) sh"
      "self' = self\<lparr>vr_state := None\<rparr> \<or>
       self' = self\<lparr>vr_votes := set_precommitted_index (vr_votes self),
         vr_outgoing := buffered_push (vr_outgoing self) (MPrecommit (precommit_new (fst g) (snd g))), vr_state := Some Precommitted\<rparr>"
proof (cases "\<exists>t. vr_state self = Some (Prevoted t)")
  case False
  then show ?thesis using h idle by (auto simp: vr_precommit_def split: option.split_asm vr_state.split_asm)
next
  case True
  then obtain t where st: "vr_state self = Some (Prevoted t)" by blast
  obtain e where e: "st_estimate last_state = Some e" using h st by (auto simp: vr_precommit_def bind_eq_Some_conv)
  show ?thesis
  proof (cases "\<exists>g. r_prevote_ghost (vr_votes self) = Some g \<and> (g = e \<or> is_equal_or_descendent_of (env_ancestry env) (fst e) (fst g))")
    case False
    then show ?thesis using h st e idle by (auto simp: vr_precommit_def round_state_def split: option.split_asm if_split_asm)
  next
    case True
    then obtain g where g: "r_prevote_ghost (vr_votes self) = Some g"
      "g = e \<or> is_equal_or_descendent_of (env_ancestry env) (fst e) (fst g)" by blast
    have c: "construct_precommit self = precommit_new (fst g) (snd g)" by (simp add: construct_precommit_def round_state_def g(1))
    show ?thesis
    proof (cases "env_timer env t = Ready (Inr ()) \<or> (env_timer env t = Pending \<and> r_completable (vr_votes self))")
      case False
      then show ?thesis using h st e g idle fail
        by (auto simp: vr_precommit_def round_state_def split: poll.split_asm sum.split_asm)
    next
      case go: True
      show ?thesis
      proof (cases "is_active (vr_voting self)")
        case False
        then show ?thesis using h st e g watch [OF st] go by (auto simp: vr_precommit_def round_state_def)
      next
        case True
        then show ?thesis using h st e g(1) cast [OF st True e g] go g(2)
          by (auto simp: vr_precommit_def round_state_def c Let_def split: sum.split_asm)
      qed
    qed
  qed
qed

lemma vr_precommit_casts:
  assumes "vr_precommit env last_state self sh = Some (self', sh', res)"
  shows "casts self sh self' sh'"
  using assms
proof (cases rule: vr_precommit_cases)
  case idle
  then show ?thesis by (simp add: casts_same)
next
  case fail
  then show ?thesis by (auto simp: cast_inv_def intro!: castsI [where cs = "[]"])
next
  case (watch t)
  then show ?thesis by (auto simp: cast_inv_def intro!: castsI [where cs = "[]"])
next
  case (cast t e g)
  show ?thesis
    by (rule castsI [where cs = "[CallPrecommitted (r_round_number (vr_votes self)) (precommit_new (fst g) (snd g))]"])
      (use cast in \<open>auto simp: cast_inv_def\<close>)
qed

lemma cast_votes_casts:
  assumes "cast_votes env last_round_state self sh = Some (self', sh', res)"
  shows "casts self sh self' sh'"
proof (cases last_round_state)
  case None
  then show ?thesis using assms by (simp add: cast_votes_def casts_same)
next
  case (Some l)
  show ?thesis
    using assms unfolding cast_votes_def Some option.case
    by (elim and_then_cases) (blast intro: casts_trans dest: vr_primary_propose_casts vr_prevote_casts vr_precommit_casts)+
qed

lemma notify_keeps:
  assumes "notify env a b self sh = Some (self', sh')"
  shows "vr_votes self' = vr_votes self" "vr_last_round_state self' = vr_last_round_state self" "vr_voting self' = vr_voting self"
    "vr_state self' = vr_state self" "sh_calls sh' = sh_calls sh"
  using assms by (auto simp: notify_def Let_def bind_eq_Some_conv split: if_split_asm option.split_asm)


section \<open>The stages of a poll\<close>

abbreviation last_view :: "('h, 's, 'i, 't, 'b, 'n, 'o) voting_round \<Rightarrow> ('h, 's, 'i) shared \<Rightarrow> 'h state option" where
  "last_view self sh \<equiv> map_option (\<lambda>s. latter_view_get s (sh_bridged sh)) (vr_last_round_state self)"

lemma voting_round_poll_cases:
  assumes h: "voting_round_poll env self sh = Some (self', sh', res)"
  obtains (receive) e where "vr_process_incoming env self sh = Some (self', sh', Inl e)" "res = Inl e"
  | (vote) self1 sh1 e where "vr_process_incoming env self sh = Some (self1, sh1, Inr ())"
      "cast_votes env (last_view self sh) self1 sh1 = Some (self', sh', Inl e)" "res = Inl e"
  | (flush) self1 sh1 self2 out flushed where "vr_process_incoming env self sh = Some (self1, sh1, Inr ())"
      "cast_votes env (last_view self sh) self1 sh1 = Some (self2, sh', Inr ())"
      "buffered_poll (env_sink env) (vr_outgoing self2) = (out, flushed)" "self' = self2\<lparr>vr_outgoing := out\<rparr>"
      "res \<noteq> Inr (Ready ())"
  | (receive') self1 sh1 self2 sh2 out e where "vr_process_incoming env self sh = Some (self1, sh1, Inr ())"
      "cast_votes env (last_view self sh) self1 sh1 = Some (self2, sh2, Inr ())"
      "buffered_poll (env_sink env) (vr_outgoing self2) = (out, Inr (Ready ()))"
      "vr_process_incoming env (self2\<lparr>vr_outgoing := out\<rparr>) sh2 = Some (self', sh', Inl e)" "res = Inl e"
  | (finish) self1 sh1 self2 sh2 out self3 sh3 where "vr_process_incoming env self sh = Some (self1, sh1, Inr ())"
      "cast_votes env (last_view self sh) self1 sh1 = Some (self2, sh2, Inr ())"
      "buffered_poll (env_sink env) (vr_outgoing self2) = (out, Inr (Ready ()))"
      "vr_process_incoming env (self2\<lparr>vr_outgoing := out\<rparr>) sh2 = Some (self3, sh3, Inr ())"
      "notify env (round_state (vr_votes self)) (round_state (vr_votes self3)) self3 sh3 = Some (self', sh')"
      "res = Inr (if \<not> r_completable (vr_votes self') then Pending
        else if \<not> last_round_estimate_finalized (last_view self sh) (r_finalized (vr_votes self')) then Pending else Ready ())"
proof -
  let ?L = "last_view self sh"
  note unf = voting_round_poll_def Let_def
  obtain self1 sh1 r1 where p1: "vr_process_incoming env self sh = Some (self1, sh1, r1)"
    using h by (cases "vr_process_incoming env self sh") (auto simp: unf)
  show ?thesis
  proof (cases r1)
    case (Inl e)
    then show ?thesis using h p1 receive by (simp add: unf)
  next
    case (Inr u)
    then have p1': "vr_process_incoming env self sh = Some (self1, sh1, Inr ())" using p1 by simp
    note hd = vr_process_incoming_handles [OF p1]
    have lv: "last_view self1 sh1 = ?L" by (simp add: handlesD [OF hd])
    obtain self2 sh2 r2 where p2: "cast_votes env ?L self1 sh1 = Some (self2, sh2, r2)"
      using h p1' lv by (cases "cast_votes env ?L self1 sh1") (auto simp: unf)
    show ?thesis
    proof (cases r2)
      case (Inl e)
      then show ?thesis using h p1' p2 lv vote [OF p1'] by (simp add: unf)
    next
      case (Inr u)
      then have p2': "cast_votes env ?L self1 sh1 = Some (self2, sh2, Inr ())" using p2 by simp
      obtain out flushed where p3: "buffered_poll (env_sink env) (vr_outgoing self2) = (out, flushed)" by fastforce
      show ?thesis
      proof (cases "flushed = Inr (Ready ())")
        case False
        then show ?thesis using h p1' p2' p3 lv flush [OF p1' _ p3]
          by (cases flushed) (auto simp: unf split: poll.split_asm)
      next
        case True
        then have p3': "buffered_poll (env_sink env) (vr_outgoing self2) = (out, Inr (Ready ()))" using p3 by simp
        let ?self2 = "self2\<lparr>vr_outgoing := out\<rparr>"
        obtain self3 sh3 r3 where p4: "vr_process_incoming env ?self2 sh2 = Some (self3, sh3, r3)"
          using h p1' p2' p3' lv by (cases "vr_process_incoming env ?self2 sh2") (auto simp: unf)
        show ?thesis
        proof (cases r3)
          case (Inl e)
          then show ?thesis using h p1' p2' p3' p4 lv receive' [OF p1' p2' p3'] by (simp add: unf)
        next
          case (Inr u)
          then have p4': "vr_process_incoming env ?self2 sh2 = Some (self3, sh3, Inr ())" using p4 by simp
          show ?thesis using h p1' p2' p3' p4' lv finish [OF p1' p2' p3' p4'] by (auto simp: unf bind_eq_Some_conv)
        qed
      qed
    qed
  qed
qed

lemma voting_round_poll_casts:
  assumes "voting_round_poll env self sh = Some (self', sh', res)"
  shows "casts self sh self' sh'"
proof -
  have out: "casts self sh (self\<lparr>vr_outgoing := out\<rparr>) sh" for self sh and out :: "('g, 'a message) buffered" by (simp add: casts_same)
  note dest = casts_handles [OF vr_process_incoming_handles] cast_votes_casts
  show ?thesis
    using assms
  proof (cases rule: voting_round_poll_cases)
    case (receive e)
    then show ?thesis using dest(1) by blast
  next
    case (vote self1 sh1 e)
    then show ?thesis using casts_trans [OF dest(1) dest(2)] by blast
  next
    case (flush self1 sh1 self2 o1 flushed)
    show ?thesis unfolding flush(4) by (rule casts_trans [OF casts_trans [OF dest(1) [OF flush(1)] dest(2) [OF flush(2)]] out])
  next
    case (receive' self1 sh1 self2 sh2 o1 e)
    show ?thesis
      by (rule casts_trans [OF casts_trans [OF casts_trans [OF dest(1) [OF receive'(1)] dest(2) [OF receive'(2)]] out] dest(1) [OF receive'(4)]])
  next
    case (finish self1 sh1 self2 sh2 o1 self3 sh3)
    have "casts self sh self3 sh3"
      by (rule casts_trans [OF casts_trans [OF casts_trans [OF dest(1) [OF finish(1)] dest(2) [OF finish(2)]] out] dest(1) [OF finish(4)]])
    moreover have "casts self3 sh3 self' sh'" by (rule casts_same) (simp_all add: notify_keeps [OF finish(5)])
    ultimately show ?thesis by (rule casts_trans)
  qed
qed

section \<open>Runs\<close>

text \<open>The operations on the round of a voter; what it shares may change in any way between them. The calls it makes are collected.\<close>

inductive vr_op ::
  "('h :: linorder, 's, 'i :: linorder, 'e, 't, 'b, 'n, 'o) environment
     \<Rightarrow> ('h, 's, 'i, 't, 'b, 'n, 'o) voting_round \<Rightarrow> ('h, 's, 'i) env_call list
     \<Rightarrow> ('h, 's, 'i, 't, 'b, 'n, 'o) voting_round \<Rightarrow> bool" for env where
  poll: "voting_round_poll env self sh = Some (self', sh', res) \<Longrightarrow> sh_calls sh' = sh_calls sh @ cs \<Longrightarrow> vr_op env self cs self'"
| vote: "handle_vote env v self sh = Some (self', sh', res') \<Longrightarrow> sh_calls sh' = sh_calls sh @ cs \<Longrightarrow> vr_op env self cs self'"
| commit: "check_and_import_from_commit env c self sh = Some (self', sh', res'') \<Longrightarrow> sh_calls sh' = sh_calls sh @ cs \<Longrightarrow>
    vr_op env self cs self'"
| bridge: "vr_bridge_state self sh = (self', sh', view') \<Longrightarrow> sh_calls sh' = sh_calls sh @ cs \<Longrightarrow> vr_op env self cs self'"

text \<open>A run, with an environment of its own for every operation.\<close>

inductive vr_run ::
  "('h :: linorder, 's, 'i :: linorder, 't, 'b, 'n, 'o) voting_round \<Rightarrow> ('h, 's, 'i, 'e, 't, 'b, 'n, 'o) environment list
     \<Rightarrow> ('h, 's, 'i) env_call list \<Rightarrow> ('h, 's, 'i, 't, 'b, 'n, 'o) voting_round \<Rightarrow> bool" for self where
  start: "vr_run self [] [] self"
| step: "vr_run self envs cs self' \<Longrightarrow> vr_op env self' cs' self'' \<Longrightarrow> vr_run self (envs @ [env]) (cs @ cs') self''"

lemma import_commit_precommits_handles:
  "import_commit_precommits env ps self sh = Some (self', sh', res) \<Longrightarrow> handles self sh self' sh'"
proof (induction ps arbitrary: self sh)
  case (Cons p ps)
  obtain votes ires where i: "import_precommit (env_ancestry env) (vr_votes self) (sc_precommit p) (sc_id p) (sc_signature p) = Some (votes, ires)"
    using Cons.prems by (auto simp: bind_eq_Some_conv)
  note n = import_precommit_number [OF i]
  show ?case
  proof (cases ires)
    case (Inl e)
    then show ?thesis using Cons.prems i n by (auto simp: handles_def)
  next
    case (Inr ir)
    let ?self = "self\<lparr>vr_votes := votes\<rparr>"
    let ?sh = "case ir_equivocation ir of None \<Rightarrow> sh | Some e \<Rightarrow> call (CallPrecommitEquivocation (r_round_number votes) e) sh"
    have "handles self sh ?self ?sh" using n by (auto simp: handles_def split: option.splits)
    moreover have "import_commit_precommits env ps ?self ?sh = Some (self', sh', res)" using Cons.prems i Inr by simp
    ultimately show ?thesis using Cons.IH handles_trans by blast
  qed
qed simp

lemma check_and_import_handles:
  assumes "check_and_import_from_commit env c self sh = Some (self', sh', res)"
  shows "handles self sh self' sh'"
proof -
  obtain v where v: "validate_commit (env_ancestry env) c (cx_voters (r_context (vr_votes self))) = Some v"
    using assms by (auto simp: check_and_import_from_commit_def bind_eq_Some_conv)
  show ?thesis
    using assms v
    by (auto simp: check_and_import_from_commit_def split: sum.split_asm if_split_asm
        elim!: and_then_cases dest: import_commit_precommits_handles)
qed

lemma vr_op_casts:
  assumes "vr_op env self cs self'" "cast_inv self q"
  shows "r_round_number (vr_votes self') = r_round_number (vr_votes self)"
    and "\<exists>q'. cast_run (r_round_number (vr_votes self)) q cs = Some q' \<and> cast_inv self' q' \<and> (\<not> is_active (vr_voting self) \<longrightarrow> q' = q)"
    and "is_active (vr_voting self') \<longrightarrow> is_active (vr_voting self)"
proof -
  obtain sh sh' where c: "casts self sh self' sh'" "sh_calls sh' = sh_calls sh @ cs"
    using assms(1)
  proof cases
    case (poll sh sh' res)
    then show ?thesis using that voting_round_poll_casts by blast
  next
    case (vote v sh sh' res)
    then show ?thesis using that casts_handles [OF handle_vote_handles] by blast
  next
    case (commit c sh sh' res)
    then show ?thesis using that casts_handles [OF check_and_import_handles] by blast
  next
    case (bridge sh sh' v)
    then show ?thesis using that [of sh sh'] by (auto simp: vr_bridge_state_def bridge_state_def casts_same)
  qed
  then show "r_round_number (vr_votes self') = r_round_number (vr_votes self)" "is_active (vr_voting self') \<longrightarrow> is_active (vr_voting self)"
    by (simp_all add: casts_def)
  obtain q' where "cast_run (r_round_number (vr_votes self)) q cs = Some q'" "cast_inv self' q'" "\<not> is_active (vr_voting self) \<longrightarrow> q' = q"
    by (rule castsE [OF c assms(2)])
  then show "\<exists>q'. cast_run (r_round_number (vr_votes self)) q cs = Some q' \<and> cast_inv self' q' \<and> (\<not> is_active (vr_voting self) \<longrightarrow> q' = q)"
    by blast
qed

lemma vr_run_casts:
  assumes "vr_run self envs cs self'" "cast_inv self q"
  shows "r_round_number (vr_votes self') = r_round_number (vr_votes self) \<and> (is_active (vr_voting self') \<longrightarrow> is_active (vr_voting self)) \<and>
    (\<exists>q'. cast_run (r_round_number (vr_votes self)) q cs = Some q' \<and> cast_inv self' q' \<and> (\<not> is_active (vr_voting self) \<longrightarrow> q' = q))"
  using assms
proof (induction rule: vr_run.induct)
  case start
  then show ?case by simp
next
  case (step envs cs self' env cs' self'')
  then obtain q' where q': "cast_run (r_round_number (vr_votes self)) q cs = Some q'" "cast_inv self' q'"
      "\<not> is_active (vr_voting self) \<longrightarrow> q' = q" "r_round_number (vr_votes self') = r_round_number (vr_votes self)"
      "is_active (vr_voting self') \<longrightarrow> is_active (vr_voting self)" by blast
  show ?case using vr_op_casts [OF step.hyps(2) q'(2)] q' by (auto simp: cast_run_append)
qed

end
