(* ===== verification/Voting_Poll.thy ===== *)
theory Voting_Poll
  imports Voting_Steps
begin

text \<open>
  What a poll does to the votes and to what is shared, and that it returns.
\<close>

section \<open>Casting\<close>

text \<open>The votes change only in the index where we voted.\<close>

definition indexes :: "('i, 'h, 's) round \<Rightarrow> ('i, 'h, 's) round \<Rightarrow> bool" where
  "indexes r r' \<longleftrightarrow> r' = set_prevoted_index r \<or> r' = set_precommitted_index r"

abbreviation indexed :: "('i, 'h, 's) round \<Rightarrow> ('i, 'h, 's) round \<Rightarrow> bool" where
  "indexed \<equiv> indexes\<^sup>*\<^sup>*"

lemma indexed_set [simp]: "indexed r (set_prevoted_index r)" "indexed r (set_precommitted_index r)"
  by (rule r_into_rtranclp, simp add: indexes_def)+

lemma indexed_simps:
  assumes "indexed r r'"
  shows "round_state r' = round_state r" "r_prevote_ghost r' = r_prevote_ghost r"
proof -
  have "round_state r' = round_state r \<and> r_prevote_ghost r' = r_prevote_ghost r"
    using assms
    by (induction rule: rtranclp_induct)
      (auto simp: indexes_def round_state_def set_prevoted_index_def set_precommitted_index_def)
  then show "round_state r' = round_state r" "r_prevote_ghost r' = r_prevote_ghost r" by simp_all
qed

lemma indexed_steps: "indexed r r' \<Longrightarrow> round_steps ancestry number r r'"
proof (induction rule: rtranclp_induct)
  case (step r1 r2)
  have "round_step ancestry number r1 r2" using step.hyps(2) round_step.set_prevoted round_step.set_precommitted by (auto simp: indexes_def)
  then show ?case using step.IH by simp
qed simp

text \<open>What casting does, with the calls it makes.\<close>

definition effects ::
  "('h, 's, 'i, 't, 'b, 'n, 'o) voting_round \<Rightarrow> ('h, 's, 'i) shared \<Rightarrow> ('h, 's, 'i) env_call list
     \<Rightarrow> ('h, 's, 'i, 't, 'b, 'n, 'o) voting_round \<Rightarrow> ('h, 's, 'i) shared \<Rightarrow> bool" where
  "effects self sh cs self' sh' \<longleftrightarrow> indexed (vr_votes self) (vr_votes self') \<and> vr_incoming self' = vr_incoming self \<and>
     vr_bridged_round_state self' = vr_bridged_round_state self \<and> vr_best_finalized self' = vr_best_finalized self \<and>
     vr_last_round_state self' = vr_last_round_state self \<and> sh' = sh\<lparr>sh_calls := sh_calls sh @ cs\<rparr>"

lemma effects_refl [simp]: "effects self sh [] self sh"
  by (simp add: effects_def)

lemma effects_trans: "effects a x cs b y \<Longrightarrow> effects b y cs' c z \<Longrightarrow> effects a x (cs @ cs') c z"
  by (auto simp: effects_def)

lemma effectsD:
  assumes "effects self sh cs self' sh'"
  shows "indexed (vr_votes self) (vr_votes self')" "vr_incoming self' = vr_incoming self"
    "vr_bridged_round_state self' = vr_bridged_round_state self" "vr_best_finalized self' = vr_best_finalized self"
    "vr_last_round_state self' = vr_last_round_state self" "sh_calls sh' = sh_calls sh @ cs"
    "sh_bridged sh' = sh_bridged sh" "sh_finalized sh' = sh_finalized sh"
  using assms by (simp_all add: effects_def)

lemma vr_primary_propose_effects:
  assumes "vr_primary_propose env last_state self sh = Some (self', sh', res)"
  shows "\<exists>cs. effects self sh cs self' sh' \<and> list_all (Not \<circ> is_precommitted_call) cs"
proof (cases "self' = self \<and> sh' = sh")
  case True
  then show ?thesis by (intro exI [of _ "[]"]) simp
next
  case False
  then obtain t t' e where st: "vr_state self = Some (Start t t')" "is_primary (vr_voting self)" "st_estimate last_state = Some e"
    using assms by (auto simp: vr_primary_propose_def split: option.split_asm vr_state.split_asm bool.split_asm)
  show ?thesis
    by (rule exI [of _ "[CallProposed (r_round_number (vr_votes self)) (primary_propose_new (fst e) (snd e))]"])
      (use assms False st in \<open>auto simp: vr_primary_propose_def Let_def effects_def call_def split: if_split_asm sum.split_asm\<close>)
qed

lemma start_prevoting_effects:
  assumes "start_prevoting env last_state t t' proposed self sh = Some (self', sh', res)"
  shows "effects self sh [] self' sh'"
  using assms by (auto simp: start_prevoting_def bind_eq_Some_conv effects_def split: poll.split_asm sum.split_asm if_split_asm)

lemma finish_prevoting_effects:
  assumes "finish_prevoting env t h bc self sh = Some (self', sh', res)"
  shows "\<exists>cs. effects self sh cs self' sh' \<and> list_all (Not \<circ> is_precommitted_call) cs"
proof (cases "\<exists>x. env_best_chain env bc = Ready (Inr (Some x))")
  case True
  then obtain x where x: "env_best_chain env bc = Ready (Inr (Some x))" by blast
  show ?thesis
    by (rule exI [of _ "[CallPrevoted (r_round_number (vr_votes self)) (prevote_new (fst x) (snd x))]"])
      (use assms x in \<open>auto simp: finish_prevoting_def Let_def effects_def call_def split: sum.split_asm\<close>)
next
  case False
  show ?thesis
    by (rule exI [of _ "[]"])
      (use assms False in \<open>auto simp: finish_prevoting_def effects_def split: poll.split_asm sum.split_asm option.split_asm\<close>)
qed

lemma vr_prevote_effects:
  assumes "vr_prevote env last_state self sh = Some (self', sh', res)"
  shows "\<exists>cs. effects self sh cs self' sh' \<and> list_all (Not \<circ> is_precommitted_call) cs"
proof (cases "self' = self \<and> sh' = sh")
  case True
  then show ?thesis by (intro exI [of _ "[]"]) simp
next
  case False
  then consider t t' p where "start_prevoting env last_state t t' p self sh = Some (self', sh', res)"
    | t h bc where "finish_prevoting env t h bc self sh = Some (self', sh', res)"
    using assms by (auto simp: vr_prevote_def split: option.split_asm vr_state.split_asm prod.split_asm)
  then show ?thesis
  proof cases
    case 1
    show ?thesis by (rule exI [of _ "[]"]) (simp add: start_prevoting_effects [OF 1])
  next
    case 2
    then show ?thesis by (rule finish_prevoting_effects)
  qed
qed

text \<open>A precommit is cast for the prevote-GHOST, at or above the estimate of the last round.\<close>

definition precommits_well ::
  "('h, 's, 'i, 'e, 't, 'b, 'n, 'o) environment \<Rightarrow> 'h state \<Rightarrow> ('i, 'h, 's) round \<Rightarrow> 'h precommit \<Rightarrow> bool" where
  "precommits_well env s r p \<longleftrightarrow> r_prevote_ghost r = Some (pc_target_hash p, pc_target_number p) \<and>
     (\<exists>e. st_estimate s = Some e \<and> (e = (pc_target_hash p, pc_target_number p) \<or>
        is_equal_or_descendent_of (env_ancestry env) (fst e) (pc_target_hash p)))"

lemma vr_precommit_effects:
  assumes "vr_precommit env last_state self sh = Some (self', sh', res)"
  shows "\<exists>cs. effects self sh cs self' sh' \<and> (\<forall>m p. CallPrecommitted m p \<in> set cs \<longrightarrow> precommits_well env last_state (vr_votes self) p)"
  using assms
proof (cases rule: vr_precommit_cases)
  case (cast t e g)
  let ?c = "CallPrecommitted (r_round_number (vr_votes self)) (precommit_new (fst g) (snd g))"
  have "effects self sh [?c] self' sh'" using cast(6,7) by (auto simp: effects_def call_def)
  moreover have "precommits_well env last_state (vr_votes self) (precommit_new (fst g) (snd g))"
    using cast(3-5) by (auto simp: precommits_well_def precommit_new_def)
  ultimately show ?thesis by (intro exI [of _ "[?c]"]) simp
qed (auto simp: effects_def intro: exI [of _ "[]"])

lemma cast_votes_effects:
  assumes "cast_votes env l self sh = Some (self', sh', res)"
  shows "\<exists>cs. effects self sh cs self' sh' \<and>
    (\<forall>m p. CallPrecommitted m p \<in> set cs \<longrightarrow> (\<exists>s. l = Some s \<and> precommits_well env s (vr_votes self) p))"
proof (cases l)
  case None
  then show ?thesis using assms by (intro exI [of _ "[]"]) (simp add: cast_votes_def)
next
  case (Some s)
  have no: "CallPrecommitted m p \<notin> set cs" if "list_all (Not \<circ> is_precommitted_call) cs" for m p and cs :: "('a, 'b, 'c) env_call list"
    using that by (auto simp: list_all_iff)
  from assms [unfolded cast_votes_def Some option.case] show ?thesis
  proof (cases rule: and_then_cases)
    case (1 e)
    then show ?thesis using vr_primary_propose_effects [OF 1(1)] no by blast
  next
    case (2 self1 sh1 a)
    obtain cs1 where cs1: "effects self sh cs1 self1 sh1" "list_all (Not \<circ> is_precommitted_call) cs1"
      using vr_primary_propose_effects [OF 2(1)] by blast
    from 2(2) show ?thesis
    proof (cases rule: and_then_cases)
      case (1 e)
      obtain cs2 where cs2: "effects self1 sh1 cs2 self' sh'" "list_all (Not \<circ> is_precommitted_call) cs2"
        using vr_prevote_effects [OF 1(1)] by blast
      then show ?thesis using effects_trans [OF cs1(1) cs2(1)] cs1(2) no [of "cs1 @ cs2"] by auto
    next
      case (2 self2 sh2 a)
      obtain cs2 where cs2: "effects self1 sh1 cs2 self2 sh2" "list_all (Not \<circ> is_precommitted_call) cs2"
        using vr_prevote_effects [OF 2(1)] by blast
      obtain cs3 where cs3: "effects self2 sh2 cs3 self' sh'"
          "\<forall>m p. CallPrecommitted m p \<in> set cs3 \<longrightarrow> precommits_well env s (vr_votes self2) p"
        using vr_precommit_effects [OF 2(2)] by blast
      have e12: "effects self sh (cs1 @ cs2) self2 sh2" by (rule effects_trans [OF cs1(1) cs2(1)])
      have "r_prevote_ghost (vr_votes self2) = r_prevote_ghost (vr_votes self)" by (rule indexed_simps(2) [OF effectsD(1) [OF e12]])
      then have "precommits_well env s (vr_votes self) p" if "precommits_well env s (vr_votes self2) p" for p
        using that by (simp add: precommits_well_def)
      then show ?thesis using effects_trans [OF e12 cs3(1)] no [OF cs1(2)] no [OF cs2(2)] cs3(2) Some
        by (intro exI [of _ "(cs1 @ cs2) @ cs3"]) auto
    qed
  qed
qed

section \<open>The votes\<close>

lemma cast_votes_indexed:
  assumes "cast_votes env l self sh = Some (self', sh', res)"
  shows "indexed (vr_votes self) (vr_votes self')"
proof -
  obtain cs where "effects self sh cs self' sh'" using cast_votes_effects [OF assms] by (elim exE conjE) (rule that)
  then show ?thesis by (rule effectsD)
qed

lemma notify_votes [simp]: "notify env a b self sh = Some (self', sh') \<Longrightarrow> vr_votes self' = vr_votes self"
  by (rule notify_keeps)

lemma voting_round_poll_steps:
  assumes "voting_round_poll env self sh = Some (self', sh', res)" and ok: "env_votes_ok number env"
  shows "round_steps (env_ancestry env) number (vr_votes self) (vr_votes self')"
proof -
  note inc = vr_process_incoming_steps [OF _ ok] and cst = indexed_steps [OF cast_votes_indexed]
  show ?thesis
    using assms(1)
  proof (cases rule: voting_round_poll_cases)
    case (receive e)
    then show ?thesis using inc by blast
  next
    case (vote self1 sh1 e)
    show ?thesis by (rule rtranclp_trans [OF inc [OF vote(1)] cst [OF vote(2)]])
  next
    case (flush self1 sh1 self2 o1 flushed)
    then show ?thesis using rtranclp_trans [OF inc [OF flush(1)] cst [OF flush(2)]] by simp
  next
    case (receive' self1 sh1 self2 sh2 o1 e)
    then show ?thesis
      using rtranclp_trans [OF rtranclp_trans [OF inc [OF receive'(1)] cst [OF receive'(2)]]] inc [OF receive'(4)] by simp
  next
    case (finish self1 sh1 self2 sh2 o1 self3 sh3)
    then show ?thesis
      using rtranclp_trans [OF rtranclp_trans [OF inc [OF finish(1)] cst [OF finish(2)]]] inc [OF finish(4)] by simp
  qed
qed

section \<open>What a poll tells the others\<close>

lemma no_precommit_call: "list_all is_equivocation_call cs \<Longrightarrow> CallPrecommitted m p \<notin> set cs"
  by (auto simp: list_all_iff)

lemma voting_round_poll_precommit:
  assumes poll: "voting_round_poll env self sh = Some (self', sh', res)" and cs: "sh_calls sh' = sh_calls sh @ cs"
    and p: "CallPrecommitted m p \<in> set cs"
  shows "\<exists>self1 sh1 s. vr_process_incoming env self sh = Some (self1, sh1, Inr ()) \<and> last_view self sh = Some s \<and>
    precommits_well env s (vr_votes self1) p"
proof -
  have eq: "\<exists>c. sh_calls sh2 = sh_calls sh1 @ c \<and> CallPrecommitted m p \<notin> set c"
    if "vr_process_incoming env self1 sh1 = Some (self2, sh2, r)" for self1 sh1 self2 sh2 r
    using handlesD(10) [OF vr_process_incoming_handles [OF that]] no_precommit_call by blast
  have well: "\<exists>self1 sh1 s. vr_process_incoming env self sh = Some (self1, sh1, Inr ()) \<and> last_view self sh = Some s \<and>
      precommits_well env s (vr_votes self1) p"
    if p1: "vr_process_incoming env self sh = Some (self1, sh1, Inr ())"
      and p2: "cast_votes env (last_view self sh) self1 sh1 = Some (self2, sh2, r)" and c: "sh_calls sh' = sh_calls sh2 @ c" "CallPrecommitted m p \<notin> set c"
    for self1 sh1 self2 sh2 r c
  proof -
    obtain c1 where c1: "sh_calls sh1 = sh_calls sh @ c1" "CallPrecommitted m p \<notin> set c1" using eq [OF p1] by blast
    obtain c2 where c2: "effects self1 sh1 c2 self2 sh2"
        "\<forall>m p. CallPrecommitted m p \<in> set c2 \<longrightarrow> (\<exists>s. last_view self sh = Some s \<and> precommits_well env s (vr_votes self1) p)"
      using cast_votes_effects [OF p2] by (elim exE conjE) (rule that)
    have "CallPrecommitted m p \<in> set c2" using p cs c c1 effectsD(6) [OF c2(1)] by auto
    then show ?thesis using c2(2) p1 by blast
  qed
  show ?thesis
    using poll
  proof (cases rule: voting_round_poll_cases)
    case (receive e)
    then show ?thesis using eq cs p by fastforce
  next
    case (vote self1 sh1 e)
    then show ?thesis using well [of self1 sh1 self' sh' "Inl e" "[]"] by simp
  next
    case (flush self1 sh1 self2 o1 flushed)
    then show ?thesis using well [of self1 sh1 self2 sh' "Inr ()" "[]"] by simp
  next
    case (receive' self1 sh1 self2 sh2 o1 e)
    then show ?thesis using eq [OF receive'(4)] well [OF receive'(1,2)] by blast
  next
    case (finish self1 sh1 self2 sh2 o1 self3 sh3)
    then show ?thesis using eq [OF finish(4)] well [OF finish(1,2)] by (auto simp: notify_keeps(5) [OF finish(5)])
  qed
qed

lemma notify_cases:
  assumes "notify env a (round_state (vr_votes self)) self sh = Some (self', sh')"
  obtains (quiet) "self' = self" "sh_finalized sh' = sh_finalized sh"
  | (send) f n pcs where "r_finalized (vr_votes self) = Some (f, n)" "r_completable (vr_votes self)"
      "finalizing_precommits (env_ancestry env) (vr_votes self) = Some pcs"
      "vr_state self = Some Precommitted \<or> vr_last_round_state self = None"
      "st_finalized a \<noteq> r_finalized (vr_votes self) \<or> vr_best_finalized self = None"
      "self' = self\<lparr>vr_best_finalized := Some \<lparr>cm_target_hash = f, cm_target_number = n, cm_precommits = pcs\<rparr>\<rparr>"
      "sh_finalized sh' = sh_finalized sh @ [(f, n, r_round_number (vr_votes self), \<lparr>cm_target_hash = f, cm_target_number = n, cm_precommits = pcs\<rparr>)]"
proof (cases "r_completable (vr_votes self) \<and> (st_finalized a \<noteq> r_finalized (vr_votes self) \<or> vr_best_finalized self = None) \<and>
    (vr_state self = Some Precommitted \<or> vr_last_round_state self = None)")
  case False
  then have "self' = self \<and> sh_finalized sh' = sh_finalized sh"
    using assms unfolding notify_def by (auto simp: Let_def round_state_def split: if_split_asm option.split_asm)
  then show ?thesis using quiet by blast
next
  case True
  show ?thesis
  proof (cases "r_finalized (vr_votes self)")
    case None
    then have "self' = self \<and> sh_finalized sh' = sh_finalized sh"
      using assms True unfolding notify_def by (auto simp: Let_def round_state_def split: if_split_asm option.split_asm)
    then show ?thesis using quiet by blast
  next
    case (Some x)
    obtain f n where x: "x = (f, n)" by fastforce
    obtain pcs where pcs: "finalizing_precommits (env_ancestry env) (vr_votes self) = Some pcs"
      by (simp add: finalizing_precommits_def Some x)
    have "self' = self\<lparr>vr_best_finalized := Some \<lparr>cm_target_hash = f, cm_target_number = n, cm_precommits = pcs\<rparr>\<rparr> \<and>
      sh_finalized sh' = sh_finalized sh @ [(f, n, r_round_number (vr_votes self), \<lparr>cm_target_hash = f, cm_target_number = n, cm_precommits = pcs\<rparr>)]"
      using assms True Some x pcs unfolding notify_def by (auto simp: Let_def round_state_def split: if_split_asm option.split_asm)
    then show ?thesis using True by (elim conjE) (rule send [OF Some [unfolded x] _ pcs])
  qed
qed

text \<open>Before the notification a poll tells the others nothing.\<close>

lemma poll_until_notify:
  assumes p1: "vr_process_incoming env self sh = Some (self1, sh1, r1)" and p2: "cast_votes env l self1 sh1 = Some (self2, sh2, r2)"
    and p3: "vr_process_incoming env (self2\<lparr>vr_outgoing := out\<rparr>) sh2 = Some (self3, sh3, r3)"
  shows "sh_finalized sh3 = sh_finalized sh" "sh_bridged sh3 = sh_bridged sh" "vr_best_finalized self3 = vr_best_finalized self"
    "vr_last_round_state self3 = vr_last_round_state self" "vr_bridged_round_state self3 = vr_bridged_round_state self"
    "r_round_number (vr_votes self3) = r_round_number (vr_votes self)"
proof -
  obtain cs where e: "effects self1 sh1 cs self2 sh2" using cast_votes_effects [OF p2] by (elim exE conjE) (rule that)
  note h = handlesD [OF vr_process_incoming_handles [OF p1]] handlesD [OF vr_process_incoming_handles [OF p3]] effectsD(2-8) [OF e]
  have "casts self1 sh1 self2 sh2" by (rule cast_votes_casts [OF p2])
  then have "r_round_number (vr_votes self2) = r_round_number (vr_votes self1)" by (simp add: casts_def)
  then show "sh_finalized sh3 = sh_finalized sh" "sh_bridged sh3 = sh_bridged sh" "vr_best_finalized self3 = vr_best_finalized self"
    "vr_last_round_state self3 = vr_last_round_state self" "vr_bridged_round_state self3 = vr_bridged_round_state self"
    "r_round_number (vr_votes self3) = r_round_number (vr_votes self)"
    using h by simp_all
qed

lemma poll_unfinished:
  assumes p1: "vr_process_incoming env self sh = Some (self1, sh1, r1)" and p2: "cast_votes env l self1 sh1 = Some (self2, sh2, r2)"
  shows "sh_finalized sh2 = sh_finalized sh" "sh_bridged sh2 = sh_bridged sh"
proof -
  obtain cs where e: "effects self1 sh1 cs self2 sh2" using cast_votes_effects [OF p2] by (elim exE conjE) (rule that)
  then show "sh_finalized sh2 = sh_finalized sh" "sh_bridged sh2 = sh_bridged sh"
    using handlesD [OF vr_process_incoming_handles [OF p1]] effectsD(7,8) [OF e] by simp_all
qed

lemma voting_round_poll_notify:
  assumes "voting_round_poll env self sh = Some (self', sh', res)"
  shows "(sh_finalized sh' = sh_finalized sh \<and> sh_bridged sh' = sh_bridged sh) \<or>
    (\<exists>self3 sh3. notify env (round_state (vr_votes self)) (round_state (vr_votes self3)) self3 sh3 = Some (self', sh') \<and>
       sh_finalized sh3 = sh_finalized sh \<and> sh_bridged sh3 = sh_bridged sh \<and> vr_best_finalized self3 = vr_best_finalized self \<and>
       vr_last_round_state self3 = vr_last_round_state self \<and> vr_bridged_round_state self3 = vr_bridged_round_state self \<and>
       r_round_number (vr_votes self3) = r_round_number (vr_votes self))"
  using assms
proof (cases rule: voting_round_poll_cases)
  case (receive e)
  then show ?thesis using handlesD(8,9) [OF vr_process_incoming_handles [OF receive(1)]] by simp
next
  case (vote self1 sh1 e)
  then show ?thesis using poll_unfinished [OF vote(1,2)] by simp
next
  case (flush self1 sh1 self2 o1 flushed)
  then show ?thesis using poll_unfinished [OF flush(1,2)] by simp
next
  case (receive' self1 sh1 self2 sh2 o1 e)
  then show ?thesis using poll_until_notify(1,2) [OF receive'(1,2,4)] by simp
next
  case (finish self1 sh1 self2 sh2 o1 self3 sh3)
  then show ?thesis using poll_until_notify [OF finish(1,2,4)] by blast
qed

section \<open>Returning\<close>

definition last_ok :: "'h state option \<Rightarrow> bool" where
  "last_ok l \<longleftrightarrow> (\<forall>s. l = Some s \<longrightarrow> st_estimate s \<noteq> None \<and> st_prevote_ghost s \<noteq> None)"

lemma and_then_returns: "m \<noteq> None \<Longrightarrow> \<forall>x y a. f x y a \<noteq> None \<Longrightarrow> and_then m f \<noteq> None"
  by (auto simp: and_then_def split: sum.splits)

lemma cast_votes_total:
  assumes "last_ok l"
  shows "\<exists>y. cast_votes env l self sh = Some y"
proof (cases l)
  case None
  then show ?thesis by (simp add: cast_votes_def)
next
  case (Some s)
  then obtain e g where s: "st_estimate s = Some e" "st_prevote_ghost s = Some g" using assms by (auto simp: last_ok_def)
  have con: "construct_prevote env s self \<noteq> None" for self
    by (simp add: construct_prevote_def s split: option.split)
  have st: "start_prevoting env s t t' p self sh \<noteq> None" for t t' p self sh
    using con [of self] by (auto simp: start_prevoting_def split: poll.split sum.split)
  have fin: "finish_prevoting env t h bc self sh \<noteq> None" for t h bc self sh by (simp add: finish_prevoting_def)
  have pv: "vr_prevote env s self sh \<noteq> None" for self sh
    using st fin by (auto simp: vr_prevote_def split: option.split vr_state.split)
  have pc: "vr_precommit env s self sh \<noteq> None" for self sh
    unfolding vr_precommit_def by (simp add: s Let_def del: not_None_eq split: option.split vr_state.split)
  have pp: "vr_primary_propose env s self sh \<noteq> None" for self sh by (simp add: vr_primary_propose_def)
  have "cast_votes env l self sh \<noteq> None" unfolding cast_votes_def Some option.case by (intro and_then_returns allI pp pv pc)
  then show ?thesis by simp
qed

lemma notify_total:
  "notify env a (round_state (vr_votes self)) self sh \<noteq> None"
proof (cases "r_finalized (vr_votes self)")
  case None
  then show ?thesis unfolding notify_def by (simp add: Let_def round_state_def del: not_None_eq)
next
  case (Some f)
  obtain h n where "f = (h, n)" by fastforce
  then have "\<exists>pcs. finalizing_precommits (env_ancestry env) (vr_votes self) = Some pcs"
    by (simp add: finalizing_precommits_def Some)
  then show ?thesis using Some \<open>f = (h, n)\<close> unfolding notify_def by (auto simp: Let_def round_state_def simp del: not_None_eq)
qed

context chain
begin

lemma voting_round_poll_total:
  assumes anc: "env_ancestry env = ancestry" and ok: "env_votes_ok number env" and dry: "\<forall>n. \<exists>k. runs_dry env k n"
    and r: "reachable ancestry number vs b (vr_votes self)" and l: "last_ok (last_view self sh)"
  shows "\<exists>y. voting_round_poll env self sh = Some y"
proof -
  note steps = vr_process_incoming_steps [OF _ ok, unfolded anc]
  obtain self1 sh1 r1 where p1: "vr_process_incoming env self sh = Some (self1, sh1, r1)"
    using dry vr_process_incoming_total [OF anc ok _ r] by fastforce
  note hd = handlesD [OF vr_process_incoming_handles [OF p1]]
  obtain self2 sh2 r2 where p2: "cast_votes env (last_view self sh) self1 sh1 = Some (self2, sh2, r2)"
    using cast_votes_total [OF l] by fastforce
  obtain out flushed where p3: "buffered_poll (env_sink env) (vr_outgoing self2) = (out, flushed)" by fastforce
  let ?self2 = "self2\<lparr>vr_outgoing := out\<rparr>"
  have r2: "reachable ancestry number vs b (vr_votes ?self2)"
    using reachable_steps [OF rtranclp_trans [OF steps [OF p1] indexed_steps [OF cast_votes_indexed [OF p2]]] r] by simp
  obtain self3 sh3 r3 where p4: "vr_process_incoming env ?self2 sh2 = Some (self3, sh3, r3)"
    using dry vr_process_incoming_total [OF anc ok _ r2] by fastforce
  obtain self4 sh4 where p5: "notify env (round_state (vr_votes self)) (round_state (vr_votes self3)) self3 sh3 = Some (self4, sh4)"
    using notify_total [of env _ self3 sh3] by fastforce
  have lv: "last_view self1 sh1 = last_view self sh" by (simp add: hd)
  show ?thesis
    by (cases r1; cases r2; cases flushed; cases r3)
      (auto simp: voting_round_poll_def Let_def p1 p2 p3 p4 p5 lv split: poll.splits)
qed

end

end
