(* ===== verification/Round_Example.thy ===== *)
theory Round_Example
  imports Round_Facts Fuzz_Chain
begin

text \<open>
  A concrete round on the block tree of the fuzzing harness: four voters of weight one, base block 0; voters 1, 2 and 3
  prevote and precommit a block \<open>t\<close>. The properties of the round are applied to it.
\<close>

section \<open>Casting votes in sequence\<close>

context chain
begin

lemma cast_prevotes:
  "round_ok parent number r \<Longrightarrow> distinct ids \<Longrightarrow> set ids \<subseteq> voter_ids (voters r) \<Longrightarrow> \<forall>v \<in> set ids. view r Prevote v = None \<Longrightarrow>
   descends parent (base r) t \<Longrightarrow>
   \<exists>r'. round_steps ancestry number r r' \<and> round_ok parent number r' \<and> (ids \<noteq> [] \<longrightarrow> fresh parent number r') \<and> extends r r' \<and>
     view r' Prevote = (\<lambda>v. if v \<in> set ids then Some (t, False) else view r Prevote v) \<and> view r' Precommit = view r Precommit"
proof (induction ids arbitrary: r)
  case Nil
  then show ?case using extends_refl by auto
next
  case (Cons vid ids)
  obtain r1 where r1: "round_step ancestry number r r1" "round_ok parent number r1" "fresh parent number r1" "extends r r1"
      "view r1 Prevote = (view r Prevote)(vid \<mapsto> (t, False))" "view r1 Precommit = view r Precommit"
    using cast_prevote [OF Cons.prems(1), of vid t] Cons.prems by auto
  have "set ids \<subseteq> voter_ids (voters r1)" "\<forall>v \<in> set ids. view r1 Prevote v = None" "descends parent (base r1) t"
    using Cons.prems by (auto simp: r1(5) extendsD [OF r1(4)])
  then obtain r' where r': "round_steps ancestry number r1 r'" "round_ok parent number r'" "extends r1 r'"
      "ids \<noteq> [] \<longrightarrow> fresh parent number r'" "view r' Prevote = (\<lambda>v. if v \<in> set ids then Some (t, False) else view r1 Prevote v)"
      "view r' Precommit = view r1 Precommit"
    using Cons.IH [OF r1(2)] Cons.prems(2) by auto
  show ?case
  proof (cases ids)
    case Nil
    then show ?thesis using r1 by (intro exI [of _ r1]) (auto simp: fun_eq_iff)
  next
    case (Cons a as)
    then show ?thesis
      using r' r1(5,6) converse_rtranclp_into_rtranclp [of "round_step ancestry number", OF r1(1) r'(1)] extends_trans [OF r1(4) r'(3)]
      by (intro exI [of _ r']) (auto simp: fun_eq_iff)
  qed
qed

lemma cast_precommits:
  "round_ok parent number r \<Longrightarrow> distinct ids \<Longrightarrow> set ids \<subseteq> voter_ids (voters r) \<Longrightarrow> \<forall>v \<in> set ids. view r Precommit v = None \<Longrightarrow>
   descends parent (base r) t \<Longrightarrow>
   \<exists>r'. round_steps ancestry number r r' \<and> round_ok parent number r' \<and> (ids \<noteq> [] \<longrightarrow> fresh parent number r') \<and> extends r r' \<and>
     view r' Precommit = (\<lambda>v. if v \<in> set ids then Some (t, False) else view r Precommit v) \<and> view r' Prevote = view r Prevote"
proof (induction ids arbitrary: r)
  case Nil
  then show ?case using extends_refl by auto
next
  case (Cons vid ids)
  obtain r1 where r1: "round_step ancestry number r r1" "round_ok parent number r1" "fresh parent number r1" "extends r r1"
      "view r1 Precommit = (view r Precommit)(vid \<mapsto> (t, False))" "view r1 Prevote = view r Prevote"
    using cast_precommit [OF Cons.prems(1), of vid t] Cons.prems by auto
  have "set ids \<subseteq> voter_ids (voters r1)" "\<forall>v \<in> set ids. view r1 Precommit v = None" "descends parent (base r1) t"
    using Cons.prems by (auto simp: r1(5) extendsD [OF r1(4)])
  then obtain r' where r': "round_steps ancestry number r1 r'" "round_ok parent number r'" "extends r1 r'"
      "ids \<noteq> [] \<longrightarrow> fresh parent number r'" "view r' Precommit = (\<lambda>v. if v \<in> set ids then Some (t, False) else view r1 Precommit v)"
      "view r' Prevote = view r1 Prevote"
    using Cons.IH [OF r1(2)] Cons.prems(2) by auto
  show ?case
  proof (cases ids)
    case Nil
    then show ?thesis using r1 by (intro exI [of _ r1]) (auto simp: fun_eq_iff)
  next
    case (Cons a as)
    then show ?thesis
      using r' r1(5,6) converse_rtranclp_into_rtranclp [of "round_step ancestry number", OF r1(1) r'(1)] extends_trans [OF r1(4) r'(3)]
      by (intro exI [of _ r']) (auto simp: fun_eq_iff)
  qed
qed

end

section \<open>The example\<close>

lemma fuzz_base_above: "t \<le> 15 \<Longrightarrow> descends fuzz_parent 0 t"
  using fuzz_good_ancestry [of 0 t] fuzz.is_equal_or_descendent_of_iff [of 0 t]
  by (cases "t = 0") (auto simp: is_equal_or_descendent_of_def fuzz_good_descendent_def)

definition four_voters :: "(nat \<times> u64) list" where
  "four_voters = [(1, 1), (2, 1), (3, 1), (4, 1)]"

lemma four_voters_set:
  "\<exists>vs. voter_set_new four_voters = Some (Some vs) \<and> rw (vs_threshold vs) = 3 \<and> faulty vs = 1 \<and>
     voter_ids vs = {1, 2, 3, 4} \<and> (\<forall>A. weight_of_set vs A = card (A \<inter> {1, 2, 3, 4}))"
proof -
  have sum: "weight_sum four_voters = 4" by (simp add: four_voters_def)
  then obtain vs where new: "voter_set_new four_voters = Some (Some vs)" using voter_set_new_accepts [of four_voters] by auto
  note vs = voter_set_new_SomeD [OF new]
  have th: "rw (vs_threshold vs) = 3" "faulty vs = 1"
    using threshold_eq [OF vs(1)] faulty_eq [OF vs(1)] vs(2) sum by simp_all
  have ids: "voter_ids vs = {1, 2, 3, 4}" by (auto simp: voter_set_new_ids [OF new] four_voters_def)
  have "weight_of_set vs A = (\<Sum>vid \<in> A \<inter> {1, 2, 3, 4}. 1)" for A
    unfolding weight_of_set_def ids by (rule sum.cong) (auto simp: vs(3) four_voters_def)
  then show ?thesis using new th ids by auto
qed

definition example_view :: "fhash \<Rightarrow> nat \<rightharpoonup> fhash \<times> bool" where
  "example_view t = (\<lambda>v. if v \<in> {1, 2, 3} then Some (t, False) else None)"

lemma example_steps:
  assumes r: "reachable fuzz_ancestry fuzz_num vs 0 r" and vs: "{1, 2, 3} \<subseteq> voter_ids vs"
    and new: "\<And>p. view r p = Map.empty" and d: "descends fuzz_parent 0 t"
  shows "\<exists>r' r''. round_steps fuzz_ancestry fuzz_num r r' \<and> round_steps fuzz_ancestry fuzz_num r' r'' \<and>
    view r' Prevote = example_view t \<and> view r' Precommit = Map.empty \<and> fresh fuzz_parent fuzz_num r' \<and>
    (\<forall>p. view r'' p = example_view t) \<and> fresh fuzz_parent fuzz_num r''"
proof -
  have ok: "round_ok fuzz_parent fuzz_num r" "voters r = vs" "base r = 0"
    using chain.reachable_ok [OF fuzz.chain_axioms r] by auto
  have ev: "example_view t = (\<lambda>v. if v \<in> set [1, 2, 3] then Some (t, False) else m v)" if "m = Map.empty" for m
    by (simp add: example_view_def that fun_eq_iff)
  obtain r' where r': "round_steps fuzz_ancestry fuzz_num r r'" "round_ok fuzz_parent fuzz_num r'" "fresh fuzz_parent fuzz_num r'"
      "extends r r'" "view r' Prevote = example_view t" "view r' Precommit = Map.empty"
    using chain.cast_prevotes [OF fuzz.chain_axioms ok(1), of "[1, 2, 3]" t] vs d
    unfolding ev [OF new [of Prevote]] by (auto simp: ok(2,3) new)
  obtain r'' where r'': "round_steps fuzz_ancestry fuzz_num r' r''" "fresh fuzz_parent fuzz_num r''"
      "view r'' Precommit = example_view t" "view r'' Prevote = view r' Prevote"
    using chain.cast_precommits [OF fuzz.chain_axioms r'(2), of "[1, 2, 3]" t] vs d
    unfolding ev [OF r'(6)] by (auto simp: ok(2,3) extendsD [OF r'(4)] r'(6))
  have "view r'' p = example_view t" for p by (cases p) (simp_all add: r''(3,4) r'(5))
  then show ?thesis using r' r'' by blast
qed

text \<open>The rounds of the example: \<open>r\<close> after the prevotes, \<open>r'\<close> after the precommits. With three of four voters
  no other block can get a quorum, so that the block is the GHOST, the estimate and finalized.\<close>

lemma example_rounds:
  assumes d: "descends fuzz_parent 0 t"
  obtains vs and r r' :: "(nat, fhash, unit) round" where
    "voter_set_new four_voters = Some (Some vs)" "reachable fuzz_ancestry fuzz_num vs 0 r" "round_steps fuzz_ancestry fuzz_num r r'"
    "view r Prevote = example_view t" "view r Precommit = Map.empty" "\<And>p. view r' p = example_view t"
    "fresh fuzz_parent fuzz_num r" "fresh fuzz_parent fuzz_num r'"
    "rw (vs_threshold vs) = 3" "faulty vs = 1" "voter_ids vs = {1, 2, 3, 4}" "\<And>A. weight_of_set vs A = card (A \<inter> {1, 2, 3, 4})"
proof -
  obtain vs where vs: "voter_set_new four_voters = Some (Some vs)" "rw (vs_threshold vs) = 3" "faulty vs = 1"
    "voter_ids vs = {1, 2, 3, 4}" "\<forall>A. weight_of_set vs A = card (A \<inter> {1, 2, 3, 4})"
    using four_voters_set by blast
  let ?r0 = "round_new \<lparr>rp_round_number = 1, rp_voters = vs, rp_base = (0, fuzz_num 0)\<rparr> :: (nat, fhash, unit) round"
  have r0: "reachable fuzz_ancestry fuzz_num vs 0 ?r0" by (rule reachable.start [OF vs(1)])
  obtain r r' where r: "round_steps fuzz_ancestry fuzz_num ?r0 r" "round_steps fuzz_ancestry fuzz_num r r'"
      "view r Prevote = example_view t" "view r Precommit = Map.empty" "fresh fuzz_parent fuzz_num r"
      "\<forall>p. view r' p = example_view t" "fresh fuzz_parent fuzz_num r'"
    using example_steps [OF r0 _ round_new_fields(3) [OF HOL.refl] d] vs(4) by auto
  show thesis
    by (rule that [OF vs(1) reachable_steps [OF r(1) r0] r(2-4) r(6) [rule_format] r(5,7) vs(2-4) vs(5) [rule_format]])
qed

lemma example_support:
  assumes "view r p = example_view t" "voters r = vs" "\<And>A. weight_of_set vs A = card (A \<inter> {1, 2, 3, 4 :: nat})"
  shows "support fuzz_parent r p b = (if descends fuzz_parent b t then 3 else 0)" "equivs r p = {}"
proof -
  have "supporters fuzz_parent r p b = (if descends fuzz_parent b t then {1, 2, 3} else {})"
    using assms(1) by (auto simp: supporters_def example_view_def split: if_splits)
  then show "support fuzz_parent r p b = (if descends fuzz_parent b t then 3 else 0)" by (simp add: support_def assms(2,3))
  show "equivs r p = {}" using assms(1) by (auto simp: equivs_def example_view_def split: if_splits)
qed

lemma reachable_round:
  assumes "chain ancestry parent number" "reachable ancestry number vs b r"
  shows "round_ok parent number r" "voters r = vs" "base r = b" "voter_set_ok vs"
  using chain.reachable_ok [OF assms] by (auto elim!: round_okE dest: core_voters)

lemma reachable_core:
  assumes "chain ancestry parent number" "reachable ancestry number vs b r"
  obtains V where "core_ok parent number r V"
  using reachable_round(1) [OF assms] by (auto simp: round_ok_def)

text \<open>Its finalized block and its completable flag.\<close>

lemma dom_example_view: "dom (example_view t) = {1, 2, 3}"
  by (auto simp: example_view_def split: if_splits)

lemma example_state:
  fixes r :: "(nat, fhash, unit) round"
  assumes d: "descends fuzz_parent 0 t" and r: "reachable fuzz_ancestry fuzz_num vs 0 r" and v: "\<And>p. view r p = example_view t"
    and w: "rw (vs_threshold vs) = 3" "faulty vs = 1" "\<And>A. weight_of_set vs A = card (A \<inter> {1, 2, 3, 4})"
    and fresh: "fresh fuzz_parent fuzz_num r"
  shows "\<exists>f. r_finalized r = Some (f, fuzz_num f) \<and> descends fuzz_parent t f" "r_completable r"
proof -
  note vs = reachable_round [OF fuzz.chain_axioms r]
  note sup = example_support [OF v vs(2) w(3)]
  obtain V where core: "core_ok fuzz_parent fuzz_num r V" by (rule reachable_core [OF fuzz.chain_axioms r])
  have gh: "ghost_ok fuzz_parent fuzz_num r" using vs(1) by (simp add: round_ok_def)
  have upd: "updated fuzz_parent fuzz_num r" using fresh by (simp add: fresh_def sup(2) vs(2) w)
  have eq: "weight_of_set (voters r) (equivs r p) \<le> faulty (voters r)" for p by (simp add: sup(2))
  have q: "quorum r \<le> support fuzz_parent r p t" for p by (simp add: sup(1) vs(2) w(1))
  show "\<exists>f. r_finalized r = Some (f, fuzz_num f) \<and> descends fuzz_parent t f"
    using chain.updated_finalizes [OF fuzz.chain_axioms core gh upd eq _ q] d vs(3) by simp
  have "quorum r \<le> support fuzz_parent r Prevote (base r)" using d by (simp add: sup(1) vs w(1))
  then obtain g where g: "r_prevote_ghost r = Some (g, fuzz_num g)" "ghost_is fuzz_parent fuzz_num r Prevote (g, fuzz_num g)"
    using gh by (auto simp: ghost_ok_def ghost_is_def split: option.splits)
  have gt: "descends fuzz_parent t g" by (rule ghost_above_quorum [OF core eq g(2) q])
  moreover have "descends fuzz_parent g t" using g(2) by (auto simp: ghost_is_def sup(1) vs(2) w(1) split: if_splits)
  ultimately have geq: "g = t" using fuzz.descends_antisym by blast
  have cur: "vw (current r Precommit) = 3"
    using phase_current [OF core_phase [OF core], of Precommit] v [of Precommit]
    by (simp add: vs(2) w(3) dom_example_view)
  have tot: "rw (vs_total_weight vs) = 4" using threshold_faulty [OF vs(4)] w by simp
  have cc: "could_commit fuzz_parent r c \<longleftrightarrow> descends fuzz_parent c t" for c
    by (simp add: could_commit_def sup cur vs(2) w tot)
  have "\<not> descends fuzz_parent c t" if "descends fuzz_parent t c" "c \<noteq> t" for c
    using that fuzz.descends_antisym by blast
  moreover have h: "highest fuzz_parent fuzz_num r t (could_commit fuzz_parent r) (r_estimate r)"
      "r_completable r = (case r_estimate r of None \<Rightarrow> False
        | Some (b, _) \<Rightarrow> b \<noteq> t \<or> (\<forall>c. descends fuzz_parent t c \<longrightarrow> t \<noteq> c \<longrightarrow> \<not> could_commit fuzz_parent r c))"
    using upd g(1) cur eq [of Precommit] by (simp_all add: updated_def vs(2) w(1) geq)
  moreover have "r_estimate r \<noteq> None"
    using h(1) d cc [of t] vs(3) by (auto simp: highest_def split: option.splits)
  ultimately show "r_completable r" using cc by auto
qed

end
