(* ===== verification/Round_Properties.thy ===== *)
theory Round_Properties
  imports Round_Example
begin

text \<open>
  The properties of a round, for every round reachable from \<^verbatim>\<open>Round::new\<close> by the operations of the source over a
  chain that keeps its contract, each applied to the round of the example.
\<close>

text \<open>Facts of the example round, as the witnesses use them.\<close>

definition example_ok :: "fhash \<Rightarrow> nat voter_set \<Rightarrow> (nat, fhash, unit) round \<Rightarrow> bool" where
  "example_ok t vs r \<longleftrightarrow> voter_set_new four_voters = Some (Some vs) \<and> reachable fuzz_ancestry fuzz_num vs 0 r \<and> r_completable r \<and> rw (vs_threshold vs) = 3 \<and> faulty vs = 1 \<and>
     voter_ids vs = {1, 2, 3, 4} \<and> (\<forall>p. equivs r p = {}) \<and> (\<forall>p. support fuzz_parent r p t = 3) \<and>
     (\<forall>p. view r p = example_view t) \<and> (\<exists>f. r_finalized r = Some (f, fuzz_num f) \<and> descends fuzz_parent t f)"

lemma example_okD:
  assumes "example_ok t vs r"
  shows "reachable fuzz_ancestry fuzz_num vs 0 r" "r_completable r" "rw (vs_threshold vs) = 3" "faulty vs = 1"
    "voter_ids vs = {1, 2, 3, 4}" "equivs r p = {}" "support fuzz_parent r p t = 3" "view r p = example_view t"
    "\<exists>f. r_finalized r = Some (f, fuzz_num f) \<and> descends fuzz_parent t f" "voter_set_new four_voters = Some (Some vs)"
  using assms by (simp_all add: example_ok_def)

lemma example_round:
  assumes d: "descends fuzz_parent 0 t"
  shows "\<exists>vs r. example_ok t vs r"
proof -
  obtain vs and r r' :: "(nat, fhash, unit) round" where e: "voter_set_new four_voters = Some (Some vs)"
    "reachable fuzz_ancestry fuzz_num vs 0 r" "round_steps fuzz_ancestry fuzz_num r r'"
    "view r Prevote = example_view t" "view r Precommit = Map.empty" "\<And>p. view r' p = example_view t"
    "fresh fuzz_parent fuzz_num r" "fresh fuzz_parent fuzz_num r'"
    "rw (vs_threshold vs) = 3" "faulty vs = 1" "voter_ids vs = {1, 2, 3, 4}" "\<And>A. weight_of_set vs A = card (A \<inter> {1, 2, 3, 4})"
    by (rule example_rounds [OF d]) (rule that)
  have r': "reachable fuzz_ancestry fuzz_num vs 0 r'" by (rule reachable_steps [OF e(3,2)])
  note sup = example_support [OF e(6) reachable_round(2) [OF fuzz.chain_axioms r'] e(12)]
  have "example_ok t vs r'"
    using e(1) r' example_state [OF d r' e(6,9,10,12,8)] e(9-11) by (simp add: example_ok_def sup e(6))
  then show ?thesis by blast
qed

text \<open>C1. Estimate safety. Once a round is completable, no block gets both a quorum of prevotes and a quorum of
  precommits later in that round unless it is the estimate the round had or one of its ancestors, whatever votes are still
  imported, as long as no more than the tolerated weight equivocates. This is what lets the next round build
  on the estimate.\<close>

theorem round_estimate_safe:
  assumes "chain ancestry parent number" and "reachable ancestry number vs b r"
    and "r_completable r" and "round_steps ancestry number r r'"
    and "\<And>p. weight_of_set vs (equivs r' p) \<le> faulty vs"
    and "\<And>p. rw (vs_threshold vs) \<le> support parent r' p f"
  shows "\<exists>e. r_estimate r = Some (e, number e) \<and> descends parent f e"
proof -
  note ok = reachable_round [OF assms(1,2)]
  show ?thesis
    using chain.completable_safe [OF assms(1) ok(1) assms(4,3)] assms(5,6) by (simp add: ok(2))
qed

theorem round_estimate_safe_witness:
  "\<exists>vs (r :: (nat, fhash, unit) round) e. reachable fuzz_ancestry fuzz_num vs 0 r \<and> r_completable r \<and>
     r_estimate r = Some (e, fuzz_num e) \<and> descends fuzz_parent 4 e"
proof -
  obtain vs r where r: "example_ok 4 vs r" using example_round [OF fuzz_base_above, of 4] by auto
  note e = example_okD [OF r]
  have "\<exists>e. r_estimate r = Some (e, fuzz_num e) \<and> descends fuzz_parent 4 e"
    by (rule round_estimate_safe [OF fuzz.chain_axioms e(1,2) rtranclp.rtrancl_refl]) (simp_all add: e)
  then show ?thesis using e(1,2) by blast
qed

text \<open>C2. Agreement, accountably. If two views of the same round, for example those of two voters, finalize blocks on different
  chains, then voters of more than the tolerated weight have signed two different precommits in that round: they
  equivocate within one of the views, or their precommits in the two views differ. In neither view do more than the tolerated
  weight equivocate in prevotes.\<close>

theorem round_accountable_safety:
  assumes "chain ancestry parent number"
    and "reachable ancestry number vs b r" and "reachable ancestry number vs b r'"
    and "weight_of_set vs (equivs r Prevote) \<le> faulty vs" and "weight_of_set vs (equivs r' Prevote) \<le> faulty vs"
    and "r_finalized r = Some (f, n)" and "r_finalized r' = Some (f', n')"
    and "\<not> is_equal_or_descendent_of ancestry f f'" and "\<not> is_equal_or_descendent_of ancestry f' f"
  shows "faulty vs < weight_of_set vs {vid. vid \<in> equivs r Precommit \<or> vid \<in> equivs r' Precommit \<or>
    (\<exists>t t'. view r Precommit vid = Some (t, False) \<and> view r' Precommit vid = Some (t', False) \<and> t \<noteq> t')}"
    (is "_ < weight_of_set vs ?D")
proof -
  note ok = reachable_round [OF assms(1,2)] and ok' = reachable_round [OF assms(1,3)]
  note desc = chain.is_equal_or_descendent_of_iff [OF assms(1)]
  have "rw (vs_threshold vs) \<le> support parent r Precommit f"
    using chain.round_finalized [OF assms(1) ok(1) _ assms(6)] assms(4) by (simp add: ok(2))
  moreover have "rw (vs_threshold vs) \<le> support parent r' Precommit f'"
    using chain.round_finalized [OF assms(1) ok'(1) _ assms(7)] assms(5) by (simp add: ok'(2))
  ultimately have "faulty vs < weight_of_set vs (supporters parent r Precommit f \<inter> supporters parent r' Precommit f')"
    by (intro threshold_intersection [OF ok(4)]) (simp_all add: support_def ok(2) ok'(2))
  also have "\<dots> \<le> weight_of_set vs ?D"
  proof (rule weight_of_set_mono, rule subsetI)
    fix vid assume vid: "vid \<in> supporters parent r Precommit f \<inter> supporters parent r' Precommit f'"
    then obtain t e t' e' where t: "view r Precommit vid = Some (t, e)" "e \<or> descends parent f t"
        "view r' Precommit vid = Some (t', e')" "e' \<or> descends parent f' t'"
      by (auto simp: supporters_def)
    show "vid \<in> ?D"
    proof (cases "e \<or> e'")
      case False
      then have "t \<noteq> t'" using t descends_linear [of parent f t f'] assms(8,9) desc by auto
      then show ?thesis using t False by auto
    qed (use t in \<open>auto simp: equivs_def\<close>)
  qed
  finally show ?thesis .
qed

theorem round_accountable_safety_witness:
  "\<exists>vs (r :: (nat, fhash, unit) round) (r' :: (nat, fhash, unit) round). reachable fuzz_ancestry fuzz_num vs 0 r \<and> reachable fuzz_ancestry fuzz_num vs 0 r' \<and>
     faulty vs < weight_of_set vs {vid. vid \<in> equivs r Precommit \<or> vid \<in> equivs r' Precommit \<or>
       (\<exists>t t'. view r Precommit vid = Some (t, False) \<and> view r' Precommit vid = Some (t', False) \<and> t \<noteq> t')}"
proof -
  obtain vs r where r: "example_ok 10 vs r" using example_round [OF fuzz_base_above, of 10] by auto
  obtain vs' r' where r': "example_ok 13 vs' r'" using example_round [OF fuzz_base_above, of 13] by auto
  note e = example_okD [OF r] and e' = example_okD [OF r']
  have vs: "vs' = vs" using e(10) e'(10) by simp
  obtain f f' where f: "r_finalized r = Some (f, fuzz_num f)" "descends fuzz_parent 10 f"
      "r_finalized r' = Some (f', fuzz_num f')" "descends fuzz_parent 13 f'" using e(9) e'(9) by blast
  have "f = 10" "f' = 13" using fuzz_descends_good [OF f(2)] fuzz_descends_good [OF f(4)] by (auto simp: fuzz_good_descendent_def)
  then have "\<not> is_equal_or_descendent_of fuzz_ancestry f f'" "\<not> is_equal_or_descendent_of fuzz_ancestry f' f"
    by (simp_all add: is_equal_or_descendent_of_def fuzz_ancestry_def fuzz_good_descendent_def)
  then have "faulty vs < weight_of_set vs {vid. vid \<in> equivs r Precommit \<or> vid \<in> equivs r' Precommit \<or>
      (\<exists>t t'. view r Precommit vid = Some (t, False) \<and> view r' Precommit vid = Some (t', False) \<and> t \<noteq> t')}"
    by (intro round_accountable_safety [OF fuzz.chain_axioms e(1) e'(1) [unfolded vs] _ _ f(1,3)]) (simp_all add: e(6) e'(6))
  then show ?thesis using e(1) e'(1) [unfolded vs] by blast
qed

text \<open>C13. What a round has finalized has a quorum of prevotes and a quorum of precommits, and it stays finalized: whatever is
  done to the round later, as long as no more than the tolerated weight has equivocated in either phase by then, what is
  then finalized is that block or a descendent of it. With more equivocators than that nothing is claimed.\<close>

theorem round_finalized_stable:
  assumes "chain ancestry parent number" and "reachable ancestry number vs b r" and "round_steps ancestry number r r'"
    and "\<And>p. weight_of_set vs (equivs r' p) \<le> faulty vs" and "r_finalized r = Some (f, n)"
  shows "n = number f \<and> descends parent b f \<and> (\<forall>p. rw (vs_threshold vs) \<le> support parent r p f) \<and>
    (\<exists>f'. r_finalized r' = Some (f', number f') \<and> descends parent f f')"
proof -
  note ok = reachable_round [OF assms(1,2)]
  have ex: "extends r r'" using chain.round_steps_ok [OF assms(1,3) ok(1)] by simp
  have vs': "voters r' = vs" using extendsD(1) [OF ex] ok(2) by simp
  have "weight_of_set (voters r) (equivs r Prevote) \<le> faulty (voters r)"
    using extends_equiv_weight [OF ex, of Prevote] assms(4) [of Prevote] by (simp add: ok(2) vs')
  then show ?thesis
    using chain.round_finalized [OF assms(1) ok(1) _ assms(5)] chain.finalized_steps [OF assms(1,3) ok(1) _ assms(5)] assms(4)
    by (simp add: ok(2,3) vs')
qed

theorem round_finalized_stable_witness:
  "\<exists>vs (r :: (nat, fhash, unit) round) f. reachable fuzz_ancestry fuzz_num vs 0 r \<and> r_finalized r = Some (f, fuzz_num f) \<and>
     (\<forall>p. rw (vs_threshold vs) \<le> support fuzz_parent r p f)"
proof -
  obtain vs r where r: "example_ok 4 vs r" using example_round [OF fuzz_base_above, of 4] by auto
  note e = example_okD [OF r]
  obtain f where f: "r_finalized r = Some (f, fuzz_num f)" using e(9) by blast
  have "\<forall>p. rw (vs_threshold vs) \<le> support fuzz_parent r p f"
    using round_finalized_stable [OF fuzz.chain_axioms e(1) rtranclp.rtrancl_refl _ f] by (simp add: e(6))
  then show ?thesis using e(1) f by blast
qed



text \<open>C15. The same for precommits, with the same six outcomes: a precommit for a voter seen before is a duplicate, an equivocation or
  one vote too many, according to what the tracker holds.\<close>

theorem round_import_precommit:
  assumes "chain ancestry parent number" and "reachable ancestry number vs b r" and "pc_target_number x = number (pc_target_hash x)"
  shows "\<exists>r' res. import_precommit ancestry r x vid s = Some (r', res) \<and>
    imported_precommit parent number r vid x s r' res"
  using chain.import_precommit_imported [OF assms(1) reachable_round(1) [OF assms(1,2)] assms(3)] by blast

theorem round_import_precommit_witness:
  "\<exists>(r :: (nat, fhash, unit) round) r'.
     import_precommit fuzz_ancestry r \<lparr>pc_target_hash = 5, pc_target_number = fuzz_num 5\<rparr> 4 ()
       = Some (r', Inr (import_result_default\<lparr>ir_valid_voter := True, ir_equivocation := None\<rparr>)) \<and>
     view r Precommit 4 = None \<and> view r' Precommit 4 = Some (5, False)"
proof -
  obtain vs r where r: "example_ok 4 vs r" using example_round [OF fuzz_base_above, of 4] by auto
  note e = example_okD [OF r] and ok = reachable_round [OF fuzz.chain_axioms example_okD(1) [OF r]]
  let ?x = "\<lparr>pc_target_hash = 5, pc_target_number = fuzz_num 5\<rparr>"
  obtain r' res where imp: "import_precommit fuzz_ancestry r ?x 4 () = Some (r', res)"
      "imported_precommit fuzz_parent fuzz_num r 4 ?x () r' res"
    using round_import_precommit [OF fuzz.chain_axioms e(1), of ?x 4 "()"] by auto
  have new: "view r Precommit 4 = None" by (simp add: e(8) example_view_def)
  from imp(2) show ?thesis
  proof cases
    case not_voter
    then show ?thesis using e(5) by (simp add: ok(2))
  next
    case (refused v)
    then show ?thesis using fuzz_base_above [of 5] by (simp add: ok(3))
  next
    case (counted v)
    then have "view r' Precommit 4 = Some (5, False)" using rec_view [OF counted(3), of Precommit] by simp
    then show ?thesis using imp(1) counted(1) new by auto
  next
    case (equivocation v y u)
    then show ?thesis using new by (simp add: view_simps tracker_view_def)
  qed (use new in simp_all)
qed

text \<open>C16. The prevote-GHOST. A round has none exactly as long as its base has no quorum of prevotes. Otherwise it is a block
  above the base with a quorum of prevotes, with its number, and no block above it has a quorum, unless the equivocators
  alone are a quorum. Calling \<^verbatim>\<open>precommit_ghost\<close> returns the same for precommits, and \<^verbatim>\<open>None\<close> while there is no quorum
  of precommits.\<close>

theorem round_ghosts:
  assumes "chain ancestry parent number" and "reachable ancestry number vs b r"
  shows "(case r_prevote_ghost r of
      None \<Rightarrow> support parent r Prevote b < rw (vs_threshold vs)
    | Some gn \<Rightarrow> ghost_is parent number r Prevote gn) \<and>
    (\<exists>r' x. precommit_ghost r = Some (r', x) \<and> round_state r' = round_state r \<and>
      (if vw (fst (precommit_participation r)) < rw (vs_threshold vs) then x = None
       else case x of
         None \<Rightarrow> support parent r Precommit b < rw (vs_threshold vs)
       | Some gn \<Rightarrow> ghost_is parent number r Precommit gn))"
proof -
  note ok = reachable_round [OF assms]
  have gh: "ghost_ok parent number r" using ok(1) by (simp add: round_ok_def)
  have part: "fst (precommit_participation r) = current r Precommit"
    by (simp add: precommit_participation_def participation_def current_def)
  show ?thesis
    using gh chain.precommit_ghost_ok [OF assms(1) ok(1)] unfolding ghost_ok_def part ok(2,3) by blast
qed

theorem round_ghosts_witness:
  "\<exists>(r :: (nat, fhash, unit) round) r' gn. precommit_ghost r = Some (r', Some gn) \<and> ghost_is fuzz_parent fuzz_num r Precommit gn"
proof -
  obtain vs r where r: "example_ok 4 vs r" using example_round [OF fuzz_base_above, of 4] by auto
  note e = example_okD [OF r]
  obtain V where core: "core_ok fuzz_parent fuzz_num r V" by (rule reachable_core [OF fuzz.chain_axioms e(1)])
  have q: "rw (vs_threshold vs) \<le> support fuzz_parent r Precommit 0"
    using support_mono [OF fuzz_base_above [of 4], of r Precommit] e(7) [of Precommit] e(3) by simp
  then have "\<not> vw (fst (precommit_participation r)) < rw (vs_threshold vs)"
    using support_le_current [OF core, of Precommit 0]
    by (simp add: precommit_participation_def participation_def current_def)
  then obtain r' x where x: "precommit_ghost r = Some (r', x)"
      "case x of None \<Rightarrow> support fuzz_parent r Precommit 0 < rw (vs_threshold vs) | Some gn \<Rightarrow> ghost_is fuzz_parent fuzz_num r Precommit gn"
    using round_ghosts [OF fuzz.chain_axioms e(1)] by auto
  obtain gn where "x = Some gn" using x(2) q by (cases x) simp_all
  then show ?thesis using x by (intro exI [of _ r] exI [of _ r'] exI [of _ gn]) simp
qed

text \<open>C17. Progress. Take an import of a prevote or a precommit that succeeds and that the tracker takes in, a first vote
  or an equivocation. If afterwards no more than the tolerated weight has equivocated in either phase and a block above
  the base has a quorum of prevotes and of precommits, the round has finalized that block or a descendent of it.\<close>

theorem round_finalizes:
  assumes "chain ancestry parent number" and "reachable ancestry number vs b r"
    and "import_prevote ancestry r x vid s = Some (r', Inr res) \<and> pv_target_number x = number (pv_target_hash x) \<and>
        r_prevote r' \<noteq> r_prevote r \<or>
      import_precommit ancestry r y vid s = Some (r', Inr res') \<and> pc_target_number y = number (pc_target_hash y) \<and>
        r_precommit r' \<noteq> r_precommit r"
    and "\<And>p. weight_of_set vs (equivs r' p) \<le> faulty vs"
    and "is_equal_or_descendent_of ancestry b c" and "\<And>p. rw (vs_threshold vs) \<le> support parent r' p c"
  shows "\<exists>f. r_finalized r' = Some (f, number f) \<and> descends parent c f"
proof -
  note ok = reachable_round [OF assms(1,2)]
  have "round_ok parent number r' \<and> fresh parent number r' \<and> extends r r'"
    using assms(3)
  proof (elim disjE conjE)
    assume i: "import_prevote ancestry r x vid s = Some (r', Inr res)" "pv_target_number x = number (pv_target_hash x)"
      "r_prevote r' \<noteq> r_prevote r"
    have imp: "round_ok parent number r'" "imported_prevote parent number r vid x s r' (Inr res)"
      using chain.import_prevote_imported [OF assms(1) ok(1) i(2), of vid s] i(1) by auto
    show ?thesis using imp(1) imported_changed [OF imp(2) i(3)] imported_extends [OF imp(2)] by simp
  next
    assume i: "import_precommit ancestry r y vid s = Some (r', Inr res')" "pc_target_number y = number (pc_target_hash y)"
      "r_precommit r' \<noteq> r_precommit r"
    have imp: "round_ok parent number r'" "imported_precommit parent number r vid y s r' (Inr res')"
      using chain.import_precommit_imported [OF assms(1) ok(1) i(2), of vid s] i(1) by auto
    show ?thesis using imp(1) imported_changed [OF imp(2) i(3)] imported_extends [OF imp(2)] by simp
  qed
  then have r': "round_ok parent number r'" "fresh parent number r'" "voters r' = vs" "base r' = b"
    using extendsD ok(2,3) by fastforce+
  have "weight_of_set vs (equivs r' Prevote) < rw (vs_threshold vs)"
    using assms(4) [of Prevote] faulty_less_threshold [OF ok(4)] by linarith
  then have upd: "updated parent number r'" using r'(2,3) by (simp add: fresh_def)
  obtain V where "core_ok parent number r' V" "ghost_ok parent number r'" by (rule round_okE [OF r'(1)])
  then show ?thesis
    using chain.updated_finalizes [OF assms(1) _ _ upd] assms(4-6) chain.is_equal_or_descendent_of_iff [OF assms(1)]
    by (simp add: r'(3,4))
qed

theorem round_finalizes_witness:
  "\<exists>(r :: (nat, fhash, unit) round) r' res f.
     import_precommit fuzz_ancestry r \<lparr>pc_target_hash = 4, pc_target_number = fuzz_num 4\<rparr> 4 () = Some (r', Inr res) \<and>
     r_finalized r' = Some (f, fuzz_num f) \<and> descends fuzz_parent 4 f"
proof -
  obtain vs r where r: "example_ok 4 vs r" using example_round [OF fuzz_base_above, of 4] by auto
  note e = example_okD [OF r] and ok = reachable_round [OF fuzz.chain_axioms example_okD(1) [OF r]]
  let ?x = "\<lparr>pc_target_hash = 4, pc_target_number = fuzz_num 4\<rparr>"
  obtain r' res where imp: "import_precommit fuzz_ancestry r ?x 4 () = Some (r', res)"
      "imported_precommit fuzz_parent fuzz_num r 4 ?x () r' res"
    using chain.import_precommit_imported [OF fuzz.chain_axioms ok(1), of ?x 4 "()"] by auto
  have new: "view r Precommit 4 = None" by (simp add: e(8) example_view_def)
  obtain v ir where v: "recorded fuzz_parent r Precommit 4 v 4 False r'" "res = Inr ir"
    using imp(2) new e(5) fuzz_base_above [of 4] by (cases rule: imported.cases) (auto simp: ok(2,3) recorded_def)
  have "view r' Precommit 4 \<noteq> view r Precommit 4" using rec_view [OF v(1), of Precommit] new by simp
  then have con: "r_precommit r' \<noteq> r_precommit r" by (auto simp: view_simps)
  have base: "is_equal_or_descendent_of fuzz_ancestry 0 4"
    using fuzz.is_equal_or_descendent_of_iff fuzz_base_above [of 4] by simp
  have sup: "rw (vs_threshold vs) \<le> support fuzz_parent r' p 4" for p
    using extends_support [OF recorded_extends [OF v(1)], of fuzz_parent p 4] by (simp add: e(3,7))
  have eq: "weight_of_set vs (equivs r' p) \<le> faulty vs" for p by (simp add: recorded_equivs [OF v(1)] e(6))
  have "\<exists>f. r_finalized r' = Some (f, fuzz_num f) \<and> descends fuzz_parent 4 f"
    by (rule round_finalizes [OF fuzz.chain_axioms e(1) _ eq base sup, where y = ?x and vid = 4 and s = "()" and res' = ir])
       (use imp(1) con v(2) in simp)
  then show ?thesis using imp(1) v(2) by blast
qed

text \<open>C18. The justification of the finalized block: \<^verbatim>\<open>finalizing_precommits\<close> yields exactly the precommits the round holds of voters
  whose precommit is for the block or above it and both precommits of every equivocator, and these voters are a
  quorum, as long as no more than the tolerated weight has equivocated in prevotes.\<close>

theorem round_finalizing_precommits:
  assumes "chain ancestry parent number" and "reachable ancestry number vs b r"
    and "weight_of_set vs (equivs r Prevote) \<le> faulty vs" and "r_finalized r = Some (f, n)"
  shows "\<exists>pcs. finalizing_precommits ancestry r = Some pcs \<and>
    (\<forall>x s vid. \<lparr>sc_precommit = x, sc_signature = s, sc_id = vid\<rparr> \<in> set pcs \<longleftrightarrow>
       vid \<in> supporters parent r Precommit f \<and> holds (r_precommit r) vid x s) \<and>
    rw (vs_threshold vs) \<le> weight_of_set vs (sc_id ` set pcs)"
proof -
  note ok = reachable_round [OF assms(1,2)]
  have "rw (vs_threshold vs) \<le> weight_of_set vs (supporters parent r Precommit f)"
    using chain.round_finalized [OF assms(1) ok(1) _ assms(4)] assms(3) by (simp add: ok(2) support_def)
  then show ?thesis
    using chain.finalizing_precommits_set [OF assms(1) reachable_trackers [OF assms(2)] assms(4)] by auto
qed

theorem round_finalizing_precommits_witness:
  "\<exists>vs (r :: (nat, fhash, unit) round) pcs. reachable fuzz_ancestry fuzz_num vs 0 r \<and> finalizing_precommits fuzz_ancestry r = Some pcs \<and>
     rw (vs_threshold vs) = 3 \<and> 3 \<le> weight_of_set vs (sc_id ` set pcs)"
proof -
  obtain vs r where r: "example_ok 4 vs r" using example_round [OF fuzz_base_above, of 4] by auto
  note e = example_okD [OF r]
  obtain f where f: "r_finalized r = Some (f, fuzz_num f)" using e(9) by blast
  have "\<exists>pcs. finalizing_precommits fuzz_ancestry r = Some pcs \<and> rw (vs_threshold vs) \<le> weight_of_set vs (sc_id ` set pcs)"
    using round_finalizing_precommits [OF fuzz.chain_axioms e(1) _ f] by (auto simp: e(6))
  then show ?thesis using e(1,3) by auto
qed

text \<open>C19. The invariant of the weights. In every reachable round the participation is the number and the exact total weight
  of the voters seen in the phase, never saturated and at most the total weight, and the weight the round
  computes for a block of its graph is that of the voters whose vote is for the block or above it and of all
  equivocators.\<close>

theorem round_weights:
  assumes "chain ancestry parent number" and "reachable ancestry number vs b r"
  shows "vw (fst (prevote_participation r)) = weight_of_set vs (dom (view r Prevote)) \<and>
    snd (prevote_participation r) = card (dom (view r Prevote)) \<and>
    vw (fst (precommit_participation r)) = weight_of_set vs (dom (view r Precommit)) \<and>
    snd (precommit_participation r) = card (dom (view r Precommit)) \<and>
    (\<forall>p. weight_of_set vs (dom (view r p)) \<le> rw (vs_total_weight vs)) \<and>
    (\<forall>p h e. bt_get (g_entries (r_graph r)) h = Some e \<longrightarrow>
       vw (context_weight (r_context r) (e_cumulative_vote e) p) = support parent r p h)"
proof -
  note ok = reachable_round [OF assms]
  obtain V where core: "core_ok parent number r V" by (rule reachable_core [OF assms])
  note part = participation_exact [OF core reachable_trackers [OF assms(2)]]
  have "vw (context_weight (r_context r) (e_cumulative_vote e) p) = support parent r p h"
    if "node (r_graph r) h = Some e" for p h e
  proof -
    have "descends parent (base r) h" using chain.base_below [OF assms(1) core_graph [OF core]] bt_get_keys [OF that] by blast
    moreover have "e_cumulative_vote e = tally parent V h" using core_votes [OF core] that by (simp add: votes_ok_def)
    ultimately show ?thesis using weight_tally [OF core] by simp
  qed
  then show ?thesis using part weight_of_set_le_total [OF ok(4)] by (simp add: ok(2))
qed

theorem round_weights_witness:
  "\<exists>vs (r :: (nat, fhash, unit) round). reachable fuzz_ancestry fuzz_num vs 0 r \<and> vw (fst (precommit_participation r)) = 3 \<and>
     snd (precommit_participation r) = 3"
proof -
  obtain vs and r r' :: "(nat, fhash, unit) round" where e: "reachable fuzz_ancestry fuzz_num vs 0 r" "round_steps fuzz_ancestry fuzz_num r r'"
    "view r' Precommit = example_view 4" "weight_of_set vs {1, 2, 3} = 3"
    by (rule example_rounds [OF fuzz_base_above, of 4]) auto
  have r': "reachable fuzz_ancestry fuzz_num vs 0 r'" by (rule reachable_steps [OF e(2,1)])
  show ?thesis
    using round_weights [OF fuzz.chain_axioms r'] r' e(3,4) by (intro exI [of _ vs] exI [of _ r']) (simp add: dom_example_view)
qed

end
