(* ===== verification/Voting_Properties.thy ===== *)
theory Voting_Properties
  imports Voting_Poll Round_Properties
begin

text \<open>
  The properties of the round of a voter, each applied to a concrete environment on the block tree of the fuzzing harness.
\<close>

section \<open>A concrete environment\<close>

text \<open>All timers have fired, the best chain containing a block is the block, the stream is a list that gives only
  messages on known blocks, every sink and call succeeds.\<close>

fun list_poll_next ::
  "(fhash, unit, nat) signed_message list \<Rightarrow> (fhash, unit, nat) signed_message list \<times> ('e + (fhash, unit, nat) signed_message) option poll" where
  "list_poll_next [] = ([], Pending)"
| "list_poll_next (x # xs) = (xs, if vote_ok fuzz_num x then Ready (Some (Inr x)) else Pending)"

type_synonym example_environment =
  "(fhash, unit, nat, unit, unit, fhash, (fhash, unit, nat) signed_message list, fhash message list) environment"

definition list_sink :: "('a list, 'a, 'e) sink" where
  "list_sink = \<lparr>sk_poll_ready = (\<lambda>x. (x, Ready (Inr ()))), sk_start_send = (\<lambda>x item. (x @ [item], Inr ())),
     sk_poll_flush = (\<lambda>x. (x, Ready (Inr ())))\<rparr>"

definition example_env :: "(fhash, unit, nat) signed_message list \<Rightarrow> example_environment" where
  "example_env msgs = \<lparr>env_ancestry = fuzz_ancestry, env_from_error = (\<lambda>_. ()),
     env_round_data = (\<lambda>_. \<lparr>rd_voter_id = Some 1, rd_prevote_timer = (), rd_precommit_timer = (), rd_incoming = msgs, rd_outgoing = []\<rparr>),
     env_round_commit_timer = (), env_timer = (\<lambda>_. Ready (Inr ())), env_best_chain_containing = (\<lambda>h. h),
     env_best_chain = (\<lambda>h. Ready (Inr (Some (h, fuzz_num h)))), env_poll_next = list_poll_next, env_sink = list_sink,
     env_proposed = (\<lambda>_ _. Inr ()), env_prevoted = (\<lambda>_ _. Inr ()), env_precommitted = (\<lambda>_ _. Inr ()),
     env_completed = (\<lambda>_ _ _ _. Inr ()), env_concluded = (\<lambda>_ _ _ _. Inr ()), env_finalize_block = (\<lambda>_ _ _ _. Inr ())\<rparr>"

lemma example_env_simps [simp]:
  "env_ancestry (example_env msgs) = fuzz_ancestry" "env_timer (example_env msgs) t = Ready (Inr ())"
  "env_best_chain (example_env msgs) h = Ready (Inr (Some (h, fuzz_num h)))" "env_poll_next (example_env msgs) = list_poll_next"
  "env_sink (example_env msgs) = list_sink" "env_best_chain_containing (example_env msgs) h = h"
  "env_prevoted (example_env msgs) n p = Inr ()" "env_precommitted (example_env msgs) n q = Inr ()" "env_proposed (example_env msgs) n x = Inr ()"
  "env_finalize_block (example_env msgs) h m n c = Inr ()" "env_completed (example_env msgs) n st b v = Inr ()"
  "env_concluded (example_env msgs) n st b v = Inr ()" "env_round_commit_timer (example_env msgs) = ()"
  "env_round_data (example_env msgs) n = \<lparr>rd_voter_id = Some 1, rd_prevote_timer = (), rd_precommit_timer = (), rd_incoming = msgs, rd_outgoing = []\<rparr>"
  by (simp_all add: example_env_def)

lemma runs_dry_list: "env_poll_next env = list_poll_next \<Longrightarrow> runs_dry env (Suc (length n)) n"
  by (induction n) auto

lemma list_poll_next_ok: "list_poll_next n = (n', Ready (Some (Inr m))) \<Longrightarrow> vote_ok fuzz_num m"
  by (cases n) (auto split: if_splits)

lemma example_env_votes_ok [simp]: "env_votes_ok fuzz_num (example_env msgs)"
  by (auto simp: env_votes_ok_def dest: list_poll_next_ok)

lemma example_env_dry: "\<forall>n. \<exists>k. runs_dry (example_env msgs) k n"
proof
  fix n
  show "\<exists>k. runs_dry (example_env msgs) k n" by (rule exI, rule runs_dry_list) simp
qed

text \<open>The last round is the genesis round at block 0.\<close>

definition genesis_shared :: "(fhash, unit, nat) shared" where
  "genesis_shared = \<lparr>sh_bridged = [state_genesis (0, fuzz_num 0)], sh_finalized = [], sh_calls = []\<rparr>"

definition example_vr ::
  "(nat, fhash, unit) round \<Rightarrow> (unit, fhash \<times> fhash) vr_state
     \<Rightarrow> (fhash, unit, nat, unit, fhash, (fhash, unit, nat) signed_message list, fhash message list) voting_round" where
  "example_vr r st = \<lparr>vr_voting = VotingYes, vr_votes = r, vr_incoming = [], vr_outgoing = buffered_new [], vr_state = Some st,
     vr_bridged_round_state = None, vr_last_round_state = Some (LatterView 0), vr_primary_block = None, vr_best_finalized = None\<rparr>"

lemma example_vr_simps [simp]:
  "vr_voting (example_vr r st) = VotingYes" "vr_votes (example_vr r st) = r" "vr_incoming (example_vr r st) = []"
  "vr_outgoing (example_vr r st) = buffered_new []" "vr_state (example_vr r st) = Some st"
  "vr_bridged_round_state (example_vr r st) = None" "vr_last_round_state (example_vr r st) = Some (LatterView 0)"
  "vr_primary_block (example_vr r st) = None" "vr_best_finalized (example_vr r st) = None"
  by (simp_all add: example_vr_def)

lemma idle_stream: "vr_incoming self = [] \<Longrightarrow> vr_process_incoming (example_env msgs) self sh = Some (self, sh, Inr ())"
  by (simp add: vr_process_incoming.simps)

lemma list_sink_schedule: "schedule_all list_sink inner buffer = (inner @ buffer, [], Ready (Inr ()))"
  by (induction buffer arbitrary: inner) (simp_all add: list_sink_def)

lemma list_sink_poll_flush [simp]: "sk_poll_flush list_sink x = (x, Ready (Inr ()))"
  by (simp add: list_sink_def)

lemma list_sink_flush: "buffered_poll list_sink bf = (\<lparr>bf_inner = bf_inner bf @ bf_buffer bf, bf_buffer = []\<rparr>, Inr (Ready ()))"
  by (simp add: buffered_poll_def list_sink_schedule)

lemma genesis_shared_simps [simp]:
  "sh_bridged genesis_shared = [state_genesis (0, fuzz_num 0)]" "sh_calls genesis_shared = []" "sh_finalized genesis_shared = []"
  by (simp_all add: genesis_shared_def)

section \<open>Voting\<close>

text \<open>C7. A voter never votes twice. Whatever the environment answers and whatever votes and commits arrive, the calls that a round makes from
  its creation on are: at most one hint as primary, then at most one prevote, then at most one precommit that follows a prevote, all with the number of the round, and
  reports of equivocations. A voter outside the set, and a round created as completed, casts nothing.\<close>

theorem voter_votes_once:
  assumes "voting_round_new env n vs b lv = Some self \<or> (self = voting_round_completed env r lv \<and> r_round_number r = n)"
    and "vr_run self envs cs self'"
  shows "\<exists>q. cast_run n NoVote cs = Some q \<and> (\<not> is_active (vr_voting self) \<longrightarrow> q = NoVote) \<and>
    length (filter is_prevoted_call cs) \<le> 1 \<and> length (filter is_precommitted_call cs) \<le> 1"
proof -
  have self: "cast_inv self NoVote" "r_round_number (vr_votes self) = n"
    using assms(1)
    by (auto simp: voting_round_new_def voting_round_completed_def Let_def bind_eq_Some_conv cast_inv_def round_new_def split: prod.splits)
  obtain q where q: "cast_run n NoVote cs = Some q" "\<not> is_active (vr_voting self) \<longrightarrow> q = NoVote"
    using vr_run_casts [OF assms(2) self(1)] self(2) by blast
  show ?thesis using q cast_run_counts [OF q(1)] by auto
qed

text \<open>A poll of a round whose stream is empty and whose sink works.\<close>

lemma example_poll:
  assumes inc: "vr_incoming self = []" and l: "vr_last_round_state self = Some (LatterView 0)"
    and cv: "cast_votes (example_env msgs) (Some (sh_bridged sh ! 0)) self sh = Some (self1, sh1, Inr ())" and inc1: "vr_incoming self1 = []"
    and nt: "notify (example_env msgs) (round_state (vr_votes self)) (round_state (vr_votes self1))
      (self1\<lparr>vr_outgoing := \<lparr>bf_inner = bf_inner (vr_outgoing self1) @ bf_buffer (vr_outgoing self1), bf_buffer = []\<rparr>\<rparr>) sh1
      = Some (self2, sh2)"
  shows "voting_round_poll (example_env msgs) self sh = Some (self2, sh2, Inr (if \<not> r_completable (vr_votes self2) then Pending
     else if \<not> last_round_estimate_finalized (Some (sh_bridged sh ! 0)) (r_finalized (vr_votes self2)) then Pending else Ready ()))"
proof -
  have lv: "last_view self sh = Some (sh_bridged sh ! 0)" by (simp add: l)
  show ?thesis
    unfolding voting_round_poll_def Let_def idle_stream [OF inc] and_then_simps lv cv
    by (simp add: list_sink_flush idle_stream inc1 nt)
qed

lemma example_start:
  assumes "vr_state self = Some (Start () ())" "is_active (vr_voting self)" "vr_primary_block self = None"
  shows "cast_votes (example_env msgs) (Some (state_genesis (0, fuzz_num 0))) self sh = Some (self\<lparr>vr_state := Some (Prevoting () (0, 0))\<rparr>, sh, Inr ())"
proof -
  have "vr_primary_propose (example_env msgs) (state_genesis (0, fuzz_num 0)) self sh = Some (self, sh, Inr ())"
    by (simp add: vr_primary_propose_def assms state_genesis_def split: bool.split)
  moreover have "vr_prevote (example_env msgs) (state_genesis (0, fuzz_num 0)) self sh
      = Some (self\<lparr>vr_state := Some (Prevoting () (0, 0))\<rparr>, sh, Inr ())"
    by (simp add: vr_prevote_def start_prevoting_def construct_prevote_def assms state_genesis_def)
  ultimately show ?thesis by (simp add: cast_votes_def vr_precommit_def)
qed

lemma example_prevote:
  assumes "vr_state self = Some (Prevoting () (0, 0))" "r_prevote_ghost (vr_votes self) = None"
  shows "cast_votes (example_env msgs) (Some (state_genesis (0, fuzz_num 0))) self sh =
    Some (self\<lparr>vr_votes := set_prevoted_index (vr_votes self),
        vr_outgoing := buffered_push (vr_outgoing self) (MPrevote (prevote_new 0 (fuzz_num 0))), vr_state := Some (Prevoted ())\<rparr>,
      call (CallPrevoted (r_round_number (vr_votes self)) (prevote_new 0 (fuzz_num 0))) sh, Inr ())"
proof -
  have "vr_primary_propose (example_env msgs) (state_genesis (0, fuzz_num 0)) self sh = Some (self, sh, Inr ())"
    by (simp add: vr_primary_propose_def assms)
  moreover have "r_prevote_ghost (set_prevoted_index (vr_votes self)) = None" by (simp add: set_prevoted_index_def assms(2))
  ultimately show ?thesis
    by (simp add: cast_votes_def vr_prevote_def finish_prevoting_def assms vr_precommit_def state_genesis_def round_state_def Let_def)
qed

theorem voter_votes_once_witness:
  "\<exists>vs self (envs :: example_environment list) self' q. voter_set_new four_voters = Some (Some vs) \<and>
     voting_round_new (example_env []) 1 vs (0, fuzz_num 0) (Some (LatterView 0)) = Some self \<and>
     vr_run self envs [CallPrevoted 1 (prevote_new 0 (fuzz_num 0))] self' \<and>
     cast_run 1 NoVote [CallPrevoted 1 (prevote_new 0 (fuzz_num 0)) :: (fhash, unit, nat) env_call] = Some q"
proof -
  obtain vs where vs: "voter_set_new four_voters = Some (Some vs)" "voter_ids vs = {1, 2, 3, 4}" using four_voters_set by blast
  note ok = voter_set_new_ok [OF vs(1)]
  let ?r = "round_new \<lparr>rp_round_number = 1, rp_voters = vs, rp_base = (0, fuzz_num 0)\<rparr> :: (nat, fhash, unit) round"
  note f = round_new_fields [OF HOL.refl, where n = 1 and vs = vs and b = 0 and m = "fuzz_num 0"]
  have n: "r_round_number ?r = 1" by (simp add: round_new_def)
  obtain x w where x: "primary_voter ?r = Some (x, w)" using primary_voter_total [of ?r] ok by (auto simp: f)
  obtain self where self: "voting_round_new (example_env []) 1 vs (0, fuzz_num 0) (Some (LatterView 0)) = Some self"
    by (simp add: voting_round_new_def x Let_def)
  have s: "vr_votes self = ?r" "vr_state self = Some (Start () ())" "vr_incoming self = []" "vr_primary_block self = None"
    "vr_last_round_state self = Some (LatterView 0)" "vr_bridged_round_state self = None" "is_active (vr_voting self)" "vr_best_finalized self = None"
    using self voter_set_contains_iff [OF ok, of 1] vs(2) by (auto simp: voting_round_new_def x Let_def f)
  let ?out = "\<lambda>self. self\<lparr>vr_outgoing := \<lparr>bf_inner = bf_inner (vr_outgoing self) @ bf_buffer (vr_outgoing self), bf_buffer = []\<rparr>\<rparr>"
  let ?self1 = "?out (self\<lparr>vr_state := Some (Prevoting () (0, 0))\<rparr>)"
  let ?c = "CallPrevoted 1 (prevote_new 0 (fuzz_num 0)) :: (fhash, unit, nat) env_call"
  have c: "cast_votes (example_env []) (Some (sh_bridged genesis_shared ! 0)) self genesis_shared =
      Some (self\<lparr>vr_state := Some (Prevoting () (0, 0))\<rparr>, genesis_shared, Inr ())"
    using example_start [OF s(2,7,4)] by simp
  have p1: "voting_round_poll (example_env []) self genesis_shared = Some (?self1, genesis_shared, Inr Pending)"
  proof -
    have "notify (example_env []) (round_state (vr_votes self)) (round_state (vr_votes (self\<lparr>vr_state := Some (Prevoting () (0, 0))\<rparr>)))
        ?self1 genesis_shared = Some (?self1, genesis_shared)" by (simp add: notify_def s)
    from example_poll [OF s(3,5) c _ this] show ?thesis by (simp add: s f)
  qed
  let ?v = "?self1\<lparr>vr_votes := set_prevoted_index ?r,
        vr_outgoing := buffered_push (vr_outgoing ?self1) (MPrevote (prevote_new 0 (fuzz_num 0))), vr_state := Some (Prevoted ())\<rparr>"
  have c2: "cast_votes (example_env []) (Some (sh_bridged genesis_shared ! 0)) ?self1 genesis_shared = Some (?v, call ?c genesis_shared, Inr ())"
    using example_prevote [of ?self1] by (simp add: s f n)
  have p2: "voting_round_poll (example_env []) ?self1 genesis_shared = Some (?out ?v, call ?c genesis_shared, Inr Pending)"
  proof -
    have "round_state (vr_votes ?v) = round_state (vr_votes ?self1)"
      by (simp add: s round_state_def set_prevoted_index_def)
    then have "notify (example_env []) (round_state (vr_votes ?self1)) (round_state (vr_votes ?v)) (?out ?v) (call ?c genesis_shared)
        = Some (?out ?v, call ?c genesis_shared)" unfolding notify_def by (simp add: s round_state_def f)
    from example_poll [OF _ _ c2 _ this] show ?thesis by (simp add: s f set_prevoted_index_def)
  qed
  have "vr_run self ([] @ [example_env []]) ([] @ []) ?self1"
    by (rule vr_run.step [OF vr_run.start vr_op.poll [OF p1]]) simp
  then have "vr_run self (([] @ [example_env []]) @ [example_env []]) (([] @ []) @ [?c]) (?out ?v)"
    by (rule vr_run.step [OF _ vr_op.poll [OF p2]]) simp
  then have run: "vr_run self [example_env [], example_env []] [?c] (?out ?v)" by simp
  obtain q where "cast_run 1 NoVote [?c] = Some q" using voter_votes_once [OF disjI1 [OF self] run] by blast
  then show ?thesis using run vs(1) self by blast
qed

text \<open>C8. A precommit is safe with respect to the last round. If a poll of a voter precommits, the block is the prevote-GHOST that the round
  had after the messages of this poll, with prevotes of at least the threshold for it or above it, and it is equal to or a
  descendent of the estimate of the last round.\<close>

theorem voter_precommits_above_estimate:
  assumes "chain (env_ancestry env) parent number" and "env_votes_ok number env"
    and "reachable (env_ancestry env) number vs b (vr_votes self)"
    and "voting_round_poll env self sh = Some (self', sh', res)" and "sh_calls sh' = sh_calls sh @ cs"
    and "CallPrecommitted m p \<in> set cs"
  shows "\<exists>s e r. last_view self sh = Some s \<and> st_estimate s = Some e \<and> descends parent (fst e) (pc_target_hash p) \<and>
    round_steps (env_ancestry env) number (vr_votes self) r \<and> r_prevote_ghost r = Some (pc_target_hash p, pc_target_number p) \<and>
    rw (vs_threshold vs) \<le> support parent r Prevote (pc_target_hash p)"
proof -
  obtain self1 sh1 s where p1: "vr_process_incoming env self sh = Some (self1, sh1, Inr ())" "last_view self sh = Some s"
      "precommits_well env s (vr_votes self1) p"
    using voting_round_poll_precommit [OF assms(4-6)] by (elim exE conjE) (rule that)
  then obtain e where e: "st_estimate s = Some e" "e = (pc_target_hash p, pc_target_number p) \<or>
      is_equal_or_descendent_of (env_ancestry env) (fst e) (pc_target_hash p)" by (auto simp: precommits_well_def)
  have g: "r_prevote_ghost (vr_votes self1) = Some (pc_target_hash p, pc_target_number p)" using p1(3) by (simp add: precommits_well_def)
  note st = vr_process_incoming_steps [OF p1(1) assms(2)]
  note ok = reachable_round [OF assms(1) reachable_steps [OF st assms(3)]]
  have "ghost_is parent number (vr_votes self1) Prevote (pc_target_hash p, pc_target_number p)"
    using ok(1) g by (simp add: round_ok_def ghost_ok_def)
  then have "rw (vs_threshold vs) \<le> support parent (vr_votes self1) Prevote (pc_target_hash p)" by (simp add: ghost_is_def ok(2))
  moreover have "descends parent (fst e) (pc_target_hash p)"
    using e(2) chain.is_equal_or_descendent_of_iff [OF assms(1)] by auto
  ultimately show ?thesis using p1(2) e(1) st g by blast
qed

lemma example_ghost:
  assumes r: "reachable fuzz_ancestry fuzz_num vs 0 r" and v: "view r Prevote = example_view t" and d: "descends fuzz_parent 0 t"
    and w: "rw (vs_threshold vs) = 3" "\<And>A. weight_of_set vs A = card (A \<inter> {1, 2, 3, 4})"
  shows "\<exists>g. r_prevote_ghost r = Some (g, fuzz_num g) \<and> descends fuzz_parent 0 g"
proof -
  note ok = reachable_round [OF fuzz.chain_axioms r]
  have "support fuzz_parent r Prevote 0 = 3" using example_support(1) [OF v ok(2) w(2)] d by simp
  then show ?thesis using ok(1) by (auto simp: round_ok_def ghost_ok_def ghost_is_def ok(2,3) w(1) split: option.splits)
qed

lemma example_precommit:
  assumes "vr_state self = Some (Prevoted ())" "is_active (vr_voting self)" "r_prevote_ghost (vr_votes self) = Some (g, fuzz_num g)"
    "descends fuzz_parent 0 g"
  shows "cast_votes (example_env msgs) (Some (state_genesis (0, fuzz_num 0))) self sh =
    Some (self\<lparr>vr_votes := set_precommitted_index (vr_votes self),
        vr_outgoing := buffered_push (vr_outgoing self) (MPrecommit (precommit_new g (fuzz_num g))), vr_state := Some Precommitted\<rparr>,
      call (CallPrecommitted (r_round_number (vr_votes self)) (precommit_new g (fuzz_num g))) sh, Inr ())"
proof -
  have "construct_precommit self = precommit_new g (fuzz_num g)" by (simp add: construct_precommit_def round_state_def assms(3))
  moreover have "is_equal_or_descendent_of fuzz_ancestry 0 g" using assms(4) fuzz.is_equal_or_descendent_of_iff by blast
  ultimately show ?thesis
    by (simp add: cast_votes_def vr_primary_propose_def vr_prevote_def vr_precommit_def assms round_state_def state_genesis_def Let_def)
qed

theorem voter_precommits_above_estimate_witness:
  "\<exists>vs (r :: (nat, fhash, unit) round) self' sh' res g. reachable fuzz_ancestry fuzz_num vs 0 r \<and>
     voting_round_poll (example_env []) (example_vr r (Prevoted ())) genesis_shared = Some (self', sh', res) \<and>
     sh_calls sh' = [CallPrecommitted (r_round_number r) (precommit_new g (fuzz_num g))] \<and>
     (\<exists>r'. round_steps fuzz_ancestry fuzz_num r r' \<and> 3 \<le> support fuzz_parent r' Prevote g)"
proof -
  obtain vs and r r' :: "(nat, fhash, unit) round" where e: "voter_set_new four_voters = Some (Some vs)"
    "reachable fuzz_ancestry fuzz_num vs 0 r" "view r Prevote = example_view 4" "rw (vs_threshold vs) = 3"
    "\<And>A. weight_of_set vs A = card (A \<inter> {1, 2, 3, 4})"
    by (rule example_rounds [OF fuzz_base_above, of 4]) (simp, rule that)
  obtain g where g: "r_prevote_ghost r = Some (g, fuzz_num g)" "descends fuzz_parent 0 g"
    using example_ghost [OF e(2,3) fuzz_base_above e(4,5)] by auto
  let ?self = "example_vr r (Prevoted ())"
  let ?c = "CallPrecommitted (r_round_number r) (precommit_new g (fuzz_num g)) :: (fhash, unit, nat) env_call"
  let ?v = "?self\<lparr>vr_votes := set_precommitted_index r,
        vr_outgoing := buffered_push (vr_outgoing ?self) (MPrecommit (precommit_new g (fuzz_num g))), vr_state := Some Precommitted\<rparr>"
  have cv: "cast_votes (example_env []) (Some (sh_bridged genesis_shared ! 0)) ?self genesis_shared = Some (?v, call ?c genesis_shared, Inr ())"
    using example_precommit [of ?self g "[]" genesis_shared] g by simp
  let ?w = "?v\<lparr>vr_outgoing := \<lparr>bf_inner = bf_inner (vr_outgoing ?v) @ bf_buffer (vr_outgoing ?v), bf_buffer = []\<rparr>\<rparr>"
  obtain self' sh' where nt: "notify (example_env []) (round_state (vr_votes ?self)) (round_state (vr_votes ?v)) ?w (call ?c genesis_shared)
      = Some (self', sh')"
    using notify_total [of "example_env []" "round_state (vr_votes ?self)" ?w "call ?c genesis_shared"] by auto
  obtain res where poll: "voting_round_poll (example_env []) ?self genesis_shared = Some (self', sh', res)"
    using example_poll [OF _ _ cv _ nt] by simp
  have calls: "sh_calls sh' = sh_calls genesis_shared @ [?c]" using notify_keeps(5) [OF nt] by simp
  have "\<exists>r'. round_steps fuzz_ancestry fuzz_num r r' \<and> rw (vs_threshold vs) \<le> support fuzz_parent r' Prevote g"
    using voter_precommits_above_estimate [where env = "example_env []" and self = ?self, OF _ _ _ poll calls,
        of fuzz_parent fuzz_num vs 0 "r_round_number r" "precommit_new g (fuzz_num g)"] fuzz.chain_axioms e(2)
    by (auto simp: precommit_new_def)
  then show ?thesis using e(2) poll calls unfolding e(4) genesis_shared_simps append_Nil by blast
qed

text \<open>C11. A poll returns: with streams that are not ready for ever, and a last round that has an estimate and a prevote-GHOST (or no last round), no
  expectation of the code fails and no loop runs on, whatever the environment answers. The votes of the round stay those of a reachable round.\<close>

theorem voting_round_poll_returns:
  assumes "chain (env_ancestry env) parent number" and "env_votes_ok number env" and "\<forall>n. \<exists>k. runs_dry env k n"
    and "reachable (env_ancestry env) number vs b (vr_votes self)"
    and "\<forall>s. last_view self sh = Some s \<longrightarrow> st_estimate s \<noteq> None \<and> st_prevote_ghost s \<noteq> None"
  shows "\<exists>self' sh' res. voting_round_poll env self sh = Some (self', sh', res) \<and>
    reachable (env_ancestry env) number vs b (vr_votes self')"
proof -
  have "last_ok (last_view self sh)" using assms(5) by (simp add: last_ok_def)
  from chain.voting_round_poll_total [OF assms(1) HOL.refl assms(2-4) this] obtain y where y: "voting_round_poll env self sh = Some y" by blast
  obtain self' sh' res where "y = (self', sh', res)" by (cases y)
  with y have poll: "voting_round_poll env self sh = Some (self', sh', res)" by simp
  show ?thesis using poll reachable_steps [OF voting_round_poll_steps [OF poll assms(2)] assms(4)] by blast
qed

theorem voting_round_poll_returns_witness:
  "\<exists>vs (r :: (nat, fhash, unit) round). reachable fuzz_ancestry fuzz_num vs 0 r \<and>
     (\<forall>st. \<exists>self' sh' res. voting_round_poll (example_env []) (example_vr r st) genesis_shared = Some (self', sh', res) \<and>
       reachable fuzz_ancestry fuzz_num vs 0 (vr_votes self'))"
proof -
  obtain vs r where r: "example_ok 4 vs r" using example_round [OF fuzz_base_above, of 4] by auto
  note e = example_okD [OF r]
  have "\<exists>self' sh' res. voting_round_poll (example_env []) (example_vr r st) genesis_shared = Some (self', sh', res) \<and>
       reachable fuzz_ancestry fuzz_num vs 0 (vr_votes self')" for st
    using voting_round_poll_returns [where env = "example_env []" and self = "example_vr r st" and sh = genesis_shared,
        OF _ example_env_votes_ok example_env_dry] fuzz.chain_axioms e(1) by (simp add: state_genesis_def)
  then show ?thesis using e(1) by blast
qed

text \<open>C21. Completion of a round. A poll reports the round as complete only when everything that was to be sent has been handed to the
  sink, the round is completable and the estimate of the last round, if there is one, is finalized by its number in the last round
  or in this one.\<close>

theorem voting_round_poll_completes:
  assumes "voting_round_poll env self sh = Some (self', sh', Inr (Ready ()))"
  shows "r_completable (vr_votes self') \<and> bf_buffer (vr_outgoing self') = [] \<and>
    (\<forall>s. last_view self sh = Some s \<longrightarrow> (\<exists>e f. st_estimate s = Some e \<and> st_finalized s = Some f \<and>
       (snd e \<le> snd f \<or> (\<exists>g. r_finalized (vr_votes self') = Some g \<and> snd e \<le> snd g))))"
  using assms
proof (cases rule: voting_round_poll_cases)
  case (finish self1 sh1 self2 sh2 out self3 sh3)
  have fin: "r_completable (vr_votes self')" "last_round_estimate_finalized (last_view self sh) (r_finalized (vr_votes self'))"
    using finish(6) by (auto split: if_splits)
  have "bf_buffer out = []" by (rule buffered_poll_ready [OF finish(3)])
  moreover have "vr_outgoing self3 = out" using handlesD(2) [OF vr_process_incoming_handles [OF finish(4)]] by simp
  moreover have "vr_outgoing self' = vr_outgoing self3"
    using finish(5) by (cases rule: notify_cases) simp_all
  ultimately show ?thesis using fin
    by (auto simp: last_round_estimate_finalized_def split: option.splits)
qed simp_all


theorem voting_round_poll_completes_witness:
  "\<exists>vs (r :: (nat, fhash, unit) round) self' sh'. reachable fuzz_ancestry fuzz_num vs 0 r \<and>
     voting_round_poll (example_env []) (example_vr r Precommitted) genesis_shared = Some (self', sh', Inr (Ready ())) \<and>
     r_completable (vr_votes self')"
proof -
  obtain vs r where r: "example_ok 4 vs r" using example_round [OF fuzz_base_above, of 4] by auto
  note e = example_okD [OF r]
  let ?self = "example_vr r Precommitted"
  let ?w = "?self\<lparr>vr_outgoing := \<lparr>bf_inner = bf_inner (vr_outgoing ?self) @ bf_buffer (vr_outgoing ?self), bf_buffer = []\<rparr>\<rparr>"
  have cv: "cast_votes (example_env []) (Some (sh_bridged genesis_shared ! 0)) ?self genesis_shared = Some (?self, genesis_shared, Inr ())"
    by (simp add: cast_votes_def vr_primary_propose_def vr_prevote_def vr_precommit_def)
  obtain self' sh' where nt: "notify (example_env []) (round_state (vr_votes ?self)) (round_state (vr_votes ?self)) ?w genesis_shared = Some (self', sh')"
    using notify_total [of "example_env []" "round_state (vr_votes ?self)" ?w genesis_shared] by auto
  have "vr_votes self' = r" using notify_keeps(1) [OF nt] by simp
  then have poll: "voting_round_poll (example_env []) ?self genesis_shared = Some (self', sh', Inr (Ready ()))"
    using example_poll [OF _ _ cv _ nt] e(2) by (simp add: last_round_estimate_finalized_def state_genesis_def)
  show ?thesis using voting_round_poll_completes [OF poll] poll e(1) by blast
qed

text \<open>C22. The block a voter prevotes above. Given the estimate and the prevote-GHOST of the last round, it is the block of the primary if
  that is the prevote-GHOST or lies strictly between the estimate and the prevote-GHOST, with its right number, and the estimate otherwise; the
  best chain is the one the environment has above that block. When the estimate is the prevote-GHOST, the code can ask the chain for the ancestry of a block
  up to itself, which the contract of \<^verbatim>\<open>ancestry\<close> leaves open: there the theorem assumes that the answer is an error or the empty
  list. Otherwise it needs the contract only.\<close>

theorem construct_prevote_spec:
  assumes "chain (env_ancestry env) parent number" and "st_estimate s = Some (e, ne)" and "st_prevote_ghost s = Some (g, number g)"
    and self_ancestry: "\<And>xs. e = g \<Longrightarrow> env_ancestry env e g = Inr xs \<Longrightarrow> xs = []"
  shows "construct_prevote env s self =
    (let t = (case vr_primary_block self of
         None \<Rightarrow> e
       | Some (h, k) \<Rightarrow>
           if k = number h \<and> (h = g \<or> descends parent e h \<and> e \<noteq> h \<and> descends parent h g) then h else e)
     in Some (t, env_best_chain_containing env t))"
proof (cases "vr_primary_block self")
  case None
  then show ?thesis by (simp add: construct_prevote_def assms(2))
next
  case (Some hk)
  obtain h k where hk: "hk = (h, k)" by fastforce
  note unf = construct_prevote_def assms(2,3) Some hk
  consider (high) "number g \<le> k" | (equal) "k < number g" "e = g" | (low) "k < number g" "e \<noteq> g" by linarith
  then show ?thesis
  proof cases
    case high
    have "h = g" if "descends parent h g" "k = number h"
      using high that chain.number_strict [OF assms(1) that(1)] by fastforce
    then show ?thesis using high by (auto simp: unf)
  next
    case equal
    have "\<not> (descends parent e h \<and> e \<noteq> h \<and> descends parent h g)" using chain.descends_antisym [OF assms(1)] equal(2) by blast
    moreover have "h \<noteq> g" if "k = number h" using equal(1) that by auto
    ultimately show ?thesis
      using equal self_ancestry by (cases "env_ancestry env e g") (auto simp: unf slice_get_Some split: error.split)
  next
    case low
    note k = low(1) and ne = low(2)
    show ?thesis
    proof (cases "env_ancestry env e g")
      case (Inl x)
      then have "\<not> descends parent e g" using chain.ancestry_Inl [OF assms(1) ne] by blast
      then have "\<not> (descends parent e h \<and> descends parent h g)" using descends_trans by metis
      then show ?thesis using k Inl by (cases x) (auto simp: unf)
    next
      case (Inr xs)
      note path = chain.ancestry_path [OF assms(1) ne Inr]
      then have p: "path parent g xs" by (simp add: path_append)
      have len: "number g = number e + Suc (length xs)" using chain.path_last_number [OF assms(1) path] by simp
      let ?i = "number g - (k + 1)"
      have get: "slice_get xs ?i = Some h \<longleftrightarrow> k = number h \<and> descends parent e h \<and> e \<noteq> h \<and> descends parent h g"
      proof
        assume "slice_get xs ?i = Some h"
        then have i: "?i < length xs" "xs ! ?i = h" by (auto simp: slice_get_Some)
        have nh: "number g = number h + Suc ?i" using chain.path_number [OF assms(1) p i(1)] i(2) by simp
        have hg: "descends parent h g" by (rule path_descends [OF p]) (use i in auto)
        have eg: "descends parent e g" by (rule path_descends [OF path]) simp
        have "k = number h" "number e < number h" using nh k i(1) len by auto
        then show "k = number h \<and> descends parent e h \<and> e \<noteq> h \<and> descends parent h g"
          using chain.descends_le [OF assms(1) eg hg] hg by auto
      next
        assume h: "k = number h \<and> descends parent e h \<and> e \<noteq> h \<and> descends parent h g"
        then have "number e < number h" using chain.number_strict [OF assms(1)] by blast
        then show "slice_get xs ?i = Some h"
          using chain.path_nth [OF assms(1) p, of h] h k len by (simp add: slice_get_Some)
      qed
      show ?thesis using k Inr get by (auto simp: unf Let_def)
    qed
  qed
qed

text \<open>The primary proposes block 4. Between the estimate 0 and the prevote-GHOST 10 it is taken; with the estimate 10 equal to the
  prevote-GHOST it is not.\<close>

definition example_last :: "fhash \<Rightarrow> fhash state" where
  "example_last e = \<lparr>st_prevote_ghost = Some (10, fuzz_num 10), st_finalized = None, st_estimate = Some (e, fuzz_num e), st_completable = True\<rparr>"

theorem construct_prevote_spec_witness:
  "\<forall>r. construct_prevote (example_env []) (example_last 0) ((example_vr r (Prevoted ()))\<lparr>vr_primary_block := Some (4, fuzz_num 4)\<rparr>) = Some (4, 4) \<and>
     construct_prevote (example_env []) (example_last 10) ((example_vr r (Prevoted ()))\<lparr>vr_primary_block := Some (4, fuzz_num 4)\<rparr>) = Some (10, 10)"
proof
  fix r
  have d: "descends fuzz_parent 4 10" "descends fuzz_parent 0 4" "\<not> descends fuzz_parent 10 4"
    using fuzz.is_equal_or_descendent_of_iff [of 4 10] fuzz.is_equal_or_descendent_of_iff [of 0 4] fuzz.is_equal_or_descendent_of_iff [of 10 4]
    by (simp_all add: is_equal_or_descendent_of_def fuzz_ancestry_def fuzz_good_descendent_def fuzz_full_ancestry_def)
  have c: "chain (env_ancestry (example_env [])) fuzz_parent fuzz_num" using fuzz.chain_axioms by simp
  have self: "fuzz_ancestry 10 10 = Inl NotDescendent" by (simp add: fuzz_ancestry_def fuzz_good_descendent_def)
  note spec = construct_prevote_spec [OF c, where s = "example_last e" and e = e and g = 10 for e]
  show "construct_prevote (example_env []) (example_last 0) ((example_vr r (Prevoted ()))\<lparr>vr_primary_block := Some (4, fuzz_num 4)\<rparr>) = Some (4, 4) \<and>
     construct_prevote (example_env []) (example_last 10) ((example_vr r (Prevoted ()))\<lparr>vr_primary_block := Some (4, fuzz_num 4)\<rparr>) = Some (10, 10)"
    using spec [of 0] spec [of 10] d self by (simp add: example_last_def)
qed

text \<open>C20. What a voter announces as final. A poll sends at most one notification; it carries the block finalized in the round, which is completable,
  the number of the round and a commit for that block, and it is sent only after we have precommitted, or when there is no last
  round. If no more than the tolerated weight equivocates in prevotes, the commit has precommits of at least the threshold.\<close>

theorem voter_announces_finalized:
  assumes "chain (env_ancestry env) parent number" and "env_votes_ok number env"
    and "reachable (env_ancestry env) number vs b (vr_votes self)"
    and "voting_round_poll env self sh = Some (self', sh', res)" and "sh_finalized sh' \<noteq> sh_finalized sh"
  shows "\<exists>f n c. sh_finalized sh' = sh_finalized sh @ [(f, n, r_round_number (vr_votes self), c)] \<and> vr_best_finalized self' = Some c \<and>
    r_finalized (vr_votes self') = Some (f, n) \<and> r_completable (vr_votes self') \<and> cm_target_hash c = f \<and> cm_target_number c = n \<and>
    (vr_state self' = Some Precommitted \<or> vr_last_round_state self' = None) \<and>
    (weight_of_set vs (equivs (vr_votes self') Prevote) \<le> faulty vs \<longrightarrow>
       rw (vs_threshold vs) \<le> weight_of_set vs (sc_id ` set (cm_precommits c)))"
proof -
  obtain self3 sh3 where nt: "notify env (round_state (vr_votes self)) (round_state (vr_votes self3)) self3 sh3 = Some (self', sh')"
      "sh_finalized sh3 = sh_finalized sh" "r_round_number (vr_votes self3) = r_round_number (vr_votes self)"
    using voting_round_poll_notify [OF assms(4)] assms(5) by blast
  have r: "reachable (env_ancestry env) number vs b (vr_votes self')"
    by (rule reachable_steps [OF voting_round_poll_steps [OF assms(4,2)] assms(3)])
  note ok = reachable_round [OF assms(1) r]
  show ?thesis
    using nt(1)
  proof (cases rule: notify_cases)
    case quiet
    then show ?thesis using nt(2) assms(5) by simp
  next
    case (send f n pcs)
    have v: "vr_votes self' = vr_votes self3" by (rule notify_keeps(1) [OF nt(1)])
    have fin: "r_finalized (vr_votes self') = Some (f, n)" using send(1) v by simp
    have "rw (vs_threshold vs) \<le> weight_of_set vs (sc_id ` set pcs)" if eq: "weight_of_set vs (equivs (vr_votes self') Prevote) \<le> faulty vs"
    proof -
      have "rw (vs_threshold vs) \<le> weight_of_set vs (supporters parent (vr_votes self') Precommit f)"
        using chain.round_finalized [OF assms(1) ok(1) _ fin] eq by (simp add: ok(2) support_def)
      then show ?thesis
        using chain.finalizing_precommits_set [OF assms(1) reachable_trackers [OF r] fin] send(3) v by auto
    qed
    then show ?thesis using send nt(2,3) fin v by simp
  qed
qed

theorem voter_announces_finalized_witness:
  "\<exists>vs (r :: (nat, fhash, unit) round) self' sh' res f n c. reachable fuzz_ancestry fuzz_num vs 0 r \<and>
     voting_round_poll (example_env []) (example_vr r Precommitted) genesis_shared = Some (self', sh', res) \<and>
     sh_finalized sh' = [(f, n, r_round_number r, c)] \<and> rw (vs_threshold vs) = 3 \<and> 3 \<le> weight_of_set vs (sc_id ` set (cm_precommits c))"
proof -
  obtain vs r where r: "example_ok 4 vs r" using example_round [OF fuzz_base_above, of 4] by auto
  note e = example_okD [OF r]
  let ?self = "example_vr r Precommitted"
  let ?w = "?self\<lparr>vr_outgoing := \<lparr>bf_inner = bf_inner (vr_outgoing ?self) @ bf_buffer (vr_outgoing ?self), bf_buffer = []\<rparr>\<rparr>"
  have cv: "cast_votes (example_env []) (Some (sh_bridged genesis_shared ! 0)) ?self genesis_shared = Some (?self, genesis_shared, Inr ())"
    by (simp add: cast_votes_def vr_primary_propose_def vr_prevote_def vr_precommit_def)
  obtain f where f: "r_finalized r = Some (f, fuzz_num f)" using e(9) by blast
  obtain self' sh' where nt: "notify (example_env []) (round_state (vr_votes ?self)) (round_state (vr_votes ?self)) ?w genesis_shared = Some (self', sh')"
    using notify_total [of "example_env []" "round_state (vr_votes ?self)" ?w genesis_shared] by auto
  have sent: "sh_finalized sh' \<noteq> sh_finalized genesis_shared"
    using nt f e(2) unfolding notify_def by (auto simp: Let_def round_state_def bind_eq_Some_conv)
  have votes: "vr_votes self' = r" using notify_keeps(1) [OF nt] by simp
  obtain res where poll: "voting_round_poll (example_env []) ?self genesis_shared = Some (self', sh', res)"
    using example_poll [OF _ _ cv _ nt] by simp
  have rv: "reachable (env_ancestry (example_env [])) fuzz_num vs 0 (vr_votes ?self)" using e(1) by simp
  have ch: "chain (env_ancestry (example_env [])) fuzz_parent fuzz_num" using fuzz.chain_axioms by simp
  obtain f n c where "sh_finalized sh' = sh_finalized genesis_shared @ [(f, n, r_round_number (vr_votes ?self), c)]"
      "weight_of_set vs (equivs (vr_votes self') Prevote) \<le> faulty vs \<longrightarrow> rw (vs_threshold vs) \<le> weight_of_set vs (sc_id ` set (cm_precommits c))"
    using voter_announces_finalized [OF ch example_env_votes_ok rv poll sent] by (elim exE conjE) (rule that)
  then have "sh_finalized sh' = [(f, n, r_round_number r, c)]" "rw (vs_threshold vs) = 3 \<and> 3 \<le> weight_of_set vs (sc_id ` set (cm_precommits c))"
    using e(3) by (simp_all add: votes e(6))
  then show ?thesis using e(1) poll by blast
qed

lemma idle_incoming:
  assumes "\<forall>n. \<exists>n'. env_poll_next env n = (n', Pending)" and "vr_process_incoming env self sh = Some (self', sh', res)"
  shows "vr_votes self' = vr_votes self"
proof -
  obtain n' where "env_poll_next env (vr_incoming self) = (n', Pending)" using assms(1) by blast
  then show ?thesis using assms(2) by (auto simp: vr_process_incoming.simps [of env self])
qed

lemma notify_unchanged:
  assumes "notify env (round_state (vr_votes self)) (round_state (vr_votes self)) self sh = Some (self', sh')"
  shows "sh_bridged sh' = sh_bridged sh" "vr_best_finalized self \<noteq> None \<Longrightarrow> sh_finalized sh' = sh_finalized sh"
  using assms unfolding notify_def
  by (auto simp: Let_def round_state_def bind_eq_Some_conv split: if_split_asm option.split_asm)

text \<open>C36. Updates that are lost. The state of the round is handed to the next round, and finality is announced again, only by the very poll whose messages
  changed the state: a poll in which no message arrives tells the others nothing once something has been announced, also if the
  next round has not been told of the current state, as after a poll that returned early because the sink was not ready,
  or after votes were imported from a commit.\<close>

theorem idle_poll_tells_nothing:
  assumes "\<forall>n. \<exists>n'. env_poll_next env n = (n', Pending)" and "voting_round_poll env self sh = Some (self', sh', res)"
  shows "sh_bridged sh' = sh_bridged sh \<and> round_state (vr_votes self') = round_state (vr_votes self) \<and>
    (vr_best_finalized self \<noteq> None \<longrightarrow> sh_finalized sh' = sh_finalized sh)"
proof -
  note idle = idle_incoming [OF assms(1)]
  show ?thesis
    using assms(2)
  proof (cases rule: voting_round_poll_cases)
    case (receive e)
    then show ?thesis using idle [OF receive(1)] handlesD(8,9) [OF vr_process_incoming_handles [OF receive(1)]] by simp
  next
    case (vote self1 sh1 e)
    then show ?thesis
      using idle [OF vote(1)] poll_unfinished [OF vote(1,2)] indexed_simps(1) [OF cast_votes_indexed [OF vote(2)]] by simp
  next
    case (flush self1 sh1 self2 o1 flushed)
    then show ?thesis
      using idle [OF flush(1)] poll_unfinished [OF flush(1,2)] indexed_simps(1) [OF cast_votes_indexed [OF flush(2)]] by simp
  next
    case (receive' self1 sh1 self2 sh2 o1 e)
    then show ?thesis
      using idle [OF receive'(1)] idle [OF receive'(4)] poll_until_notify [OF receive'(1,2,4)]
        indexed_simps(1) [OF cast_votes_indexed [OF receive'(2)]] by simp
  next
    case (finish self1 sh1 self2 sh2 o1 self3 sh3)
    have st: "round_state (vr_votes self) = round_state (vr_votes self3)"
      using idle [OF finish(1)] idle [OF finish(4)] indexed_simps(1) [OF cast_votes_indexed [OF finish(2)]] by simp
    note nt = finish(5) [unfolded st] and until = poll_until_notify [OF finish(1,2,4)]
    show ?thesis using notify_unchanged [OF nt] notify_keeps(1) [OF nt] st until by simp
  qed
qed

text \<open>The next round keeps the genesis state of a round that has finalized a block.\<close>

theorem idle_poll_tells_nothing_witness:
  "\<exists>vs (r :: (nat, fhash, unit) round) c self' sh' res f. reachable fuzz_ancestry fuzz_num vs 0 r \<and> r_finalized r = Some (f, fuzz_num f) \<and> f \<noteq> 0 \<and>
     voting_round_poll ((example_env [])\<lparr>env_poll_next := (\<lambda>n. (n, Pending))\<rparr>)
       ((example_vr r Precommitted)\<lparr>vr_bridged_round_state := Some (PriorView 0), vr_last_round_state := None, vr_best_finalized := Some c\<rparr>) genesis_shared
       = Some (self', sh', res) \<and>
     r_finalized (vr_votes self') = Some (f, fuzz_num f) \<and> st_finalized (sh_bridged sh' ! 0) = Some (0, fuzz_num 0) \<and> sh_finalized sh' = []"
proof -
  obtain vs r where r: "example_ok 4 vs r" using example_round [OF fuzz_base_above, of 4] by auto
  note e = example_okD [OF r]
  obtain f where f: "r_finalized r = Some (f, fuzz_num f)" "descends fuzz_parent 4 f" using e(9) by blast
  have "\<not> descends fuzz_parent 4 0" using fuzz_descends_good [of 4 0] by (auto simp: fuzz_good_descendent_def)
  then have f0: "f \<noteq> 0" using f(2) by metis
  let ?env = "(example_env [])\<lparr>env_poll_next := (\<lambda>n. (n, Pending))\<rparr>"
  let ?self = "\<lambda>c. (example_vr r Precommitted)\<lparr>vr_bridged_round_state := Some (PriorView 0), vr_last_round_state := None, vr_best_finalized := Some c\<rparr>"
  obtain c :: "(fhash, unit, nat) commit" where True by simp
  have idle: "\<forall>n. \<exists>n'. env_poll_next ?env n = (n', Pending)" by simp
  have dry: "runs_dry ?env (Suc 0) n" for n by simp
  have "\<exists>y. voting_round_poll ?env (?self c) genesis_shared = Some y"
    by (rule chain.voting_round_poll_total [OF fuzz.chain_axioms, of ?env vs 0])
      (use e(1) dry in \<open>auto simp: env_votes_ok_def last_ok_def intro!: exI [of _ "Suc 0"]\<close>)
  then obtain self' sh' res where poll: "voting_round_poll ?env (?self c) genesis_shared = Some (self', sh', res)" by fastforce
  have "sh_bridged sh' = sh_bridged genesis_shared" "sh_finalized sh' = sh_finalized genesis_shared"
      "r_finalized (vr_votes self') = Some (f, fuzz_num f)"
    using idle_poll_tells_nothing [OF idle poll] f(1) by (simp_all add: round_state_def)
  then show ?thesis using e(1) f(1) f0 poll
    by (intro exI [of _ vs] exI [of _ r] exI [of _ c] exI [of _ self'] exI [of _ sh'] exI [of _ res] exI [of _ f]) (simp add: state_genesis_def)
qed

text \<open>C26. Handling a vote never fails. A message whose target is not the base of the round or above it changes nothing; every other message is
  processed without an error, and the votes stay those of a reachable round.\<close>

theorem handle_vote_never_fails:
  assumes "chain (env_ancestry env) parent number" and "reachable (env_ancestry env) number vs b (vr_votes self)" and "vote_ok number vote"
  shows "\<exists>self' sh'. handle_vote env vote self sh = Some (self', sh', Inr ()) \<and>
    reachable (env_ancestry env) number vs b (vr_votes self') \<and>
    (\<not> descends parent b (fst (message_target (sm_message vote))) \<longrightarrow> self' = self \<and> sh' = sh)"
proof -
  obtain self' sh' where h: "handle_vote env vote self sh = Some (self', sh', Inr ())"
    using chain.handle_vote_total [OF assms(1) HOL.refl assms(2,3)] by blast
  have bs: "g_base (r_graph (vr_votes self)) = b" by (rule reachable_round(3) [OF assms(1,2)])
  have "self' = self \<and> sh' = sh" if "\<not> descends parent b (fst (message_target (sm_message vote)))"
    using h that chain.is_equal_or_descendent_of_iff [OF assms(1)] by (simp add: handle_vote_def round_base_def vote_graph_base_def bs)
  then show ?thesis using h reachable_steps [OF handle_vote_steps [OF h assms(3)] assms(2)] by blast
qed

theorem handle_vote_never_fails_witness:
  "\<exists>vs (r :: (nat, fhash, unit) round) self' sh'. reachable fuzz_ancestry fuzz_num vs 0 r \<and>
     handle_vote (example_env []) \<lparr>sm_message = MPrevote (prevote_new 10 (fuzz_num 10)), sm_signature = (), sm_id = 4\<rparr> (example_vr r Precommitted) genesis_shared
       = Some (self', sh', Inr ())"
proof -
  obtain vs r where r: "example_ok 4 vs r" using example_round [OF fuzz_base_above, of 4] by auto
  note e = example_okD [OF r]
  have rv: "reachable (env_ancestry (example_env [])) fuzz_num vs 0 (vr_votes (example_vr r Precommitted))" using e(1) by simp
  have ch: "chain (env_ancestry (example_env [])) fuzz_parent fuzz_num" using fuzz.chain_axioms by simp
  have "vote_ok fuzz_num \<lparr>sm_message = MPrevote (prevote_new 10 (fuzz_num 10)), sm_signature = (), sm_id = 4\<rparr>"
    by (simp add: vote_ok_def prevote_new_def)
  from handle_vote_never_fails [OF ch rv this] show ?thesis using e(1) by blast
qed

end
