(* ===== verification/Commit_Properties.thy ===== *)
theory Commit_Properties
  imports Commit Round_Example
begin

text \<open>
  The properties of commit validation, each applied on the block tree of the fuzzing harness with four voters of weight one.
\<close>

section \<open>Concrete commits\<close>

definition example_commit :: "fhash \<Rightarrow> (fhash, unit, nat) commit" where
  "example_commit t = \<lparr>cm_target_hash = t, cm_target_number = fuzz_num t, cm_precommits =
     map (\<lambda>vid. \<lparr>sc_precommit = precommit_new t (fuzz_num t), sc_signature = (), sc_id = vid\<rparr>) [1, 2, 3, 7]\<rparr>"

lemma example_commit_votes:
  assumes vs: "voter_set_ok vs" "voter_ids vs = {1, 2, 3, 4}"
  shows "set (voter_precommits vs (example_commit t)) =
      (\<lambda>vid. \<lparr>sc_precommit = precommit_new t (fuzz_num t), sc_signature = (), sc_id = vid\<rparr>) ` {1, 2, 3}"
    "commit_view (voter_precommits vs (example_commit t)) vid = (if vid \<in> {1, 2, 3} then Some (t, False) else None)"
proof -
  have f: "filter (\<lambda>msg. voter_set_contains vs (sc_id msg)) (cm_precommits (example_commit t))
      = map (\<lambda>vid. \<lparr>sc_precommit = precommit_new t (fuzz_num t), sc_signature = (), sc_id = vid\<rparr>) [1, 2, 3]"
    using voter_set_contains_iff [OF vs(1)] vs(2) by (simp add: example_commit_def)
  show "set (voter_precommits vs (example_commit t)) =
      (\<lambda>vid. \<lparr>sc_precommit = precommit_new t (fuzz_num t), sc_signature = (), sc_id = vid\<rparr>) ` {1, 2, 3}"
    by (simp add: voter_precommits_def f)
  show "commit_view (voter_precommits vs (example_commit t)) vid = (if vid \<in> {1, 2, 3} then Some (t, False) else None)"
    by (simp add: voter_precommits_def f commit_view_def precommit_new_def)
qed

lemma example_commit_facts:
  assumes vs: "voter_set_ok vs" "voter_ids vs = {1, 2, 3, 4}"
  shows "commit_supporters parent vs (example_commit t) b = (if descends parent b t then {1, 2, 3} else {})"
    "commit_equivocators vs (example_commit t) = {}"
    "\<forall>p \<in> set (voter_precommits vs (example_commit t)). pc_target_number (sc_precommit p) = fuzz_num (pc_target_hash (sc_precommit p))"
  by (auto simp: commit_supporters_def commit_equivocators_def example_commit_votes [OF vs] precommit_new_def split: if_splits)

lemma example_commit_justifies:
  assumes vs: "voter_set_ok vs" "voter_ids vs = {1, 2, 3, 4}" "rw (vs_threshold vs) = 3" "\<forall>A. weight_of_set vs A = card (A \<inter> {1, 2, 3, 4})"
  shows "commit_justifies fuzz_parent fuzz_num vs (example_commit t)"
proof -
  have "descends fuzz_parent t b \<Longrightarrow> t \<noteq> b \<Longrightarrow> \<not> descends fuzz_parent b t" for b using fuzz.descends_antisym by blast
  then show ?thesis
    unfolding commit_justifies_def example_commit_facts [OF vs(1,2)] example_commit_votes(1) [OF vs(1,2)] vs(3) vs(4) [rule_format]
    by (simp add: example_commit_def precommit_new_def)
qed

lemma example_commit_valid:
  assumes vs: "voter_set_new four_voters = Some (Some vs)" "rw (vs_threshold vs) = 3" "voter_ids vs = {1, 2, 3, 4}"
    "\<forall>A. weight_of_set vs A = card (A \<inter> {1, 2, 3, 4})"
  shows "\<exists>res. validate_commit fuzz_ancestry (example_commit t) vs = Some (Inr res) \<and> cvr_valid res"
proof -
  note ok = voter_set_new_ok [OF vs(1)]
  note facts = example_commit_facts [OF ok vs(3)]
  show ?thesis
    using chain.validate_commit_ok [OF fuzz.chain_axioms ok facts(3) [of t]] example_commit_justifies [OF ok vs(3,2,4), of t]
    by (auto simp: facts(2))
qed

section \<open>Properties\<close>

text \<open>C10. Validating a commit always returns and never fails, if the precommits carry the numbers of their blocks. A valid commit has
  precommits of a quorum of the voters for its target or above it, counting equivocators; all its votes are above one of them
  that is at or below the target. If no more than the tolerated weight equivocates in it, it is valid exactly when in addition
  no block above the target has such a quorum. Votes of strangers do not count.\<close>

theorem validate_commit_spec:
  fixes c :: "('h :: linorder, 's, 'i :: linorder) commit"
  assumes "chain ancestry parent number" and "voter_set_new ws = Some (Some vs)"
    and "\<forall>p \<in> set (voter_precommits vs c). pc_target_number (sc_precommit p) = number (pc_target_hash (sc_precommit p))"
  shows "\<exists>res. validate_commit ancestry c vs = Some (Inr res) \<and> cvr_num_precommits res = length (cm_precommits c) \<and>
    cvr_num_invalid_voters res = length (filter (\<lambda>msg. \<not> voter_set_contains vs (sc_id msg)) (cm_precommits c)) \<and>
    (cvr_valid res \<longrightarrow> cm_target_number c = number (cm_target_hash c) \<and>
      rw (vs_threshold vs) \<le> weight_of_set vs (commit_supporters parent vs c (cm_target_hash c)) \<and>
      (\<exists>m \<in> set (voter_precommits vs c). descends parent (pc_target_hash (sc_precommit m)) (cm_target_hash c) \<and>
        (\<forall>p \<in> set (voter_precommits vs c). descends parent (pc_target_hash (sc_precommit m)) (pc_target_hash (sc_precommit p)))) \<and>
      cvr_num_equivocations res = card (commit_equivocators vs c)) \<and>
    (weight_of_set vs (commit_equivocators vs c) \<le> faulty vs \<longrightarrow> cvr_valid res = commit_justifies parent number vs c)"
  by (rule chain.validate_commit_ok [OF assms(1) voter_set_new_ok [OF assms(2)] assms(3)])

theorem validate_commit_spec_witness:
  "\<exists>vs res. voter_set_new four_voters = Some (Some vs) \<and> validate_commit fuzz_ancestry (example_commit 4) vs = Some (Inr res) \<and>
     cvr_valid res \<and> cvr_num_invalid_voters res = 1"
proof -
  obtain vs where vs: "voter_set_new four_voters = Some (Some vs)" "rw (vs_threshold vs) = 3" "faulty vs = 1"
    "voter_ids vs = {1, 2, 3, 4}" "\<forall>A. weight_of_set vs A = card (A \<inter> {1, 2, 3, 4})"
    using four_voters_set by blast
  note ok = voter_set_new_ok [OF vs(1)] and facts = example_commit_facts [OF voter_set_new_ok [OF vs(1)] vs(4)]
  obtain res where res: "validate_commit fuzz_ancestry (example_commit 4) vs = Some (Inr res)"
      "cvr_num_invalid_voters res = length (filter (\<lambda>msg. \<not> voter_set_contains vs (sc_id msg)) (cm_precommits (example_commit 4)))"
      "weight_of_set vs (commit_equivocators vs (example_commit 4)) \<le> faulty vs
        \<longrightarrow> cvr_valid res = commit_justifies fuzz_parent fuzz_num vs (example_commit 4)"
    using validate_commit_spec [OF fuzz.chain_axioms vs(1) facts(3) [of 4]] by (elim exE conjE) (rule that)
  have "cvr_valid res" using res(3) example_commit_justifies [OF ok vs(4,2,5), of 4] by (simp add: facts(2))
  moreover have "cvr_num_invalid_voters res = 1"
    using res(2) voter_set_contains_iff [OF ok] vs(4) by (simp add: example_commit_def)
  ultimately show ?thesis using vs(1) res(1) by blast
qed

text \<open>C9. Agreement of commits, accountably. Two commits that validate against the same voters and have targets on
  different chains contain two different precommits of voters of more than the tolerated weight.\<close>

theorem commit_accountable_safety:
  fixes c c' :: "('h :: linorder, 's, 'i :: linorder) commit"
  assumes "chain ancestry parent number" and "voter_set_new ws = Some (Some vs)"
    and "\<forall>p \<in> set (voter_precommits vs c) \<union> set (voter_precommits vs c').
      pc_target_number (sc_precommit p) = number (pc_target_hash (sc_precommit p))"
    and "validate_commit ancestry c vs = Some (Inr res)" and "cvr_valid res"
    and "validate_commit ancestry c' vs = Some (Inr res')" and "cvr_valid res'"
    and "\<not> is_equal_or_descendent_of ancestry (cm_target_hash c) (cm_target_hash c')"
    and "\<not> is_equal_or_descendent_of ancestry (cm_target_hash c') (cm_target_hash c)"
  shows "faulty vs < weight_of_set vs {vid. \<exists>p p'.
    p \<in> set (cm_precommits c) \<union> set (cm_precommits c') \<and> p' \<in> set (cm_precommits c) \<union> set (cm_precommits c') \<and>
    sc_id p = vid \<and> sc_id p' = vid \<and> (sc_precommit p, sc_signature p) \<noteq> (sc_precommit p', sc_signature p')}"
    (is "_ < weight_of_set vs ?D")
proof -
  note vs = voter_set_new_ok [OF assms(2)] and desc = chain.is_equal_or_descendent_of_iff [OF assms(1)]
  let ?S = "\<lambda>c. commit_supporters parent vs c (cm_target_hash c)"
  have "rw (vs_threshold vs) \<le> weight_of_set vs (?S c)" "rw (vs_threshold vs) \<le> weight_of_set vs (?S c')"
    using chain.validate_commit_ok [OF assms(1) vs, of c] chain.validate_commit_ok [OF assms(1) vs, of c'] assms(3-7) by auto
  then have "faulty vs < weight_of_set vs (?S c \<inter> ?S c')" by (rule threshold_intersection [OF vs])
  also have "\<dots> \<le> weight_of_set vs ?D"
  proof (rule weight_of_set_mono, rule subsetI)
    fix vid assume vid: "vid \<in> ?S c \<inter> ?S c'"
    have entry: "\<exists>p \<in> set (cm_precommits c). sc_id p = vid \<and> pc_target_hash (sc_precommit p) = t \<and>
        (e \<longrightarrow> (\<exists>p' \<in> set (cm_precommits c). sc_id p' = vid \<and> (sc_precommit p, sc_signature p) \<noteq> (sc_precommit p', sc_signature p')))"
      if "commit_view (voter_precommits vs c) vid = Some (t, e)" for c :: "('h, 's, 'i) commit" and t e
      using that by (rule commit_view_entry)
    obtain t e t' e' where t: "commit_view (voter_precommits vs c) vid = Some (t, e)" "e \<or> descends parent (cm_target_hash c) t"
        "commit_view (voter_precommits vs c') vid = Some (t', e')" "e' \<or> descends parent (cm_target_hash c') t'"
      using vid by (auto simp: commit_supporters_def)
    have "e \<or> e' \<or> t \<noteq> t'"
      using t(2,4) descends_linear [of parent "cm_target_hash c" t "cm_target_hash c'"] assms(8,9) desc by auto
    moreover obtain p where p: "p \<in> set (cm_precommits c)" "sc_id p = vid" "pc_target_hash (sc_precommit p) = t"
        "e \<longrightarrow> (\<exists>p' \<in> set (cm_precommits c). sc_id p' = vid \<and> (sc_precommit p, sc_signature p) \<noteq> (sc_precommit p', sc_signature p'))"
      using entry [OF t(1)] by blast
    moreover obtain q where q: "q \<in> set (cm_precommits c')" "sc_id q = vid" "pc_target_hash (sc_precommit q) = t'"
        "e' \<longrightarrow> (\<exists>p' \<in> set (cm_precommits c'). sc_id p' = vid \<and> (sc_precommit q, sc_signature q) \<noteq> (sc_precommit p', sc_signature p'))"
      using entry [OF t(3)] by blast
    ultimately show "vid \<in> ?D" by fastforce
  qed
  finally show ?thesis .
qed

theorem commit_accountable_safety_witness:
  "\<exists>vs. voter_set_new four_voters = Some (Some vs) \<and> faulty vs < weight_of_set vs {vid. \<exists>p p'.
    p \<in> set (cm_precommits (example_commit 10)) \<union> set (cm_precommits (example_commit 13)) \<and>
    p' \<in> set (cm_precommits (example_commit 10)) \<union> set (cm_precommits (example_commit 13)) \<and>
    sc_id p = vid \<and> sc_id p' = vid \<and> (sc_precommit p, sc_signature p) \<noteq> (sc_precommit p', sc_signature p')}"
proof -
  obtain vs where vs: "voter_set_new four_voters = Some (Some vs)" "rw (vs_threshold vs) = 3" "faulty vs = 1"
    "voter_ids vs = {1, 2, 3, 4}" "\<forall>A. weight_of_set vs A = card (A \<inter> {1, 2, 3, 4})"
    using four_voters_set by blast
  note facts = example_commit_facts [OF voter_set_new_ok [OF vs(1)] vs(4)]
  obtain res res' where res: "validate_commit fuzz_ancestry (example_commit 10) vs = Some (Inr res)" "cvr_valid res"
      "validate_commit fuzz_ancestry (example_commit 13) vs = Some (Inr res')" "cvr_valid res'"
    using example_commit_valid [OF vs(1,2,4,5), of 10] example_commit_valid [OF vs(1,2,4,5), of 13] by blast
  have num: "\<forall>p \<in> set (voter_precommits vs (example_commit 10)) \<union> set (voter_precommits vs (example_commit 13)).
      pc_target_number (sc_precommit p) = fuzz_num (pc_target_hash (sc_precommit p))"
    using facts(3) [of 10] facts(3) [of 13] by blast
  have "\<not> is_equal_or_descendent_of fuzz_ancestry (cm_target_hash (example_commit 10)) (cm_target_hash (example_commit 13))"
    "\<not> is_equal_or_descendent_of fuzz_ancestry (cm_target_hash (example_commit 13)) (cm_target_hash (example_commit 10))"
    by (simp_all add: example_commit_def is_equal_or_descendent_of_def fuzz_ancestry_def fuzz_good_descendent_def)
  from commit_accountable_safety [OF fuzz.chain_axioms vs(1) num res this] show ?thesis using vs(1) by blast
qed

text \<open>C39. The loop of the validation never returns early: a voter is reported as an equivocator at most once, since a
  further vote of a known equivocator is not an equivocation for the round. The guard that is meant to refuse commits with
  more than one equivocation per voter never refuses one; such votes are ignored.\<close>

theorem commit_extra_equivocations_ignored:
  fixes c :: "('h :: linorder, 's, 'i :: linorder) commit"
  assumes "chain ancestry parent number" and "voter_set_new ws = Some (Some vs)"
    and "\<forall>p \<in> set (voter_precommits vs c). pc_target_number (sc_precommit p) = number (pc_target_hash (sc_precommit p))"
    and "\<forall>p \<in> set (voter_precommits vs c). is_equal_or_descendent_of ancestry b (pc_target_hash (sc_precommit p))"
  shows "\<exists>r res'. validate_imports ancestry (round_new \<lparr>rp_round_number = 0, rp_voters = vs, rp_base = (b, number b)\<rparr>) [] res
    (voter_precommits vs c) = Some (Inr (r, res', False))"
  using chain.commit_imports [OF assms(1) voter_set_new_ok [OF assms(2)] assms(3)] assms(4)
  unfolding chain.is_equal_or_descendent_of_iff [OF assms(1)] by blast

text \<open>A commit with three different precommits of voter 1.\<close>

definition triple_commit :: "(fhash, unit, nat) commit" where
  "triple_commit = \<lparr>cm_target_hash = 4, cm_target_number = fuzz_num 4, cm_precommits =
     map (\<lambda>(vid, t). \<lparr>sc_precommit = precommit_new t (fuzz_num t), sc_signature = (), sc_id = vid\<rparr>)
       [(1, 4), (1, 10), (1, 11), (2, 4), (3, 4)]\<rparr>"

theorem commit_extra_equivocations_ignored_witness:
  "\<exists>vs r res'. voter_set_new four_voters = Some (Some vs) \<and> length (votes_of (voter_precommits vs triple_commit) 1) = 3 \<and>
     distinct (votes_of (voter_precommits vs triple_commit) 1) \<and>
     validate_imports fuzz_ancestry (round_new \<lparr>rp_round_number = 0, rp_voters = vs, rp_base = (4, fuzz_num 4)\<rparr>) []
       (commit_initial vs triple_commit) (voter_precommits vs triple_commit) = Some (Inr (r, res', False))"
proof -
  obtain vs where vs: "voter_set_new four_voters = Some (Some vs)" "voter_ids vs = {1, 2, 3, 4}" using four_voters_set by blast
  have all: "voter_precommits vs triple_commit = cm_precommits triple_commit"
    using voter_set_contains_iff [OF voter_set_new_ok [OF vs(1)]] vs(2) by (simp add: voter_precommits_def triple_commit_def)
  have num: "\<forall>p \<in> set (voter_precommits vs triple_commit). pc_target_number (sc_precommit p) = fuzz_num (pc_target_hash (sc_precommit p))"
    unfolding all by (simp add: triple_commit_def precommit_new_def)
  have "\<forall>p \<in> set (voter_precommits vs triple_commit). is_equal_or_descendent_of fuzz_ancestry 4 (pc_target_hash (sc_precommit p))"
    unfolding all by (simp add: triple_commit_def precommit_new_def is_equal_or_descendent_of_def fuzz_ancestry_def fuzz_good_descendent_def
        fuzz_full_ancestry_def)
  moreover have "length (votes_of (voter_precommits vs triple_commit) 1) = 3" "distinct (votes_of (voter_precommits vs triple_commit) 1)"
    unfolding all by (simp_all add: triple_commit_def precommit_new_def)
  ultimately show ?thesis
    using commit_extra_equivocations_ignored [OF fuzz.chain_axioms vs(1) num, of 4 "commit_initial vs triple_commit"] vs(1) by blast
qed

section \<open>A commit for a finalized block that does not validate\<close>

text \<open>Voters 1 and 2 prevote block 10, voter 3 its parent 4; then all three, having seen the prevote of voter 4 for block 10 which
  this round has not, precommit block 10. The prevote-GHOST of this round, and so the finalized block, is block 4.\<close>

lemma split_round:
  "\<exists>vs (r :: (nat, fhash, unit) round). voter_set_new four_voters = Some (Some vs) \<and> rw (vs_threshold vs) = 3 \<and> faulty vs = 1 \<and>
     voter_ids vs = {1, 2, 3, 4} \<and> (\<forall>A. weight_of_set vs A = card (A \<inter> {1, 2, 3, 4})) \<and>
     reachable fuzz_ancestry fuzz_num vs 0 r \<and> fresh fuzz_parent fuzz_num r \<and>
     view r Prevote = (\<lambda>v. if v = 3 then Some (4, False) else if v \<in> {1, 2} then Some (10, False) else None) \<and>
     view r Precommit = (\<lambda>v. if v \<in> {1, 2, 3} then Some (10, False) else None)"
proof -
  obtain vs where vs: "voter_set_new four_voters = Some (Some vs)" "rw (vs_threshold vs) = 3" "faulty vs = 1"
    "voter_ids vs = {1, 2, 3, 4}" "\<forall>A. weight_of_set vs A = card (A \<inter> {1, 2, 3, 4})"
    using four_voters_set by blast
  have d: "descends fuzz_parent 0 4" "descends fuzz_parent 0 10" by (rule fuzz_base_above; simp)+
  let ?r0 = "round_new \<lparr>rp_round_number = 1, rp_voters = vs, rp_base = (0, fuzz_num 0)\<rparr> :: (nat, fhash, unit) round"
  note f = round_new_fields(1-3) [OF HOL.refl, of 1 vs 0 "fuzz_num 0"]
  have r0: "reachable fuzz_ancestry fuzz_num vs 0 ?r0" by (rule reachable.start [OF vs(1)])
  have ok0: "round_ok fuzz_parent fuzz_num ?r0" using chain.reachable_ok [OF fuzz.chain_axioms r0] by simp
  obtain r1 where r1: "round_steps fuzz_ancestry fuzz_num ?r0 r1" "round_ok fuzz_parent fuzz_num r1" "extends ?r0 r1"
      "view r1 Prevote = (\<lambda>v. if v \<in> set [1, 2] then Some (10, False) else view ?r0 Prevote v)" "view r1 Precommit = view ?r0 Precommit"
    using chain.cast_prevotes [OF fuzz.chain_axioms ok0, of "[1, 2]" 10] vs(4) d(2) by (auto simp: f)
  note e1 = extendsD(1,2) [OF r1(3)]
  obtain r2 where r2: "round_steps fuzz_ancestry fuzz_num r1 r2" "round_ok fuzz_parent fuzz_num r2" "extends r1 r2"
      "view r2 Prevote = (\<lambda>v. if v \<in> set [3] then Some (4, False) else view r1 Prevote v)" "view r2 Precommit = view r1 Precommit"
    using chain.cast_prevotes [OF fuzz.chain_axioms r1(2), of "[3]" 4] vs(4) d(1) by (auto simp: e1 f r1(4))
  note e2 = extendsD(1,2) [OF r2(3)]
  obtain r3 where r3: "round_steps fuzz_ancestry fuzz_num r2 r3" "fresh fuzz_parent fuzz_num r3"
      "view r3 Precommit = (\<lambda>v. if v \<in> set [1, 2, 3] then Some (10, False) else view r2 Precommit v)" "view r3 Prevote = view r2 Prevote"
    using chain.cast_precommits [OF fuzz.chain_axioms r2(2), of "[1, 2, 3]" 10] vs(4) d(2) by (auto simp: e1 e2 f r2(5) r1(5))
  have "reachable fuzz_ancestry fuzz_num vs 0 r3"
    by (rule reachable_steps [OF r3(1) reachable_steps [OF r2(1) reachable_steps [OF r1(1) r0]]])
  moreover have "view r3 Prevote = (\<lambda>v. if v = 3 then Some (4, False) else if v \<in> {1, 2} then Some (10, False) else None)"
    unfolding r3(4) r2(4) r1(4) f by (simp add: fun_eq_iff)
  moreover have "view r3 Precommit = (\<lambda>v. if v \<in> {1, 2, 3} then Some (10, False) else None)"
    unfolding r3(3) r2(5) r1(5) f by (simp add: fun_eq_iff)
  ultimately show ?thesis using vs r3(2) by blast
qed

lemma split_finalized:
  fixes r :: "(nat, fhash, unit) round"
  assumes r: "reachable fuzz_ancestry fuzz_num vs 0 r" "fresh fuzz_parent fuzz_num r"
    and vs: "rw (vs_threshold vs) = 3" "faulty vs = 1" "\<forall>A. weight_of_set vs A = card (A \<inter> {1, 2, 3, 4})"
    and pv: "view r Prevote = (\<lambda>v. if v = 3 then Some (4, False) else if v \<in> {1, 2} then Some (10, False) else None)"
    and pc: "view r Precommit = (\<lambda>v. if v \<in> {1, 2, 3} then Some (10, False) else None)"
  shows "r_finalized r = Some (4, fuzz_num 4)" "equivs r p = {}"
proof -
  have ok: "round_ok fuzz_parent fuzz_num r" "voters r = vs" "base r = 0"
    using chain.reachable_ok [OF fuzz.chain_axioms r(1)] by auto
  obtain V where core: "core_ok fuzz_parent fuzz_num r V" "ghost_ok fuzz_parent fuzz_num r" by (rule round_okE [OF ok(1)])
  have d: "descends fuzz_parent 4 10" "descends fuzz_parent 0 4"
    using fuzz.is_equal_or_descendent_of_iff [of 4 10] fuzz.is_equal_or_descendent_of_iff [of 0 4]
    by (simp_all add: is_equal_or_descendent_of_def fuzz_ancestry_def fuzz_good_descendent_def fuzz_full_ancestry_def)
  show eq: "equivs r p = {}" for p by (cases p) (auto simp: equivs_def pv pc split: if_splits)
  have "supporters fuzz_parent r p 4 = {1, 2, 3}" for p
    using d(1) by (cases p) (auto simp: supporters_def pv pc split: if_splits)
  then have q: "quorum r \<le> support fuzz_parent r p 4" for p by (simp add: support_def ok(2) vs)
  have upd: "updated fuzz_parent fuzz_num r" using r(2) by (simp add: fresh_def eq ok(2) vs)
  obtain f where f: "r_finalized r = Some (f, fuzz_num f)" "descends fuzz_parent 4 f"
    using chain.updated_finalizes [OF fuzz.chain_axioms core upd _ _ q] d(2) by (auto simp: eq ok(3))
  have "quorum r \<le> support fuzz_parent r Prevote f" by (rule updated_finalized(3) [OF core upd f(1)])
  moreover have "supporters fuzz_parent r Prevote f \<subseteq> {1, 2}" if "\<not> descends fuzz_parent f 4"
    using that by (auto simp: supporters_def pv split: if_splits)
  then have "support fuzz_parent r Prevote f \<le> 2" if "\<not> descends fuzz_parent f 4"
    using that weight_of_set_mono [of "supporters fuzz_parent r Prevote f" "{1, 2}" vs] by (simp add: support_def ok(2) vs(3))
  ultimately have "descends fuzz_parent f 4" by (cases "descends fuzz_parent f 4") (simp_all add: ok(2) vs(1))
  then have "f = 4" using f(2) fuzz.descends_antisym by blast
  then show "r_finalized r = Some (4, fuzz_num 4)" using f(1) by simp
qed

text \<open>C38. The commit a round builds for the block it has finalized, from the precommits of \<^verbatim>\<open>finalizing_precommits\<close>, need not
  validate, even if nobody equivocates: the voters may have precommitted a block above the prevote-GHOST of this round, and
  then the precommit-GHOST that the validation compares with the target is that block.\<close>

theorem finalized_commit_rejected:
  "\<exists>vs (r :: (nat, fhash, unit) round) pcs res. voter_set_new four_voters = Some (Some vs) \<and>
     reachable fuzz_ancestry fuzz_num vs 0 r \<and> (\<forall>p. equivs r p = {}) \<and> r_finalized r = Some (4, fuzz_num 4) \<and>
     finalizing_precommits fuzz_ancestry r = Some pcs \<and>
     validate_commit fuzz_ancestry \<lparr>cm_target_hash = 4, cm_target_number = fuzz_num 4, cm_precommits = pcs\<rparr> vs = Some (Inr res) \<and>
     \<not> cvr_valid res"
proof -
  obtain vs and r :: "(nat, fhash, unit) round" where vs: "voter_set_new four_voters = Some (Some vs)" "rw (vs_threshold vs) = 3" "faulty vs = 1"
      "\<forall>A. weight_of_set vs A = card (A \<inter> {1, 2, 3, 4})" "reachable fuzz_ancestry fuzz_num vs 0 r" "fresh fuzz_parent fuzz_num r"
      "view r Prevote = (\<lambda>v. if v = 3 then Some (4, False) else if v \<in> {1, 2} then Some (10, False) else None)"
      "view r Precommit = (\<lambda>v. if v \<in> {1, 2, 3} then Some (10, False) else None)"
    using split_round by (elim exE conjE) (rule that)
  note fin = split_finalized [OF vs(5,6,2,3,4,7,8)]
  obtain pcs where pcs: "finalizing_precommits fuzz_ancestry r = Some pcs"
      "\<forall>x s vid. \<lparr>sc_precommit = x, sc_signature = s, sc_id = vid\<rparr> \<in> set pcs \<longleftrightarrow>
         vid \<in> supporters fuzz_parent r Precommit 4 \<and> holds (r_precommit r) vid x s"
    using chain.finalizing_precommits_set [OF fuzz.chain_axioms reachable_trackers [OF vs(5)] fin(1)] by (elim exE conjE) (rule that)
  let ?c = "\<lparr>cm_target_hash = 4, cm_target_number = fuzz_num 4, cm_precommits = pcs\<rparr>"
  have all: "pc_target_hash (sc_precommit p) = 10 \<and> pc_target_number (sc_precommit p) = fuzz_num (pc_target_hash (sc_precommit p))"
    if "p \<in> set pcs" for p
  proof -
    have h: "sc_id p \<in> supporters fuzz_parent r Precommit 4" "holds (r_precommit r) (sc_id p) (sc_precommit p) (sc_signature p)"
      using pcs(2) that by (metis signed_precommit.surjective unit.exhaust)+
    have "view r Precommit (sc_id p) = Some (10, False)" using h(1) by (auto simp: supporters_def vs(8) split: if_splits)
    then show ?thesis using holds_view [OF h(2)] reachable_numbers [OF vs(5)] h(2) by blast
  qed
  then have num: "\<forall>p \<in> set (voter_precommits vs ?c). pc_target_number (sc_precommit p) = fuzz_num (pc_target_hash (sc_precommit p))"
    by (simp add: voter_precommits_def)
  obtain res where res: "validate_commit fuzz_ancestry ?c vs = Some (Inr res)"
      "cvr_valid res \<longrightarrow> (\<exists>m \<in> set (voter_precommits vs ?c). descends fuzz_parent (pc_target_hash (sc_precommit m)) (cm_target_hash ?c))"
    using chain.validate_commit_ok [OF fuzz.chain_axioms voter_set_new_ok [OF vs(1)] num] by blast
  have "\<not> descends fuzz_parent 10 4" using fuzz_descends_good [of 10 4] by (auto simp: fuzz_good_descendent_def)
  then have "\<not> cvr_valid res" using res(2) all by (auto simp: voter_precommits_def)
  then show ?thesis using vs(1,5) fin pcs(1) res(1) by blast
qed

end
