(* ===== verification/Voting_Commit.thy ===== *)
theory Voting_Commit
  imports Voting_Properties Commit_Properties
begin

text \<open>
  Importing a commit into the round of a voter (\<^verbatim>\<open>check_and_import_from_commit\<close>).
\<close>

section \<open>Precommits below the base\<close>

lemma imported_below:
  assumes "imported parent number tgt trk msg p r vid x s r' res" "vid \<in> voter_ids (cx_voters (r_context r))" "view r p vid = None"
    "\<not> descends parent (g_base (r_graph r)) (tgt x)"
  shows "\<exists>e. res = Inl e"
  using assms
proof cases
  case (equivocation v y u)
  then show ?thesis using rec_old [OF equivocation(3)] assms(3) by simp
qed (use assms in auto)

lemma imported_other:
  assumes "imported parent number tgt trk msg p r vid x s r' res" "vid' \<noteq> vid"
  shows "view r' p vid' = view r p vid'"
  using assms
proof cases
  case (equivocation v y u)
  then show ?thesis using rec_view [OF equivocation(3), of p] assms(2) by simp
next
  case (counted v)
  then show ?thesis using rec_view [OF counted(3), of p] assms(2) by simp
next
  case (refused v)
  then show ?thesis using rec_view [OF refused(3), of p] assms(2) by simp
qed auto

definition precommits_ok :: "('h \<Rightarrow> nat) \<Rightarrow> ('h, 's, 'i) signed_precommit list \<Rightarrow> bool" where
  "precommits_ok number ps \<longleftrightarrow> (\<forall>p \<in> set ps. pc_target_number (sc_precommit p) = number (pc_target_hash (sc_precommit p)))"

context chain
begin

lemma import_commit_precommits_fails:
  assumes anc: "env_ancestry env = ancestry" and low: "\<not> descends parent b (pc_target_hash (sc_precommit p))" "sc_id p \<in> voter_ids vs"
  shows "reachable ancestry number vs b (vr_votes self) \<Longrightarrow> view (vr_votes self) Precommit (sc_id p) = None \<Longrightarrow>
    precommits_ok number ps \<Longrightarrow> p \<in> set ps \<Longrightarrow> \<forall>q \<in> set ps. sc_id q = sc_id p \<longrightarrow> q = p \<Longrightarrow>
    \<exists>self' sh' e. import_commit_precommits env ps self sh = Some (self', sh', Inl e)"
proof (induction ps arbitrary: self sh)
  case (Cons q ps)
  have ok: "round_ok parent number (vr_votes self)" "cx_voters (r_context (vr_votes self)) = vs" "g_base (r_graph (vr_votes self)) = b"
    using reachable_ok [OF Cons.prems(1)] by auto
  have num: "pc_target_number (sc_precommit q) = number (pc_target_hash (sc_precommit q))" using Cons.prems(3) by (simp add: precommits_ok_def)
  obtain r' res where i: "import_precommit ancestry (vr_votes self) (sc_precommit q) (sc_id q) (sc_signature q) = Some (r', res)"
      "imported_precommit parent number (vr_votes self) (sc_id q) (sc_precommit q) (sc_signature q) r' res"
    using import_precommit_imported [OF ok(1) num] by blast
  show ?case
  proof (cases res)
    case (Inl e)
    then show ?thesis using i(1) by (simp add: anc)
  next
    case (Inr ir)
    have "q \<noteq> p" using imported_below [OF i(2)] Cons.prems(2) low ok Inr by auto
    then have ne: "sc_id p \<noteq> sc_id q" using Cons.prems(5) by auto
    let ?self = "self\<lparr>vr_votes := r'\<rparr>"
    let ?sh = "case ir_equivocation ir of None \<Rightarrow> sh | Some e \<Rightarrow> call (CallPrecommitEquivocation (r_round_number r') e) sh"
    have "reachable ancestry number vs b (vr_votes ?self)"
      using reachable.step [OF Cons.prems(1) round_step.precommit [where number = number, OF i(1) num]] by simp
    moreover have "view (vr_votes ?self) Precommit (sc_id p) = None" using imported_other [OF i(2) ne] Cons.prems(2) by simp
    ultimately have "\<exists>self' sh' e. import_commit_precommits env ps ?self ?sh = Some (self', sh', Inl e)"
      by (rule Cons.IH) (use Cons.prems(3,4,5) \<open>q \<noteq> p\<close> in \<open>auto simp: precommits_ok_def\<close>)
    then show ?thesis using i(1) Inr by (simp add: anc)
  qed
qed simp

end

text \<open>C35. A valid commit can make the import fail. The validation takes the lowest block of the commit for its base, but the round has its own base: if
  the commit contains a precommit, the only one of its voter there, of which the round knows none yet, for a block that is not above the base of the round, then importing
  the commit returns an error, which a vote that arrives as a message never does, although the commit is valid.\<close>

theorem commit_import_fails:
  fixes c :: "('h :: linorder, 's, 'i :: linorder) commit"
  assumes "chain (env_ancestry env) parent number" and "reachable (env_ancestry env) number vs b (vr_votes self)"
    and "validate_commit (env_ancestry env) c vs = Some (Inr res)" and "cvr_valid res"
    and "\<forall>p \<in> set (cm_precommits c). pc_target_number (sc_precommit p) = number (pc_target_hash (sc_precommit p))"
    and "p \<in> set (cm_precommits c)" and "\<forall>q \<in> set (cm_precommits c). sc_id q = sc_id p \<longrightarrow> q = p"
    and "sc_id p \<in> voter_ids vs" and "view (vr_votes self) Precommit (sc_id p) = None"
    and "\<not> descends parent b (pc_target_hash (sc_precommit p))"
  shows "\<exists>self' sh' e. check_and_import_from_commit env c self sh = Some (self', sh', Inl e)"
proof -
  have vs: "cx_voters (r_context (vr_votes self)) = vs" by (rule reachable_round(2) [OF assms(1,2)])
  have "precommits_ok number (cm_precommits c)" using assms(5) by (simp add: precommits_ok_def)
  from chain.import_commit_precommits_fails [OF assms(1) HOL.refl assms(10,8,2,9) this assms(6,7), of sh]
  show ?thesis using assms(3,4) by (auto simp: check_and_import_from_commit_def vs)
qed

definition low_commit :: "(fhash, unit, nat) commit" where
  "low_commit = \<lparr>cm_target_hash = 4, cm_target_number = fuzz_num 4, cm_precommits =
     map (\<lambda>(vid, t). \<lparr>sc_precommit = precommit_new t (fuzz_num t), sc_signature = (), sc_id = vid\<rparr>) [(1, 4), (2, 4), (3, 4), (4, 0)]\<rparr>"

lemma low_commit_valid:
  assumes vs: "voter_set_new four_voters = Some (Some vs)" "rw (vs_threshold vs) = 3" "voter_ids vs = {1, 2, 3, 4}"
    "\<forall>A. weight_of_set vs A = card (A \<inter> {1, 2, 3, 4})"
  shows "\<exists>res. validate_commit fuzz_ancestry low_commit vs = Some (Inr res) \<and> cvr_valid res"
proof -
  note ok = voter_set_new_ok [OF vs(1)]
  have all: "voter_precommits vs low_commit = cm_precommits low_commit"
    using voter_set_contains_iff [OF ok] vs(3) by (simp add: voter_precommits_def low_commit_def)
  have d: "descends fuzz_parent 0 4" by (rule fuzz_base_above) simp
  have view: "commit_view (cm_precommits low_commit) vid = (if vid \<in> {1, 2, 3} then Some (4, False) else if vid = 4 then Some (0, False) else None)" for vid
    by (simp add: commit_view_def low_commit_def precommit_new_def)
  have eq: "commit_equivocators vs low_commit = {}" by (auto simp: commit_equivocators_def all view split: if_splits)
  have sup: "commit_supporters fuzz_parent vs low_commit x \<subseteq> {4}" if "descends fuzz_parent 4 x" "4 \<noteq> x" for x
  proof -
    have "\<not> descends fuzz_parent x 4" using that fuzz.descends_antisym by blast
    then show ?thesis by (auto simp: commit_supporters_def all view split: if_splits)
  qed
  have "{1, 2, 3} \<subseteq> commit_supporters fuzz_parent vs low_commit 4" by (auto simp: commit_supporters_def all view)
  then have "3 \<le> weight_of_set vs (commit_supporters fuzz_parent vs low_commit 4)"
    using weight_of_set_mono [of "{1, 2, 3}" "commit_supporters fuzz_parent vs low_commit 4" vs] by (simp add: vs(4))
  moreover have "weight_of_set vs (commit_supporters fuzz_parent vs low_commit x) < 3" if "descends fuzz_parent 4 x" "4 \<noteq> x" for x
    using weight_of_set_mono [OF sup [OF that], of vs] by (simp add: vs(4))
  ultimately have "commit_justifies fuzz_parent fuzz_num vs low_commit"
    using d by (auto simp: commit_justifies_def all vs(2)) (auto simp: low_commit_def precommit_new_def)
  moreover have "\<forall>p \<in> set (voter_precommits vs low_commit). pc_target_number (sc_precommit p) = fuzz_num (pc_target_hash (sc_precommit p))"
    unfolding all by (auto simp: low_commit_def precommit_new_def)
  ultimately show ?thesis using chain.validate_commit_ok [OF fuzz.chain_axioms ok, of low_commit] by (auto simp: eq)
qed

theorem commit_import_fails_witness:
  "\<exists>vs (r :: (nat, fhash, unit) round) self' sh' e. reachable fuzz_ancestry fuzz_num vs 4 r \<and>
     check_and_import_from_commit (example_env []) low_commit (example_vr r Precommitted) genesis_shared = Some (self', sh', Inl e)"
proof -
  obtain vs where vs: "voter_set_new four_voters = Some (Some vs)" "rw (vs_threshold vs) = 3" "voter_ids vs = {1, 2, 3, 4}"
    "\<forall>A. weight_of_set vs A = card (A \<inter> {1, 2, 3, 4})" using four_voters_set by blast
  let ?r = "round_new \<lparr>rp_round_number = 1, rp_voters = vs, rp_base = (4, fuzz_num 4)\<rparr> :: (nat, fhash, unit) round"
  have r: "reachable fuzz_ancestry fuzz_num vs 4 ?r" by (rule reachable.start [OF vs(1)])
  obtain res where res: "validate_commit fuzz_ancestry low_commit vs = Some (Inr res)" "cvr_valid res" using low_commit_valid [OF vs] by blast
  have v: "view (vr_votes (example_vr ?r Precommitted)) Precommit 4 = None"
    using round_new_fields(3) [of ?r, OF HOL.refl, of Precommit] by simp
  have "\<not> descends fuzz_parent 4 0" using fuzz_descends_good [of 4 0] by (auto simp: fuzz_good_descendent_def)
  then have "\<exists>self' sh' e. check_and_import_from_commit (example_env []) low_commit (example_vr ?r Precommitted) genesis_shared = Some (self', sh', Inl e)"
    by (intro commit_import_fails [of _ fuzz_parent fuzz_num vs 4 _ _ res "\<lparr>sc_precommit = precommit_new 0 (fuzz_num 0), sc_signature = (), sc_id = 4\<rparr>"])
      (use fuzz.chain_axioms r res vs(3) v in \<open>auto simp: low_commit_def precommit_new_def\<close>)
  then show ?thesis using r by blast
qed

end
