(* ===== verification/Past_Rounds.thy ===== *)
theory Past_Rounds
  imports Voting_Round
begin

text \<open>
  The rounds that run in the background (\<^verbatim>\<open>src/voter/past_rounds.rs\<close>): a background round goes on handling votes, imports
  commits until its commit timer fires, and is dropped when its estimate is finalized. One definition per function of the source.

  The commits for a round travel through an unbounded channel whose sender is kept under the number of the round. The channels are
  a heap: a channel holds its queue, or nothing once its receiver is dropped, and then sending gives the commit back. The order in
  which \<^verbatim>\<open>FuturesUnordered\<close> polls the rounds is the business of that library: it is an argument, a list of
  positions. \<^verbatim>\<open>SelfReturningFuture\<close> only gives the polled round back with the result, as every definition here does.
\<close>

section \<open>Committing\<close>

record ('h, 's, 'i, 't) round_committer =
  rc_commit_timer :: 't
  rc_import_commits :: nat
  rc_last_commit :: "('h, 's, 'i) commit option"

definition round_committer_new :: "'t \<Rightarrow> nat \<Rightarrow> ('h, 's, 'i, 't) round_committer" where
  "round_committer_new commit_timer commit_receiver =
     \<lparr>rc_commit_timer = commit_timer, rc_import_commits = commit_receiver, rc_last_commit = None\<rparr>"

text \<open>\<^verbatim>\<open>import_commit\<close> changes only the last commit of the committer: it takes and returns it with the round.\<close>

definition rc_import_commit ::
  "('h :: linorder, 's, 'i :: linorder, 'e, 't, 'b, 'n, 'o) environment \<Rightarrow> ('h, 's, 'i) commit
     \<Rightarrow> ('h, 's, 'i, 't, 'b, 'n, 'o) voting_round \<times> ('h, 's, 'i) commit option \<Rightarrow> ('h, 's, 'i) shared
     \<Rightarrow> ((('h, 's, 'i, 't, 'b, 'n, 'o) voting_round \<times> ('h, 's, 'i) commit option) \<times> ('h, 's, 'i) shared \<times> ('e + bool)) option" where
  "rc_import_commit env commit vl sh =
     (case vl of (vr, last_commit) \<Rightarrow>
        if cm_target_number commit < (case r_finalized (vr_votes vr) of None \<Rightarrow> 0 | Some (_, n) \<Rightarrow> n)
        then Some ((vr, last_commit), sh, Inr True)
        else Option.bind (check_and_import_from_commit env commit vr sh) (\<lambda>(vr, sh, result).
          case result of
            Inl e \<Rightarrow> Some ((vr, last_commit), sh, Inl e)
          | Inr None \<Rightarrow> Some ((vr, last_commit), sh, Inr False)
          | Inr (Some _) \<Rightarrow> Some ((vr, Some commit), sh, Inr True)))"

text \<open>The loop over the queued commits; an invalid one is only logged.\<close>

fun rc_import_all ::
  "('h :: linorder, 's, 'i :: linorder, 'e, 't, 'b, 'n, 'o) environment \<Rightarrow> ('h, 's, 'i) commit list
     \<Rightarrow> ('h, 's, 'i, 't, 'b, 'n, 'o) voting_round \<times> ('h, 's, 'i) commit option \<Rightarrow> ('h, 's, 'i) shared
     \<Rightarrow> ((('h, 's, 'i, 't, 'b, 'n, 'o) voting_round \<times> ('h, 's, 'i) commit option) \<times> ('h, 's, 'i) shared \<times> ('e + unit)) option" where
  "rc_import_all env [] vl sh = Some (vl, sh, Inr ())"
| "rc_import_all env (c # cs) vl sh = and_then (rc_import_commit env c vl sh) (\<lambda>vl sh _. rc_import_all env cs vl sh)"

text \<open>\<^verbatim>\<open>commit\<close> on the queue of the committer: what it commits, once the timer has fired. The queue is empty afterwards.\<close>

definition rc_commit ::
  "('h :: linorder, 's, 'i :: linorder, 'e, 't, 'b, 'n, 'o) environment \<Rightarrow> ('h, 's, 'i, 't) round_committer \<Rightarrow> ('h, 's, 'i) commit list
     \<Rightarrow> ('h, 's, 'i, 't, 'b, 'n, 'o) voting_round \<Rightarrow> ('h, 's, 'i) shared
     \<Rightarrow> ((('h, 's, 'i, 't, 'b, 'n, 'o) voting_round \<times> ('h, 's, 'i, 't) round_committer) \<times> ('h, 's, 'i) shared
           \<times> ('e + ('h, 's, 'i) commit option poll)) option" where
  "rc_commit env self queue vr sh =
     Option.bind (rc_import_all env queue (vr, rc_last_commit self) sh) (\<lambda>((vr, last_commit), sh, result).
       Some (case result of
         Inl e \<Rightarrow> ((vr, self\<lparr>rc_last_commit := last_commit\<rparr>), sh, Inl e)
       | Inr _ \<Rightarrow>
           (case env_timer env (rc_commit_timer self) of
              Pending \<Rightarrow> ((vr, self\<lparr>rc_last_commit := last_commit\<rparr>), sh, Inr Pending)
            | Ready (Inl e) \<Rightarrow> ((vr, self\<lparr>rc_last_commit := last_commit\<rparr>), sh, Inl e)
            | Ready (Inr _) \<Rightarrow>
                ((vr, self\<lparr>rc_last_commit := None\<rparr>), sh, Inr (Ready
                  (case (last_commit, r_finalized (vr_votes vr)) of
                     (None, Some _) \<Rightarrow> vr_best_finalized vr
                   | (Some c, Some (_, finalized_number)) \<Rightarrow>
                       if cm_target_number c < finalized_number then vr_best_finalized vr else None
                   | _ \<Rightarrow> None))))))"

section \<open>Background rounds\<close>

record ('h, 's, 'i, 't, 'b, 'n, 'o) background_round =
  bg_inner :: "('h, 's, 'i, 't, 'b, 'n, 'o) voting_round"
  bg_finalized_number :: nat
  bg_round_committer :: "('h, 's, 'i, 't) round_committer option"

datatype ('h, 's, 'i) background_round_change = Concluded u64 | Committed "('h, 's, 'i) commit"

definition bg_round_number :: "('h, 's, 'i, 't, 'b, 'n, 'o) background_round \<Rightarrow> u64" where
  "bg_round_number self = r_round_number (vr_votes (bg_inner self))"

definition is_done :: "('h, 's, 'i, 't, 'b, 'n, 'o) background_round \<Rightarrow> bool" where
  "is_done self = (bg_round_committer self = None \<and>
     (case st_estimate (round_state (vr_votes (bg_inner self))) of None \<Rightarrow> True | Some x \<Rightarrow> snd x \<le> bg_finalized_number self))"

definition bg_update_finalized ::
  "('h, 's, 'i, 't, 'b, 'n, 'o) background_round \<Rightarrow> nat \<Rightarrow> ('h, 's, 'i, 't, 'b, 'n, 'o) background_round" where
  "bg_update_finalized self new_finalized = self\<lparr>bg_finalized_number := max (bg_finalized_number self) new_finalized\<rparr>"

type_synonym ('h, 's, 'i) channels = "('h, 's, 'i) commit list option list"

text \<open>\<^verbatim>\<open>poll\<close>: the committer is taken out for the call, and with it its end of the channel is dropped unless it is put back.\<close>

definition background_round_poll ::
  "('h :: linorder, 's, 'i :: linorder, 'e, 't, 'b, 'n, 'o) environment
     \<Rightarrow> ('h, 's, 'i, 't, 'b, 'n, 'o) background_round \<Rightarrow> ('h, 's, 'i) channels \<Rightarrow> ('h, 's, 'i) shared
     \<Rightarrow> ((('h, 's, 'i, 't, 'b, 'n, 'o) background_round \<times> ('h, 's, 'i) channels) \<times> ('h, 's, 'i) shared
           \<times> ('e + ('h, 's, 'i) background_round_change poll)) option" where
  "background_round_poll env self channels sh =
     Option.bind (voting_round_poll env (bg_inner self) sh) (\<lambda>(vr, sh, polled).
       let self = self\<lparr>bg_inner := vr\<rparr>;
           finish = (\<lambda>self channels sh. Some ((self, channels), sh,
             Inr (if is_done self then Ready (Concluded (bg_round_number self)) else Pending)))
       in case polled of
            Inl e \<Rightarrow> Some ((self, channels), sh, Inl e)
          | Inr _ \<Rightarrow>
              (case bg_round_committer self of
                 None \<Rightarrow> finish self channels sh
               | Some committer \<Rightarrow>
                   (let a = rc_import_commits committer;
                        queue = (case channels ! a of None \<Rightarrow> [] | Some q \<Rightarrow> q)
                    in Option.bind (rc_commit env committer queue (bg_inner self) sh) (\<lambda>((vr, committer), sh, committed).
                         let dropped = self\<lparr>bg_inner := vr, bg_round_committer := None\<rparr>
                         in case committed of
                              Inl e \<Rightarrow> Some ((dropped, channels[a := None]), sh, Inl e)
                            | Inr (Ready None) \<Rightarrow> finish dropped (channels[a := None]) sh
                            | Inr (Ready (Some commit)) \<Rightarrow> Some ((dropped, channels[a := None]), sh, Inr (Ready (Committed commit)))
                            | Inr Pending \<Rightarrow>
                                finish (self\<lparr>bg_inner := vr, bg_round_committer := Some committer\<rparr>) (channels[a := Some []]) sh))))"

section \<open>The past rounds\<close>

record ('h, 's, 'i, 't, 'b, 'n, 'o) past_rounds =
  pr_past_rounds :: "('h, 's, 'i, 't, 'b, 'n, 'o) background_round list"
  pr_commit_senders :: "u64 \<rightharpoonup> nat"
  pr_channels :: "('h, 's, 'i) channels"

definition past_rounds_new :: "('h, 's, 'i, 't, 'b, 'n, 'o) past_rounds" where
  "past_rounds_new = \<lparr>pr_past_rounds = [], pr_commit_senders = Map.empty, pr_channels = []\<rparr>"

definition past_rounds_push ::
  "('h, 's, 'i, 'e, 't, 'b, 'n, 'o) environment \<Rightarrow> ('h, 's, 'i, 't, 'b, 'n, 'o) past_rounds
     \<Rightarrow> ('h, 's, 'i, 't, 'b, 'n, 'o) voting_round \<Rightarrow> ('h, 's, 'i, 't, 'b, 'n, 'o) past_rounds" where
  "past_rounds_push env self vr =
     (let a = length (pr_channels self);
          background = \<lparr>bg_inner = vr, bg_finalized_number = 0,
            bg_round_committer = Some (round_committer_new (env_round_commit_timer env) a)\<rparr>
      in self\<lparr>pr_channels := pr_channels self @ [Some []],
              pr_past_rounds := pr_past_rounds self @ [background],
              pr_commit_senders := (pr_commit_senders self)(r_round_number (vr_votes vr) \<mapsto> a)\<rparr>)"

definition past_rounds_update_finalized ::
  "('h, 's, 'i, 't, 'b, 'n, 'o) past_rounds \<Rightarrow> nat \<Rightarrow> ('h, 's, 'i, 't, 'b, 'n, 'o) past_rounds" where
  "past_rounds_update_finalized self f_num =
     self\<lparr>pr_past_rounds := map (\<lambda>bg. bg_update_finalized bg f_num) (pr_past_rounds self)\<rparr>"

definition voting_rounds ::
  "('h, 's, 'i, 't, 'b, 'n, 'o) past_rounds \<Rightarrow> ('h, 's, 'i, 't, 'b, 'n, 'o) voting_round list" where
  "voting_rounds self = map bg_inner (pr_past_rounds self)"

definition past_rounds_import_commit ::
  "('h, 's, 'i, 't, 'b, 'n, 'o) past_rounds \<Rightarrow> u64 \<Rightarrow> ('h, 's, 'i) commit
     \<Rightarrow> ('h, 's, 'i, 't, 'b, 'n, 'o) past_rounds \<times> ('h, 's, 'i) commit option" where
  "past_rounds_import_commit self round_number commit =
     (case pr_commit_senders self round_number of
        None \<Rightarrow> (self, Some commit)
      | Some a \<Rightarrow>
          (case pr_channels self ! a of
             None \<Rightarrow> (self, Some commit)
           | Some queue \<Rightarrow> (self\<lparr>pr_channels := (pr_channels self)[a := Some (queue @ [commit])]\<rparr>, None)))"

definition remove_nth :: "nat \<Rightarrow> 'a list \<Rightarrow> 'a list" where
  "remove_nth i xs = take i xs @ drop (Suc i) xs"

text \<open>A round that is dropped takes its end of the channel with it.\<close>

definition bg_drop :: "('h, 's, 'i, 't, 'b, 'n, 'o) background_round \<Rightarrow> ('h, 's, 'i) channels \<Rightarrow> ('h, 's, 'i) channels" where
  "bg_drop self channels =
     (case bg_round_committer self of None \<Rightarrow> channels | Some committer \<Rightarrow> channels[rc_import_commits committer := None])"

text \<open>\<^verbatim>\<open>poll_next\<close>: the library polls the rounds at the positions \<open>order\<close> until one gives a commit or fails; what is left of
  the order is returned with the rounds.\<close>

fun past_rounds_poll_next ::
  "('h :: linorder, 's, 'i :: linorder, 'e, 't, 'b, 'n, 'o) environment \<Rightarrow> nat list
     \<Rightarrow> ('h, 's, 'i, 't, 'b, 'n, 'o) past_rounds \<Rightarrow> ('h, 's, 'i) shared
     \<Rightarrow> ((('h, 's, 'i, 't, 'b, 'n, 'o) past_rounds \<times> nat list) \<times> ('h, 's, 'i) shared
           \<times> ('e + (u64 \<times> ('h, 's, 'i) commit) option poll)) option" where
  "past_rounds_poll_next env order self sh =
     (if pr_past_rounds self = [] then Some ((self, order), sh, Inr (Ready None))
      else case order of
        [] \<Rightarrow> Some ((self, []), sh, Inr Pending)
      | i # order \<Rightarrow>
          if length (pr_past_rounds self) \<le> i then past_rounds_poll_next env order self sh
          else Option.bind (background_round_poll env (pr_past_rounds self ! i) (pr_channels self) sh) (\<lambda>((bg, channels), sh, polled).
            let others = remove_nth i (pr_past_rounds self)
            in case polled of
                 Inl e \<Rightarrow> Some ((self\<lparr>pr_past_rounds := others, pr_channels := bg_drop bg channels\<rparr>, order), sh, Inl e)
               | Inr Pending \<Rightarrow>
                   past_rounds_poll_next env order
                     (self\<lparr>pr_past_rounds := (pr_past_rounds self)[i := bg], pr_channels := channels\<rparr>) sh
               | Inr (Ready (Concluded number)) \<Rightarrow>
                   (let votes = vr_votes (bg_inner bg);
                        self = self\<lparr>pr_past_rounds := others, pr_channels := bg_drop bg channels\<rparr>;
                        sh = call (CallConcluded (r_round_number votes) (round_state votes) (round_base votes) (r_historical_votes votes)) sh
                    in case env_concluded env (r_round_number votes) (round_state votes) (round_base votes) (r_historical_votes votes) of
                         Inl e \<Rightarrow> Some ((self, order), sh, Inl e)
                       | Inr _ \<Rightarrow>
                           past_rounds_poll_next env order (self\<lparr>pr_commit_senders := (pr_commit_senders self)(number := None)\<rparr>) sh)
               | Inr (Ready (Committed commit)) \<Rightarrow>
                   Some ((self\<lparr>pr_past_rounds := others @ [bg], pr_channels := channels\<rparr>, order), sh,
                     Inr (Ready (Some (bg_round_number bg, commit))))))"

declare past_rounds_poll_next.simps [simp del]

section \<open>Polling the past rounds, case by case\<close>

definition concluded_call :: "('i, 'h, 's) round \<Rightarrow> ('h, 's, 'i) env_call" where
  "concluded_call votes = CallConcluded (r_round_number votes) (round_state votes) (round_base votes) (r_historical_votes votes)"

lemma past_rounds_poll_next_induct [consumes 1, case_names empty none skip fail wait refuse conclude commit]:
  assumes "past_rounds_poll_next env order self sh = Some y"
    and empty: "\<And>order self sh. pr_past_rounds self = [] \<Longrightarrow> P order self sh ((self, order), sh, Inr (Ready None))"
    and none: "\<And>self sh. P [] self sh ((self, []), sh, Inr Pending)"
    and skip: "\<And>i order self sh y. P order self sh y \<Longrightarrow> P (i # order) self sh y"
    and fail: "\<And>i order self sh bg ch sh' e. i < length (pr_past_rounds self) \<Longrightarrow>
      background_round_poll env (pr_past_rounds self ! i) (pr_channels self) sh = Some ((bg, ch), sh', Inl e) \<Longrightarrow>
      P (i # order) self sh ((self\<lparr>pr_past_rounds := remove_nth i (pr_past_rounds self), pr_channels := bg_drop bg ch\<rparr>, order), sh', Inl e)"
    and wait: "\<And>i order self sh bg ch sh' y. i < length (pr_past_rounds self) \<Longrightarrow>
      background_round_poll env (pr_past_rounds self ! i) (pr_channels self) sh = Some ((bg, ch), sh', Inr Pending) \<Longrightarrow>
      P order (self\<lparr>pr_past_rounds := (pr_past_rounds self)[i := bg], pr_channels := ch\<rparr>) sh' y \<Longrightarrow> P (i # order) self sh y"
    and refuse: "\<And>i order self sh bg ch sh' number e. i < length (pr_past_rounds self) \<Longrightarrow>
      background_round_poll env (pr_past_rounds self ! i) (pr_channels self) sh = Some ((bg, ch), sh', Inr (Ready (Concluded number))) \<Longrightarrow>
      P (i # order) self sh ((self\<lparr>pr_past_rounds := remove_nth i (pr_past_rounds self), pr_channels := bg_drop bg ch\<rparr>, order),
        call (concluded_call (vr_votes (bg_inner bg))) sh', Inl e)"
    and conclude: "\<And>i order self sh bg ch sh' number y. i < length (pr_past_rounds self) \<Longrightarrow>
      background_round_poll env (pr_past_rounds self ! i) (pr_channels self) sh = Some ((bg, ch), sh', Inr (Ready (Concluded number))) \<Longrightarrow>
      P order (self\<lparr>pr_past_rounds := remove_nth i (pr_past_rounds self), pr_channels := bg_drop bg ch,
          pr_commit_senders := (pr_commit_senders self)(number := None)\<rparr>) (call (concluded_call (vr_votes (bg_inner bg))) sh') y \<Longrightarrow> P (i # order) self sh y"
    and commit: "\<And>i order self sh bg ch sh' c. i < length (pr_past_rounds self) \<Longrightarrow>
      background_round_poll env (pr_past_rounds self ! i) (pr_channels self) sh = Some ((bg, ch), sh', Inr (Ready (Committed c))) \<Longrightarrow>
      P (i # order) self sh ((self\<lparr>pr_past_rounds := remove_nth i (pr_past_rounds self) @ [bg], pr_channels := ch\<rparr>, order), sh',
        Inr (Ready (Some (bg_round_number bg, c))))"
  shows "P order self sh y"
  using assms(1)
proof (induction order arbitrary: self sh)
  case Nil
  then show ?case using empty none by (auto simp: past_rounds_poll_next.simps [of env "[]"] split: if_split_asm)
next
  case (Cons i order)
  note eq = past_rounds_poll_next.simps [of env "i # order" self sh]
  consider "pr_past_rounds self = []" | "pr_past_rounds self \<noteq> []" "length (pr_past_rounds self) \<le> i"
    | "i < length (pr_past_rounds self)" by fastforce
  then show ?case
  proof cases
    case 1
    then show ?thesis using Cons.prems empty by (auto simp: eq)
  next
    case 2
    then show ?thesis using Cons.prems Cons.IH skip by (simp add: eq)
  next
    case 3
    then have ne: "pr_past_rounds self \<noteq> []" "\<not> length (pr_past_rounds self) \<le> i" by auto
    obtain bg ch sh' polled where b: "background_round_poll env (pr_past_rounds self ! i) (pr_channels self) sh = Some ((bg, ch), sh', polled)"
      using Cons.prems ne by (auto simp: eq bind_eq_Some_conv)
    note eq' = Cons.prems [unfolded eq, simplified ne b list.case if_False bind.bind_lunit prod.case Let_def, simplified]
    consider e where "polled = Inl e" | "polled = Inr Pending" | n where "polled = Inr (Ready (Concluded n))"
      | c where "polled = Inr (Ready (Committed c))"
      by (metis background_round_change.exhaust poll.exhaust sum.exhaust)
    then show ?thesis
    proof cases
      case (1 e)
      then show ?thesis using eq' fail [OF 3] b by auto
    next
      case 2
      then show ?thesis using eq' b by (intro wait [OF 3]) (auto intro: Cons.IH)
    next
      case (3 n)
      note i = \<open>i < length (pr_past_rounds self)\<close>
      show ?thesis
      proof (cases "env_concluded env (r_round_number (vr_votes (bg_inner bg))) (round_state (vr_votes (bg_inner bg)))
          (round_base (vr_votes (bg_inner bg))) (r_historical_votes (vr_votes (bg_inner bg)))")
        case (Inl e)
        then show ?thesis using eq' 3 refuse [OF i] b by (auto simp: concluded_call_def Let_def)
      next
        case (Inr u)
        then show ?thesis using eq' b 3 by (intro conclude [OF i]) (auto simp: concluded_call_def Let_def intro: Cons.IH)
      qed
    next
      case (4 c)
      then show ?thesis using eq' commit [OF 3] b by auto
    qed
  qed
qed

lemma past_rounds_poll_next_shorter:
  assumes "past_rounds_poll_next env order self sh = Some ((self', order'), sh', Inr (Ready (Some c)))"
  shows "length order' < length order"
proof -
  have "case y of ((_, order'), _, Inr (Ready (Some _))) \<Rightarrow> length order' < length order | _ \<Rightarrow> True"
    if "past_rounds_poll_next env order self sh = Some y" for y
    using that by (induction rule: past_rounds_poll_next_induct) (auto split: sum.split poll.split option.split)
  from this [OF assms] show ?thesis by simp
qed

end
