(* ===== verification/Background.thy ===== *)
theory Background
  imports Past_Rounds Voting_Commit "HOL-Library.Multiset"
begin

text \<open>
  Facts on the background rounds: what a poll of one of them does, which commits it gives out, and that the addresses of the
  channels stay valid.
\<close>

section \<open>Committing\<close>

lemma import_commit_precommits_steps:
  "import_commit_precommits env ps self sh = Some (self', sh', res) \<Longrightarrow> precommits_ok number ps \<Longrightarrow>
    round_steps (env_ancestry env) number (vr_votes self) (vr_votes self')"
proof (induction ps arbitrary: self sh)
  case (Cons p ps)
  obtain votes ires where i: "import_precommit (env_ancestry env) (vr_votes self) (sc_precommit p) (sc_id p) (sc_signature p) = Some (votes, ires)"
    using Cons.prems(1) by (auto simp: bind_eq_Some_conv)
  have step: "round_step (env_ancestry env) number (vr_votes self) votes"
    by (rule round_step.precommit [OF i]) (use Cons.prems(2) in \<open>simp add: precommits_ok_def\<close>)
  show ?case
  proof (cases ires)
    case (Inl e)
    then show ?thesis using Cons.prems(1) i step by auto
  next
    case (Inr ir)
    let ?sh = "case ir_equivocation ir of None \<Rightarrow> sh | Some e \<Rightarrow> call (CallPrecommitEquivocation (r_round_number votes) e) sh"
    have "import_commit_precommits env ps (self\<lparr>vr_votes := votes\<rparr>) ?sh = Some (self', sh', res)" using Cons.prems(1) i Inr by simp
    from Cons.IH [OF this] have "round_steps (env_ancestry env) number votes (vr_votes self')"
      using Cons.prems(2) by (simp add: precommits_ok_def)
    then show ?thesis using step by (rule converse_rtranclp_into_rtranclp [rotated])
  qed
qed simp

lemma check_and_import_steps:
  assumes "check_and_import_from_commit env c self sh = Some (self', sh', res)" and "precommits_ok number (cm_precommits c)"
  shows "round_steps (env_ancestry env) number (vr_votes self) (vr_votes self')"
proof -
  obtain v where v: "validate_commit (env_ancestry env) c (cx_voters (r_context (vr_votes self))) = Some v"
    using assms(1) by (auto simp: check_and_import_from_commit_def bind_eq_Some_conv)
  show ?thesis
    using assms v
    by (auto simp: check_and_import_from_commit_def split: sum.split_asm if_split_asm
        elim!: and_then_cases dest: import_commit_precommits_steps)
qed

text \<open>Importing a commit handles its precommits, or ignores a commit for a block below the finalized one.\<close>

lemma rc_import_commit_cases:
  assumes "rc_import_commit env commit (vr, lc) sh = Some ((vr', lc'), sh', res)"
  obtains (old) "vr' = vr" "lc' = lc" "sh' = sh" "res = Inr True"
      "cm_target_number commit < (case r_finalized (vr_votes vr) of None \<Rightarrow> 0 | Some (_, n) \<Rightarrow> n)"
  | (checked) r where "check_and_import_from_commit env commit vr sh = Some (vr', sh', r)"
      "lc' = (case r of Inr (Some _) \<Rightarrow> Some commit | _ \<Rightarrow> lc)"
      "res = (case r of Inl e \<Rightarrow> Inl e | Inr x \<Rightarrow> Inr (x \<noteq> None))"
proof (cases "cm_target_number commit < (case r_finalized (vr_votes vr) of None \<Rightarrow> 0 | Some (_, n) \<Rightarrow> n)")
  case True
  then show ?thesis using assms old by (simp add: rc_import_commit_def)
next
  case False
  then obtain x y r where "check_and_import_from_commit env commit vr sh = Some (x, y, r)"
    using assms by (auto simp: rc_import_commit_def bind_eq_Some_conv)
  then show ?thesis using assms False checked
    by (auto simp: rc_import_commit_def split: sum.split_asm option.split_asm)
qed

lemma rc_import_commit_facts:
  assumes "rc_import_commit env commit (vr, lc) sh = Some ((vr', lc'), sh', res)"
  shows "handles vr sh vr' sh'" "precommits_ok number (cm_precommits commit) \<Longrightarrow> round_steps (env_ancestry env) number (vr_votes vr) (vr_votes vr')"
  using assms by (cases rule: rc_import_commit_cases; auto dest: check_and_import_handles check_and_import_steps)+

lemma rc_import_all_facts:
  assumes "rc_import_all env cs (vr, lc) sh = Some ((vr', lc'), sh', res)"
  shows "handles vr sh vr' sh'"
    "\<forall>c \<in> set cs. precommits_ok number (cm_precommits c) \<Longrightarrow> round_steps (env_ancestry env) number (vr_votes vr) (vr_votes vr')"
proof -
  have "handles vr sh vr' sh' \<and> ((\<forall>c \<in> set cs. precommits_ok number (cm_precommits c)) \<longrightarrow>
      round_steps (env_ancestry env) number (vr_votes vr) (vr_votes vr'))"
    using assms
  proof (induction cs arbitrary: vr lc sh)
    case (Cons c cs)
    from Cons.prems [unfolded rc_import_all.simps] show ?case
    proof (cases rule: and_then_cases)
      case (1 e)
      then show ?thesis using rc_import_commit_facts [OF 1(1)] by auto
    next
      case (2 vl sh1 a)
      obtain vr1 lc1 where vl: "vl = (vr1, lc1)" by fastforce
      note f = rc_import_commit_facts [OF 2(1) [unfolded vl]]
      note IH = Cons.IH [OF 2(2) [unfolded vl]]
      have "handles vr sh vr' sh'" using handles_trans [OF f(1)] IH by blast
      moreover have "round_steps (env_ancestry env) number (vr_votes vr) (vr_votes vr')"
        if "\<forall>c \<in> set (c # cs). precommits_ok number (cm_precommits c)"
        using rtranclp_trans [OF f(2) [of number]] IH that by simp
      ultimately show ?thesis by simp
    qed
  qed simp
  then show "handles vr sh vr' sh'"
    "\<forall>c \<in> set cs. precommits_ok number (cm_precommits c) \<Longrightarrow> round_steps (env_ancestry env) number (vr_votes vr) (vr_votes vr')"
    by simp_all
qed

text \<open>What the committer answers once its timer has fired: the commit of the round, unless one for at least the same height has been
  imported.\<close>

definition commit_to_send :: "('h, 's, 'i, 't, 'b, 'n, 'o) voting_round \<Rightarrow> ('h, 's, 'i) commit option \<Rightarrow> ('h, 's, 'i) commit option" where
  "commit_to_send vr lc =
     (case r_finalized (vr_votes vr) of
        None \<Rightarrow> None
      | Some (_, n) \<Rightarrow> if (case lc of None \<Rightarrow> True | Some c \<Rightarrow> cm_target_number c < n) then vr_best_finalized vr else None)"

lemma rc_commit_cases:
  assumes "rc_commit env c queue vr sh = Some ((vr', c'), sh', res)"
  obtains (failed) lc e where "rc_import_all env queue (vr, rc_last_commit c) sh = Some ((vr', lc), sh', Inl e)" "res = Inl e"
      "c' = c\<lparr>rc_last_commit := lc\<rparr>"
  | (timer) lc e where "rc_import_all env queue (vr, rc_last_commit c) sh = Some ((vr', lc), sh', Inr ())" "res = Inl e"
      "c' = c\<lparr>rc_last_commit := lc\<rparr>"
  | (waiting) lc where "rc_import_all env queue (vr, rc_last_commit c) sh = Some ((vr', lc), sh', Inr ())" "res = Inr Pending"
      "c' = c\<lparr>rc_last_commit := lc\<rparr>"
  | (fired) lc where "rc_import_all env queue (vr, rc_last_commit c) sh = Some ((vr', lc), sh', Inr ())"
      "res = Inr (Ready (commit_to_send vr' lc))" "env_timer env (rc_commit_timer c) = Ready (Inr ())" "c' = c\<lparr>rc_last_commit := None\<rparr>"
proof -
  obtain x lc y r where i: "rc_import_all env queue (vr, rc_last_commit c) sh = Some ((x, lc), y, r)"
    using assms by (auto simp: rc_commit_def bind_eq_Some_conv)
  have v: "x = vr'" "y = sh'" using assms i by (auto simp: rc_commit_def split: sum.split_asm poll.split_asm)
  note i' = i [unfolded v]
  have send: "(case (lc, r_finalized (vr_votes vr')) of (None, Some _) \<Rightarrow> vr_best_finalized vr'
      | (Some c, Some (_, finalized_number)) \<Rightarrow> if cm_target_number c < finalized_number then vr_best_finalized vr' else None
      | _ \<Rightarrow> None) = commit_to_send vr' lc"
    by (auto simp: commit_to_send_def split: option.splits)
  show ?thesis
  proof (cases r)
    case (Inl e)
    then show ?thesis using assms i' failed by (simp add: rc_commit_def)
  next
    case (Inr u)
    then have i'': "rc_import_all env queue (vr, rc_last_commit c) sh = Some ((vr', lc), sh', Inr ())" using i' by simp
    show ?thesis
    proof (cases "env_timer env (rc_commit_timer c)")
      case Pending
      then show ?thesis using assms i'' waiting by (simp add: rc_commit_def)
    next
      case (Ready x)
      then show ?thesis using assms i'' timer fired send by (cases x) (auto simp: rc_commit_def)
    qed
  qed
qed

lemma rc_commit_facts:
  assumes "rc_commit env c queue vr sh = Some ((vr', c'), sh', res)"
  shows "handles vr sh vr' sh'" "rc_import_commits c' = rc_import_commits c"
    "\<forall>c \<in> set queue. precommits_ok number (cm_precommits c) \<Longrightarrow> round_steps (env_ancestry env) number (vr_votes vr) (vr_votes vr')"
  using assms by (cases rule: rc_commit_cases; auto dest: rc_import_all_facts)+

section \<open>A poll of a background round\<close>

definition bg_queue :: "('h, 's, 'i, 't) round_committer \<Rightarrow> ('h, 's, 'i) channels \<Rightarrow> ('h, 's, 'i) commit list" where
  "bg_queue c channels = (case channels ! rc_import_commits c of None \<Rightarrow> [] | Some q \<Rightarrow> q)"

definition bg_outcome :: "('h, 's, 'i, 't, 'b, 'n, 'o) background_round \<Rightarrow> 'e + ('h, 's, 'i) background_round_change poll" where
  "bg_outcome self = Inr (if is_done self then Ready (Concluded (bg_round_number self)) else Pending)"

lemma background_round_poll_cases:
  assumes "background_round_poll env self ch sh = Some ((self', ch'), sh', res)"
  obtains (failed) vr e where "voting_round_poll env (bg_inner self) sh = Some (vr, sh', Inl e)" "res = Inl e"
      "self' = self\<lparr>bg_inner := vr\<rparr>" "ch' = ch"
  | (free) vr p where "voting_round_poll env (bg_inner self) sh = Some (vr, sh', Inr p)" "bg_round_committer self = None"
      "self' = self\<lparr>bg_inner := vr\<rparr>" "ch' = ch" "res = bg_outcome self'"
  | (broken) vr sh1 p c vr' c' e where "voting_round_poll env (bg_inner self) sh = Some (vr, sh1, Inr p)" "bg_round_committer self = Some c"
      "rc_commit env c (bg_queue c ch) vr sh1 = Some ((vr', c'), sh', Inl e)" "res = Inl e"
      "self' = self\<lparr>bg_inner := vr', bg_round_committer := None\<rparr>" "ch' = ch[rc_import_commits c := None]"
  | (wait) vr sh1 p c vr' c' where "voting_round_poll env (bg_inner self) sh = Some (vr, sh1, Inr p)" "bg_round_committer self = Some c"
      "rc_commit env c (bg_queue c ch) vr sh1 = Some ((vr', c'), sh', Inr Pending)"
      "self' = self\<lparr>bg_inner := vr', bg_round_committer := Some c'\<rparr>" "ch' = ch[rc_import_commits c := Some []]" "res = Inr Pending"
  | (silent) vr sh1 p c vr' c' where "voting_round_poll env (bg_inner self) sh = Some (vr, sh1, Inr p)" "bg_round_committer self = Some c"
      "rc_commit env c (bg_queue c ch) vr sh1 = Some ((vr', c'), sh', Inr (Ready None))"
      "self' = self\<lparr>bg_inner := vr', bg_round_committer := None\<rparr>" "ch' = ch[rc_import_commits c := None]" "res = bg_outcome self'"
  | (commit) vr sh1 p c vr' c' commit where "voting_round_poll env (bg_inner self) sh = Some (vr, sh1, Inr p)" "bg_round_committer self = Some c"
      "rc_commit env c (bg_queue c ch) vr sh1 = Some ((vr', c'), sh', Inr (Ready (Some commit)))"
      "self' = self\<lparr>bg_inner := vr', bg_round_committer := None\<rparr>" "ch' = ch[rc_import_commits c := None]"
      "res = Inr (Ready (Committed commit))"
proof -
  obtain vr sh1 polled where p: "voting_round_poll env (bg_inner self) sh = Some (vr, sh1, polled)"
    using assms by (auto simp: background_round_poll_def bind_eq_Some_conv)
  note unf = background_round_poll_def Let_def bg_outcome_def
  show ?thesis
  proof (cases polled)
    case (Inl e)
    then show ?thesis using assms p failed by (simp add: unf)
  next
    case (Inr q)
    show ?thesis
    proof (cases "bg_round_committer self")
      case None
      then show ?thesis using assms p Inr free [OF _ None] by (auto simp: unf)
    next
      case (Some c)
      then obtain vr' c' sh2 committed where r: "rc_commit env c (bg_queue c ch) vr sh1 = Some ((vr', c'), sh2, committed)"
        using assms p Inr by (auto simp: unf bg_queue_def bind_eq_Some_conv)
      have p': "voting_round_poll env (bg_inner self) sh = Some (vr, sh1, Inr q)" using p Inr by simp
      note unf' = background_round_poll_def Let_def p' Some r [unfolded bg_queue_def]
      have "sh2 = sh'" using assms by (auto simp: unf' split: sum.split_asm poll.split_asm option.split_asm)
      note r' = r [unfolded this]
      show ?thesis
      proof (cases committed)
        case (Inl e)
        then show ?thesis using assms by (intro broken [OF p' Some r' [unfolded Inl]]) (simp_all add: unf')
      next
        case committed: (Inr x)
        show ?thesis
        proof (cases x)
          case Pending
          then show ?thesis using assms by (intro wait [OF p' Some r' [unfolded committed Pending]]) (simp_all add: unf' committed is_done_def)
        next
          case (Ready y)
          show ?thesis
          proof (cases y)
            case None
            then show ?thesis using assms
              by (intro silent [OF p' Some r' [unfolded committed Ready None]]) (auto simp: unf' committed Ready bg_outcome_def)
          next
            case (Some z)
            then show ?thesis using assms
              by (intro commit [OF p' \<open>bg_round_committer self = Some c\<close> r' [unfolded committed Ready Some]]) (simp_all add: unf' committed Ready)
          qed
        qed
      qed
    qed
  qed
qed

section \<open>Channels\<close>

definition bg_address :: "('h, 's, 'i, 't, 'b, 'n, 'o) background_round \<Rightarrow> nat option" where
  "bg_address bg = map_option rc_import_commits (bg_round_committer bg)"

text \<open>Every committer has an open channel of its own.\<close>

definition open_channels :: "('h, 's, 'i, 't, 'b, 'n, 'o) background_round multiset \<Rightarrow> ('h, 's, 'i) channels \<Rightarrow> bool" where
  "open_channels M ch \<longleftrightarrow> (\<forall>bg \<in># M. \<forall>a. bg_address bg = Some a \<longrightarrow> a < length ch \<and> ch ! a \<noteq> None) \<and>
     (\<forall>a. count (image_mset bg_address M) (Some a) \<le> 1)"

lemma open_channelsD:
  assumes "open_channels (add_mset bg M) ch"
  shows "open_channels M ch" "\<And>a. bg_address bg = Some a \<Longrightarrow> a < length ch \<and> ch ! a \<noteq> None"
    "\<And>a x. bg_address bg = Some a \<Longrightarrow> x \<in># M \<Longrightarrow> bg_address x \<noteq> Some a"
proof -
  have c: "count (image_mset bg_address (add_mset bg M)) (Some a) \<le> 1" for a using assms by (simp add: open_channels_def)
  show "open_channels M ch" unfolding open_channels_def
  proof (intro conjI allI)
    show "count (image_mset bg_address M) (Some a) \<le> 1" for a using c [of a] by (simp split: if_splits)
  qed (use assms in \<open>simp add: open_channels_def\<close>)
  show "a < length ch \<and> ch ! a \<noteq> None" if "bg_address bg = Some a" for a using assms that by (simp add: open_channels_def)
  show "bg_address x \<noteq> Some a" if "bg_address bg = Some a" "x \<in># M" for a x
  proof
    assume "bg_address x = Some a"
    then have "Some a \<in># image_mset bg_address M" using that(2) by force
    then show False using c [of a] that(1) by (simp add: count_eq_zero_iff)
  qed
qed

lemma open_channels_other:
  assumes "open_channels M ch" "\<And>x. x \<in># M \<Longrightarrow> bg_address x \<noteq> Some a"
  shows "open_channels M (ch[a := v])"
  unfolding open_channels_def
proof (intro conjI ballI allI impI)
  fix bg a' assume bg: "bg \<in># M" "bg_address bg = Some a'"
  then show "a' < length (ch[a := v])" "(ch[a := v]) ! a' \<noteq> None"
    using assms(1) assms(2) [OF bg(1)] by (auto simp: open_channels_def)
qed (use assms(1) in \<open>simp add: open_channels_def\<close>)

lemma open_channels_add:
  assumes "open_channels M ch" "\<And>a. bg_address bg = Some a \<Longrightarrow> a < length ch \<and> ch ! a \<noteq> None \<and> (\<forall>x \<in># M. bg_address x \<noteq> Some a)"
  shows "open_channels (add_mset bg M) ch"
  unfolding open_channels_def
proof (intro conjI allI)
  fix a
  have "count (image_mset bg_address M) (Some a) \<le> 1" using assms(1) by (simp add: open_channels_def)
  moreover have "count (image_mset bg_address M) (Some a) = 0" if "bg_address bg = Some a"
    using assms(2) [OF that] by (auto simp: count_eq_zero_iff)
  ultimately show "count (image_mset bg_address (add_mset bg M)) (Some a) \<le> 1" by simp
qed (use assms in \<open>auto simp: open_channels_def\<close>)

lemma open_channels_extend: "open_channels M ch \<Longrightarrow> open_channels M (ch @ ch')"
  by (auto simp: open_channels_def nth_append)

lemma bg_drop_None: "bg_address bg = None \<Longrightarrow> bg_drop bg ch = ch"
  by (auto simp: bg_address_def bg_drop_def split: option.splits)

lemma bg_drop_Some: "bg_address bg = Some a \<Longrightarrow> bg_drop bg ch = ch[a := None]"
  by (auto simp: bg_address_def bg_drop_def split: option.splits)

text \<open>What a poll of a background round does to the channels.\<close>

lemma background_round_poll_channels:
  assumes "background_round_poll env self ch sh = Some ((self', ch'), sh', res)"
  shows "(bg_address self' = bg_address self \<and> ch' = ch) \<or>
    (\<exists>a. bg_address self = Some a \<and> (bg_address self' = None \<and> ch' = ch[a := None] \<or> bg_address self' = Some a \<and> ch' = ch[a := Some []]))"
    and "bg_finalized_number self' = bg_finalized_number self"
  using assms by (cases rule: background_round_poll_cases; auto simp: bg_address_def dest: rc_commit_facts(2))+

lemma background_round_poll_open:
  assumes "background_round_poll env bg ch sh = Some ((bg', ch'), sh', res)" and o: "open_channels (add_mset bg M) ch"
  shows "open_channels (add_mset bg' M) ch'" "open_channels M (bg_drop bg' ch')"
proof -
  note d = open_channelsD [OF o]
  consider (same) "bg_address bg' = bg_address bg" "ch' = ch"
    | (closed) a where "bg_address bg = Some a" "bg_address bg' = None" "ch' = ch[a := None]"
    | (emptied) a where "bg_address bg = Some a" "bg_address bg' = Some a" "ch' = ch[a := Some []]"
    using background_round_poll_channels(1) [OF assms(1)] by blast
  then have *: "open_channels M ch' \<and> (\<forall>a. bg_address bg' = Some a \<longrightarrow> a < length ch' \<and> ch' ! a \<noteq> None \<and> (\<forall>x \<in># M. bg_address x \<noteq> Some a))"
  proof cases
    case same
    then show ?thesis using d by auto
  next
    case (closed a)
    then show ?thesis using open_channels_other [OF d(1)] d(3) by auto
  next
    case (emptied a)
    then show ?thesis using open_channels_other [OF d(1)] d(2,3) by auto
  qed
  then show "open_channels (add_mset bg' M) ch'" by (intro open_channels_add) blast+
  show "open_channels M (bg_drop bg' ch')"
  proof (cases "bg_address bg'")
    case None
    then show ?thesis using * by (simp add: bg_drop_None)
  next
    case (Some a)
    then show ?thesis using * open_channels_other [of M ch' a] by (simp add: bg_drop_Some)
  qed
qed

lemma mset_remove_nth: "i < length xs \<Longrightarrow> mset xs = add_mset (xs ! i) (mset (remove_nth i xs))"
  by (metis Cons_nth_drop_Suc id_take_nth_drop mset.simps(2) mset_append remove_nth_def union_mset_add_mset_right)

lemma mset_update_nth: "i < length xs \<Longrightarrow> mset (xs[i := x]) = add_mset x (mset (remove_nth i xs))"
  by (simp add: remove_nth_def upd_conv_take_nth_drop)

lemma set_remove_nth: "set (remove_nth i xs) \<subseteq> set xs"
  by (auto simp: remove_nth_def dest: in_set_takeD in_set_dropD)

text \<open>The well-formedness of the past rounds: besides, the senders have addresses of channels.\<close>

definition past_rounds_ok :: "('h, 's, 'i, 't, 'b, 'n, 'o) past_rounds \<Rightarrow> bool" where
  "past_rounds_ok pr \<longleftrightarrow> open_channels (mset (pr_past_rounds pr)) (pr_channels pr) \<and>
     (\<forall>n a. pr_commit_senders pr n = Some a \<longrightarrow> a < length (pr_channels pr))"

lemma past_rounds_ok_new [simp]: "past_rounds_ok past_rounds_new"
  by (simp add: past_rounds_ok_def past_rounds_new_def open_channels_def)

lemma past_rounds_ok_push:
  assumes "past_rounds_ok pr"
  shows "past_rounds_ok (past_rounds_push env pr vr)"
proof -
  have o: "open_channels (mset (pr_past_rounds pr)) (pr_channels pr)" using assms by (simp add: past_rounds_ok_def)
  then have "bg_address x \<noteq> Some (length (pr_channels pr))" if "x \<in> set (pr_past_rounds pr)" for x
    using that by (auto simp: open_channels_def)
  then show ?thesis
    using assms open_channels_extend [OF o, of "[Some []]"]
    by (auto simp: past_rounds_ok_def past_rounds_push_def Let_def bg_address_def round_committer_new_def less_Suc_eq
        intro!: open_channels_add split: if_splits)
qed

lemma past_rounds_ok_update:
  assumes "past_rounds_ok pr"
  shows "past_rounds_ok (past_rounds_update_finalized pr n)"
proof -
  have "bg_address (bg_update_finalized bg n) = bg_address bg" for bg :: "('a, 'b, 'c, 'd, 'e, 'f, 'g) background_round"
    by (simp add: bg_address_def bg_update_finalized_def)
  then show ?thesis using assms
    by (simp add: past_rounds_ok_def past_rounds_update_finalized_def open_channels_def image_mset.compositionality comp_def)
qed

lemma past_rounds_ok_import:
  assumes "past_rounds_ok pr" "past_rounds_import_commit pr n c = (pr', r)"
  shows "past_rounds_ok pr'"
proof (cases "pr_commit_senders pr n")
  case None
  then show ?thesis using assms by (simp add: past_rounds_import_commit_def)
next
  case (Some a)
  show ?thesis
  proof (cases "pr_channels pr ! a")
    case None
    then show ?thesis using assms Some by (simp add: past_rounds_import_commit_def)
  next
    case (Some q)
    then have "pr' = pr\<lparr>pr_channels := (pr_channels pr)[a := Some (q @ [c])]\<rparr>"
      using assms(2) \<open>pr_commit_senders pr n = Some a\<close> by (simp add: past_rounds_import_commit_def)
    moreover have "(pr_channels pr)[a := Some (q @ [c])] ! k \<noteq> None" if "pr_channels pr ! k \<noteq> None" for k
      using that by (cases "k = a \<and> a < length (pr_channels pr)") (auto simp: nth_list_update list_update_beyond)
    ultimately show ?thesis using assms(1) unfolding past_rounds_ok_def open_channels_def by simp
  qed
qed

lemma bg_drop_length [simp]: "length (bg_drop bg ch) = length ch"
  by (simp add: bg_drop_def split: option.split)

lemma background_round_poll_length:
  "background_round_poll env bg ch sh = Some ((bg', ch'), sh', res) \<Longrightarrow> length ch' = length ch"
  using background_round_poll_channels(1) by fastforce

lemma past_rounds_ok_poll_next:
  assumes "past_rounds_poll_next env order pr sh = Some y"
  shows "past_rounds_ok pr \<longrightarrow> past_rounds_ok (fst (fst y))"
  using assms
proof (induction rule: past_rounds_poll_next_induct)
  case (fail i order self sh bg ch sh' e)
  then show ?case using background_round_poll_open(2) [OF fail(2)] mset_remove_nth [OF fail(1)] background_round_poll_length [OF fail(2)]
    by (auto simp: past_rounds_ok_def)
next
  case (wait i order self sh bg ch sh' y)
  then show ?case using background_round_poll_open(1) [OF wait(2)] mset_remove_nth [OF wait(1)] mset_update_nth [OF wait(1)]
      background_round_poll_length [OF wait(2)]
    by (auto simp: past_rounds_ok_def)
next
  case (refuse i order self sh bg ch sh' number e)
  then show ?case using background_round_poll_open(2) [OF refuse(2)] mset_remove_nth [OF refuse(1)] background_round_poll_length [OF refuse(2)]
    by (auto simp: past_rounds_ok_def)
next
  case (conclude i order self sh bg ch sh' number y)
  then show ?case using background_round_poll_open(2) [OF conclude(2)] mset_remove_nth [OF conclude(1)] background_round_poll_length [OF conclude(2)]
    by (auto simp: past_rounds_ok_def)
next
  case (commit i order self sh bg ch sh' c)
  then show ?case using background_round_poll_open(1) [OF commit(2)] mset_remove_nth [OF commit(1)] background_round_poll_length [OF commit(2)]
    by (auto simp: past_rounds_ok_def)
qed simp_all

end
