(* ===== verification/Voter_Spec.thy ===== *)
theory Voter_Spec
  imports Background
begin

text \<open>
  An abstract voter: a multiset of rounds that vote and announce, the number of the best round, the number of the last finalized
  block, the notifications that rounds have sent and the log of calls. It forgets streams, channels, timers, bridged states and the
  order in which things are polled. Its invariants hold for every run, and the voter refines it.
\<close>

section \<open>The machine\<close>

record ('h, 's, 'i, 't, 'b, 'n, 'o) voter_spec =
  av_rounds :: "('h, 's, 'i, 't, 'b, 'n, 'o) voting_round multiset"
  av_best :: u64
  av_finalized :: nat
  av_notified :: "('h, 's, 'i) finalized_notification set"
  av_calls :: "('h, 's, 'i) env_call list"

definition completed_call :: "('i, 'h, 's) round \<Rightarrow> ('h, 's, 'i) env_call" where
  "completed_call votes = CallCompleted (r_round_number votes) (round_state votes) (round_base votes) (r_historical_votes votes)"

definition moves ::
  "('h, 's, 'i, 't, 'b, 'n, 'o) voting_round \<Rightarrow> ('h, 's, 'i) env_call list \<Rightarrow> ('h, 's, 'i, 't, 'b, 'n, 'o) voting_round \<Rightarrow> bool" where
  "moves vr cs vr' \<longleftrightarrow> (\<exists>sh sh'. casts vr sh vr' sh' \<and> sh_calls sh' = sh_calls sh @ cs)"

text \<open>A round that was created for voting, and one that was created as completed.\<close>

definition started :: "('h, 's, 'i, 't, 'b, 'n, 'o) voting_round \<Rightarrow> bool" where
  "started vr \<longleftrightarrow> (\<exists>t t'. vr_state vr = Some (Start t t'))"

definition silent :: "('h, 's, 'i, 't, 'b, 'n, 'o) voting_round \<Rightarrow> bool" where
  "silent vr \<longleftrightarrow> vr_voting vr = VotingNo \<and> vr_state vr = None"

definition sound_votes ::
  "('h \<Rightarrow> 'h \<Rightarrow> error + 'h list) \<Rightarrow> ('h \<Rightarrow> nat) \<Rightarrow> ('i :: linorder) voter_set
     \<Rightarrow> ('h :: linorder, 's, 'i, 't, 'b, 'n, 'o) voting_round \<Rightarrow> bool" where
  "sound_votes ancestry number vs vr \<longleftrightarrow> (\<exists>b. reachable ancestry number vs b (vr_votes vr))"

definition valid_commit ::
  "('h \<Rightarrow> 'h \<Rightarrow> error + 'h list) \<Rightarrow> ('h \<Rightarrow> nat) \<Rightarrow> ('i :: linorder) voter_set \<Rightarrow> ('h :: linorder, 's, 'i) commit \<Rightarrow> bool" where
  "valid_commit ancestry number vs c \<longleftrightarrow> precommits_ok number (cm_precommits c) \<and>
     (\<exists>res. validate_commit ancestry c vs = Some (Inr res) \<and> cvr_valid res)"

text \<open>What a round with these votes announces.\<close>

definition announces ::
  "('h \<Rightarrow> 'h \<Rightarrow> error + 'h list) \<Rightarrow> ('i :: linorder, 'h :: linorder, 's) round \<Rightarrow> ('h, 's, 'i) finalized_notification \<Rightarrow> bool" where
  "announces ancestry r x \<longleftrightarrow> (case x of (f, n, k, c) \<Rightarrow> r_round_number r = k \<and> r_completable r \<and> r_finalized r = Some (f, n) \<and>
     cm_target_hash c = f \<and> cm_target_number c = n \<and> finalizing_precommits ancestry r = Some (cm_precommits c))"

text \<open>The estimate of a round is at or below the last finalized block, or there is none.\<close>

definition estimate_final :: "'h state \<Rightarrow> nat \<Rightarrow> bool" where
  "estimate_final st n \<longleftrightarrow> (case st_estimate st of None \<Rightarrow> True | Some e \<Rightarrow> snd e \<le> n)"

lemma estimate_final_mono: "estimate_final st m \<Longrightarrow> m \<le> n \<Longrightarrow> estimate_final st n"
  by (auto simp: estimate_final_def split: option.splits)

inductive voter_step ::
  "('h \<Rightarrow> 'h \<Rightarrow> error + 'h list) \<Rightarrow> ('h \<Rightarrow> nat) \<Rightarrow> ('i :: linorder) voter_set
     \<Rightarrow> ('h :: linorder, 's, 'i, 't, 'b, 'n, 'o) voter_spec \<Rightarrow> ('h, 's, 'i, 't, 'b, 'n, 'o) voter_spec \<Rightarrow> bool"
  for ancestry number vs where
  vote: "av_rounds a = add_mset vr M \<Longrightarrow> moves vr cs vr' \<Longrightarrow> round_steps ancestry number (vr_votes vr) (vr_votes vr') \<Longrightarrow>
    voter_step ancestry number vs a (a\<lparr>av_rounds := add_mset vr' M, av_calls := av_calls a @ cs\<rparr>)"
| announce: "vr \<in># av_rounds a \<Longrightarrow> announces ancestry (vr_votes vr) x \<Longrightarrow>
    voter_step ancestry number vs a (a\<lparr>av_notified := insert x (av_notified a)\<rparr>)"
| finalize: "av_finalized a < n \<Longrightarrow>
    (h, n, k, c) \<in> av_notified a \<or> (h, n) = (cm_target_hash c, cm_target_number c) \<and> valid_commit ancestry number vs c \<Longrightarrow>
    voter_step ancestry number vs a (a\<lparr>av_finalized := n, av_calls := av_calls a @ [CallFinalizeBlock h n k c]\<rparr>)"
| conclude: "av_rounds a = add_mset vr M \<Longrightarrow>
    estimate_final (round_state (vr_votes vr)) (av_finalized a) \<Longrightarrow>
    voter_step ancestry number vs a (a\<lparr>av_rounds := M, av_calls := av_calls a @ [concluded_call (vr_votes vr)]\<rparr>)"
| lose: "av_rounds a = add_mset vr M \<Longrightarrow> voter_step ancestry number vs a (a\<lparr>av_rounds := M\<rparr>)"
| join: "silent vr \<Longrightarrow> sound_votes ancestry number vs vr \<Longrightarrow>
    voter_step ancestry number vs a (a\<lparr>av_rounds := add_mset vr (av_rounds a)\<rparr>)"
| stop: "vr \<in># av_rounds a \<Longrightarrow> r_completable (vr_votes vr) \<Longrightarrow> av_best a \<le> r_round_number (vr_votes vr) \<Longrightarrow>
    voter_step ancestry number vs a (a\<lparr>av_calls := av_calls a @ [completed_call (vr_votes vr)]\<rparr>)"
| advance: "vr \<in># av_rounds a \<Longrightarrow> r_completable (vr_votes vr) \<Longrightarrow> av_best a \<le> r_round_number (vr_votes vr) \<Longrightarrow>
    started vr' \<Longrightarrow> sound_votes ancestry number vs vr' \<Longrightarrow> r_round_number (vr_votes vr') = r_round_number (vr_votes vr) + 1 \<Longrightarrow>
    voter_step ancestry number vs a (a\<lparr>av_rounds := add_mset vr' (av_rounds a), av_best := r_round_number (vr_votes vr) + 1,
      av_calls := av_calls a @ [completed_call (vr_votes vr)]\<rparr>)"

abbreviation voter_steps ::
  "('h \<Rightarrow> 'h \<Rightarrow> error + 'h list) \<Rightarrow> ('h \<Rightarrow> nat) \<Rightarrow> ('i :: linorder) voter_set
     \<Rightarrow> ('h :: linorder, 's, 'i, 't, 'b, 'n, 'o) voter_spec \<Rightarrow> ('h, 's, 'i, 't, 'b, 'n, 'o) voter_spec \<Rightarrow> bool" where
  "voter_steps ancestry number vs \<equiv> (voter_step ancestry number vs)\<^sup>*\<^sup>*"

text \<open>Where it starts: with one round that votes and others that do not.\<close>

definition voter_start ::
  "('h \<Rightarrow> 'h \<Rightarrow> error + 'h list) \<Rightarrow> ('h \<Rightarrow> nat) \<Rightarrow> ('i :: linorder) voter_set \<Rightarrow> nat
     \<Rightarrow> ('h :: linorder, 's, 'i, 't, 'b, 'n, 'o) voter_spec \<Rightarrow> bool" where
  "voter_start ancestry number vs f a \<longleftrightarrow> (\<exists>vr M. av_rounds a = add_mset vr M \<and> started vr \<and> r_round_number (vr_votes vr) = av_best a \<and>
     (\<forall>x \<in># M. silent x) \<and> (\<forall>x \<in># av_rounds a. sound_votes ancestry number vs x)) \<and>
     av_finalized a = f \<and> av_notified a = {} \<and> list_all is_equivocation_call (av_calls a)"

section \<open>The calls of a round\<close>

fun votes_in :: "u64 \<Rightarrow> ('h, 's, 'i) env_call \<Rightarrow> bool" where
  "votes_in n (CallProposed m _) = (m = n)"
| "votes_in n (CallPrevoted m _) = (m = n)"
| "votes_in n (CallPrecommitted m _) = (m = n)"
| "votes_in n _ = False"

fun finalizes :: "('h, 's, 'i) env_call \<Rightarrow> nat list" where
  "finalizes (CallFinalizeBlock _ n _ _) = [n]"
| "finalizes _ = []"

fun finalized_numbers :: "('h, 's, 'i) env_call list \<Rightarrow> nat list" where
  "finalized_numbers [] = []"
| "finalized_numbers (c # cs) = finalizes c @ finalized_numbers cs"

lemma finalized_numbers_append [simp]: "finalized_numbers (cs @ cs') = finalized_numbers cs @ finalized_numbers cs'"
  by (induction cs) simp_all

fun voter_call :: "('h, 's, 'i) env_call \<Rightarrow> bool" where
  "voter_call (CallFinalizeBlock _ _ _ _) = True"
| "voter_call (CallCompleted _ _ _ _) = True"
| "voter_call (CallConcluded _ _ _ _) = True"
| "voter_call _ = False"

fun rank :: "progress \<Rightarrow> nat" where
  "rank NoVote = 0" | "rank HintSent = 1" | "rank PrevoteCast = 2" | "rank PrecommitCast = 3"

lemma cast_run_calls:
  "cast_run m q cs = Some q' \<Longrightarrow> cast_run m q (filter (votes_in m) cs) = Some q' \<and>
     (\<forall>n. n \<noteq> m \<longrightarrow> filter (votes_in n) cs = []) \<and> list_all (Not \<circ> voter_call) cs \<and>
     rank q + length (filter (votes_in m) cs) \<le> rank q'"
proof (induction cs arbitrary: q)
  case (Cons c cs)
  then obtain q1 where "cast_next m q c = Some q1" "cast_run m q1 cs = Some q'" by (auto simp: bind_eq_Some_conv)
  then show ?case using Cons.IH [of q1] by (cases c) (auto split: if_splits)
qed simp

lemma no_voter_call:
  assumes "list_all (Not \<circ> voter_call) cs"
  shows "finalized_numbers cs = []" "CallFinalizeBlock h n k c \<notin> set cs" "CallCompleted k st b v \<notin> set cs" "CallConcluded k st b v \<notin> set cs"
proof -
  show "finalized_numbers cs = []" using assms
  proof (induction cs)
    case (Cons c cs)
    then show ?case by (cases c) auto
  qed simp
qed (use assms in \<open>auto simp: list_all_iff\<close>)

lemma equivocation_not_voter_call: "list_all is_equivocation_call cs \<Longrightarrow> list_all (Not \<circ> voter_call) cs"
proof (induction cs)
  case (Cons c cs)
  then show ?case by (cases c) auto
qed simp

lemma moves_calls:
  assumes "moves vr cs vr'" "cast_inv vr q"
  obtains q' where "cast_run (r_round_number (vr_votes vr)) q cs = Some q'" "cast_inv vr' q'"
    "\<not> is_active (vr_voting vr) \<longrightarrow> q' = q" "r_round_number (vr_votes vr') = r_round_number (vr_votes vr)"
    "is_active (vr_voting vr') \<longrightarrow> is_active (vr_voting vr)" "list_all (Not \<circ> voter_call) cs"
proof -
  obtain sh sh' where c: "casts vr sh vr' sh'" "sh_calls sh' = sh_calls sh @ cs" using assms(1) by (auto simp: moves_def)
  obtain q' where q': "cast_run (r_round_number (vr_votes vr)) q cs = Some q'" "cast_inv vr' q'" "\<not> is_active (vr_voting vr) \<longrightarrow> q' = q"
    by (rule castsE [OF c assms(2)])
  have "r_round_number (vr_votes vr') = r_round_number (vr_votes vr)" "is_active (vr_voting vr') \<longrightarrow> is_active (vr_voting vr)"
    using c(1) by (simp_all add: casts_def)
  then show thesis using that [OF q'] cast_run_calls [OF q'(1)] by blast
qed

section \<open>The rounds\<close>

definition rounds_ok ::
  "('h \<Rightarrow> 'h \<Rightarrow> error + 'h list) \<Rightarrow> ('h \<Rightarrow> nat) \<Rightarrow> ('i :: linorder) voter_set
     \<Rightarrow> ('h :: linorder, 's, 'i, 't, 'b, 'n, 'o) voter_spec \<Rightarrow> bool" where
  "rounds_ok ancestry number vs a \<longleftrightarrow> (\<forall>vr \<in># av_rounds a. sound_votes ancestry number vs vr \<and> (\<exists>q. cast_inv vr q))"

lemma new_cast_inv: "started vr \<or> silent vr \<Longrightarrow> cast_inv vr NoVote"
  by (auto simp: started_def silent_def cast_inv_def)

lemma new_cast_ex: "started vr \<or> silent vr \<Longrightarrow> \<exists>q. cast_inv vr q"
  using new_cast_inv by blast

lemma rounds_ok_start: "voter_start ancestry number vs f a \<Longrightarrow> rounds_ok ancestry number vs a"
  by (auto simp: voter_start_def rounds_ok_def intro!: new_cast_ex)

lemma rounds_ok_step:
  assumes "voter_step ancestry number vs a a'" "rounds_ok ancestry number vs a"
  shows "rounds_ok ancestry number vs a'"
  using assms(1)
proof cases
  case (vote vr M cs vr')
  have vr: "sound_votes ancestry number vs vr" "\<exists>q. cast_inv vr q" using assms(2) vote(2) by (auto simp: rounds_ok_def)
  then obtain q where "cast_inv vr q" by blast
  then obtain q' where "cast_inv vr' q'" by (rule moves_calls [OF vote(3)])
  moreover have "sound_votes ancestry number vs vr'" using vr(1) reachable_steps [OF vote(4)] by (auto simp: sound_votes_def)
  ultimately show ?thesis using assms(2) vote(1,2) by (auto simp: rounds_ok_def)
qed (use assms(2) in \<open>auto simp: rounds_ok_def intro!: new_cast_ex\<close>)

section \<open>Finalization\<close>

text \<open>The numbers of the blocks that the environment is told to finalize increase, from the one of the last finalized block on.\<close>

definition finality_ok :: "nat \<Rightarrow> ('h, 's, 'i, 't, 'b, 'n, 'o) voter_spec \<Rightarrow> bool" where
  "finality_ok f a \<longleftrightarrow> sorted_wrt (<) (f # finalized_numbers (av_calls a)) \<and>
     (\<forall>n \<in> set (f # finalized_numbers (av_calls a)). n \<le> av_finalized a) \<and>
     List.last (f # finalized_numbers (av_calls a)) = av_finalized a"

lemma finality_ok_start: "voter_start ancestry number vs f a \<Longrightarrow> finality_ok f a"
  by (simp add: voter_start_def finality_ok_def no_voter_call(1) [OF equivocation_not_voter_call])

lemma finality_ok_step:
  assumes "voter_step ancestry number vs a a'" "rounds_ok ancestry number vs a" "finality_ok f a"
  shows "finality_ok f a'"
  using assms(1)
proof cases
  case (vote vr M cs vr')
  then obtain q where "cast_inv vr q" using assms(2) by (auto simp: rounds_ok_def)
  then have calls: "list_all (Not \<circ> voter_call) cs" by (rule moves_calls [OF vote(3)])
  then show ?thesis using assms(3) vote(1) no_voter_call(1) [OF calls] by (simp add: finality_ok_def)
next
  case (finalize n h k c)
  then show ?thesis using assms(3) by (auto simp: finality_ok_def sorted_wrt_append)
qed (use assms(3) in \<open>simp_all add: finality_ok_def completed_call_def concluded_call_def\<close>)

text \<open>Every such block, and every notification, is justified.\<close>

definition justified ::
  "('h \<Rightarrow> 'h \<Rightarrow> error + 'h list) \<Rightarrow> ('h \<Rightarrow> nat) \<Rightarrow> ('i :: linorder) voter_set
     \<Rightarrow> ('h :: linorder, 's, 'i) finalized_notification \<Rightarrow> bool" where
  "justified ancestry number vs x \<longleftrightarrow> (\<exists>b r. reachable ancestry number vs b r \<and> announces ancestry r x) \<or>
     (case x of (h, n, k, c) \<Rightarrow> (h, n) = (cm_target_hash c, cm_target_number c) \<and> valid_commit ancestry number vs c)"

definition justified_ok ::
  "('h \<Rightarrow> 'h \<Rightarrow> error + 'h list) \<Rightarrow> ('h \<Rightarrow> nat) \<Rightarrow> ('i :: linorder) voter_set
     \<Rightarrow> ('h :: linorder, 's, 'i, 't, 'b, 'n, 'o) voter_spec \<Rightarrow> bool" where
  "justified_ok ancestry number vs a \<longleftrightarrow> (\<forall>x \<in> av_notified a. justified ancestry number vs x) \<and>
     (\<forall>h n k c. CallFinalizeBlock h n k c \<in> set (av_calls a) \<longrightarrow> justified ancestry number vs (h, n, k, c))"

lemma justified_ok_start: "voter_start ancestry number vs f a \<Longrightarrow> justified_ok ancestry number vs a"
  by (simp add: voter_start_def justified_ok_def no_voter_call(2) [OF equivocation_not_voter_call])

lemma justified_ok_step:
  assumes "voter_step ancestry number vs a a'" "rounds_ok ancestry number vs a" "justified_ok ancestry number vs a"
  shows "justified_ok ancestry number vs a'"
  using assms(1)
proof cases
  case (vote vr M cs vr')
  then obtain q where "cast_inv vr q" using assms(2) by (auto simp: rounds_ok_def)
  then have calls: "list_all (Not \<circ> voter_call) cs" by (rule moves_calls [OF vote(3)])
  then show ?thesis using assms(3) vote(1) by (simp add: justified_ok_def no_voter_call [OF calls])
next
  case (announce vr x)
  then have "justified ancestry number vs x" using assms(2) by (auto simp: rounds_ok_def sound_votes_def justified_def)
  then show ?thesis using assms(3) announce(1) by (simp add: justified_ok_def)
next
  case (finalize n h k c)
  then have "justified ancestry number vs (h, n, k, c)" using assms(3) by (auto simp: justified_ok_def justified_def)
  then show ?thesis using assms(3) finalize(1) by (auto simp: justified_ok_def)
qed (use assms(3) in \<open>simp_all add: justified_ok_def completed_call_def concluded_call_def\<close>)

section \<open>Completion and conclusion\<close>

definition lifecycle_ok :: "('h, 's, 'i, 't, 'b, 'n, 'o) voter_spec \<Rightarrow> bool" where
  "lifecycle_ok a \<longleftrightarrow> (\<forall>k st b v. CallCompleted k st b v \<in> set (av_calls a) \<longrightarrow> st_completable st) \<and>
     (\<forall>k st b v. CallConcluded k st b v \<in> set (av_calls a) \<longrightarrow>
       estimate_final st (av_finalized a))"

lemma lifecycle_ok_start: "voter_start ancestry number vs f a \<Longrightarrow> lifecycle_ok a"
  by (simp add: voter_start_def lifecycle_ok_def no_voter_call(3,4) [OF equivocation_not_voter_call])

lemma lifecycle_ok_step:
  assumes "voter_step ancestry number vs a a'" "rounds_ok ancestry number vs a" "lifecycle_ok a"
  shows "lifecycle_ok a'"
  using assms(1)
proof cases
  case (vote vr M cs vr')
  then obtain q where "cast_inv vr q" using assms(2) by (auto simp: rounds_ok_def)
  then have calls: "list_all (Not \<circ> voter_call) cs" by (rule moves_calls [OF vote(3)])
  then show ?thesis using assms(3) vote(1) by (simp add: lifecycle_ok_def no_voter_call [OF calls])
next
  case (finalize n h k c)
  then have "estimate_final st n" if "CallConcluded k st b v \<in> set (av_calls a)" for k st b v
    using assms(3) that by (intro estimate_final_mono [of st "av_finalized a" n]) (unfold lifecycle_ok_def, blast, simp)
  then show ?thesis using assms(3) finalize(1) by (auto simp: lifecycle_ok_def)
next
  case (conclude vr M)
  then show ?thesis using assms(3) by (auto simp: lifecycle_ok_def concluded_call_def)
next
  case (stop vr)
  then show ?thesis using assms(3) by (auto simp: lifecycle_ok_def completed_call_def round_state_def)
next
  case (advance vr vr')
  then show ?thesis using assms(3) by (auto simp: lifecycle_ok_def completed_call_def round_state_def)
qed (use assms(3) in \<open>simp_all add: lifecycle_ok_def\<close>)

section \<open>Votes\<close>

abbreviation voted :: "u64 \<Rightarrow> ('h, 's, 'i) env_call list \<Rightarrow> progress option" where
  "voted n cs \<equiv> cast_run n NoVote (filter (votes_in n) cs)"

abbreviation votes_now :: "u64 \<Rightarrow> ('h, 's, 'i, 't, 'b, 'n, 'o) voting_round \<Rightarrow> bool" where
  "votes_now n vr \<equiv> is_active (vr_voting vr) \<and> r_round_number (vr_votes vr) = n"

text \<open>At most one round votes under every number, and what it may still cast fits what has been cast under this number.\<close>

definition votes_once :: "('h, 's, 'i, 't, 'b, 'n, 'o) voter_spec \<Rightarrow> bool" where
  "votes_once a \<longleftrightarrow> (\<forall>n. \<exists>q. voted n (av_calls a) = Some q \<and> (av_best a < n \<longrightarrow> q = NoVote)) \<and>
     (\<forall>vr \<in># av_rounds a. \<exists>q. cast_inv vr q \<and> (is_active (vr_voting vr) \<longrightarrow>
        voted (r_round_number (vr_votes vr)) (av_calls a) = Some q \<and> r_round_number (vr_votes vr) \<le> av_best a)) \<and>
     (\<forall>n. size (filter_mset (votes_now n) (av_rounds a)) \<le> 1)"

lemma votes_in_equivocation: "list_all is_equivocation_call cs \<Longrightarrow> filter (votes_in n) cs = []"
proof (induction cs)
  case (Cons c cs)
  then show ?case by (cases c) auto
qed simp

lemma silent_inactive: "silent vr \<Longrightarrow> \<not> is_active (vr_voting vr)"
  by (simp add: silent_def)

lemma filter_inactive: "\<forall>x \<in># M. \<not> is_active (vr_voting x) \<Longrightarrow> filter_mset (votes_now n) M = {#}"
  by (induction M) auto

lemma votes_once_start:
  assumes "voter_start ancestry number vs f a"
  shows "votes_once a"
proof -
  obtain vr M where a: "av_rounds a = add_mset vr M" "started vr" "r_round_number (vr_votes vr) = av_best a" "\<forall>x \<in># M. silent x"
    and calls: "list_all is_equivocation_call (av_calls a)"
    using assms by (auto simp: voter_start_def)
  have new: "cast_inv x NoVote" if "x \<in># av_rounds a" for x using that a by (auto intro: new_cast_inv)
  moreover have "r_round_number (vr_votes x) \<le> av_best a" if "x \<in># av_rounds a" "is_active (vr_voting x)" for x
    using that a(1,3,4) silent_inactive by auto
  moreover have "size (filter_mset (votes_now n) (av_rounds a)) \<le> 1" for n
  proof -
    have f: "filter_mset (votes_now n) M = {#}" using a(4) silent_inactive by (intro filter_inactive) blast
    show ?thesis unfolding a(1) filter_mset_add_mset f by simp
  qed
  ultimately show ?thesis by (auto simp: votes_once_def votes_in_equivocation [OF calls])
qed

lemma votes_now_other:
  assumes "size (filter_mset (votes_now n) (add_mset vr M)) \<le> 1" "votes_now n vr" "x \<in># M"
  shows "\<not> votes_now n x"
proof
  assume "votes_now n x"
  then have "x \<in># filter_mset (votes_now n) M" using assms(3) by simp
  then have "filter_mset (votes_now n) M \<noteq> {#}" by auto
  moreover have "size (filter_mset (votes_now n) M) = 0" using assms(1,2) by simp
  ultimately show False by (simp only: size_eq_0_iff_empty)
qed

text \<open>A round that moves.\<close>

lemma votes_once_vote:
  assumes v: "votes_once a" and M: "av_rounds a = add_mset vr M" and m: "moves vr cs vr'"
  shows "votes_once (a\<lparr>av_rounds := add_mset vr' M, av_calls := av_calls a @ cs\<rparr>)"
proof -
  let ?m = "r_round_number (vr_votes vr)" and ?calls = "av_calls a @ cs"
  obtain q where q: "cast_inv vr q" "is_active (vr_voting vr) \<longrightarrow> voted ?m (av_calls a) = Some q \<and> ?m \<le> av_best a"
    using v M by (auto simp: votes_once_def)
  obtain q' where q': "cast_run ?m q cs = Some q'" "cast_inv vr' q'" "\<not> is_active (vr_voting vr) \<longrightarrow> q' = q"
      "r_round_number (vr_votes vr') = ?m" "is_active (vr_voting vr') \<longrightarrow> is_active (vr_voting vr)"
    by (rule moves_calls [OF m q(1)])
  note cs = cast_run_calls [OF q'(1)]
  have other: "voted n ?calls = voted n (av_calls a)" if "n \<noteq> ?m \<or> \<not> is_active (vr_voting vr)" for n
  proof (cases "n = ?m")
    case True
    then have "filter (votes_in n) cs = []" using cs q'(3) that by simp
    then show ?thesis by simp
  qed (use cs in simp)
  have this_round: "voted ?m ?calls = Some q'" if "is_active (vr_voting vr)"
    using q(2) cs that by (simp add: cast_run_append)
  have size: "size (filter_mset (votes_now n) (add_mset vr M)) \<le> 1" for n using v M unfolding votes_once_def by metis
  have log: "\<exists>q. voted n ?calls = Some q \<and> (av_best a < n \<longrightarrow> q = NoVote)" for n
  proof (cases "n = ?m \<and> is_active (vr_voting vr)")
    case True
    then have "n \<le> av_best a" using q(2) by blast
    then have "\<not> av_best a < n" by (simp only: not_less)
    then show ?thesis using this_round True by blast
  next
    case False
    then show ?thesis using other v by (auto simp: votes_once_def)
  qed
  have rounds: "\<exists>q. cast_inv x q \<and> (is_active (vr_voting x) \<longrightarrow>
      voted (r_round_number (vr_votes x)) ?calls = Some q \<and> r_round_number (vr_votes x) \<le> av_best a)" if "x \<in># add_mset vr' M" for x
  proof (cases "x = vr'")
    case True
    then show ?thesis using q' this_round q(2) by auto
  next
    case False
    then have x: "x \<in># M" using that by simp
    have "x \<in># av_rounds a" using x M by simp
    then obtain p where p: "cast_inv x p" "is_active (vr_voting x) \<longrightarrow>
        voted (r_round_number (vr_votes x)) (av_calls a) = Some p \<and> r_round_number (vr_votes x) \<le> av_best a"
      using v unfolding votes_once_def by blast
    have "r_round_number (vr_votes x) \<noteq> ?m \<or> \<not> is_active (vr_voting vr)" if "is_active (vr_voting x)"
      using votes_now_other [OF size [of ?m] _ x] that by blast
    then show ?thesis using p other by auto
  qed
  have "size (filter_mset (votes_now n) (add_mset vr' M)) \<le> size (filter_mset (votes_now n) (add_mset vr M))" for n
    using q'(4,5) by simp
  then have "size (filter_mset (votes_now n) (add_mset vr' M)) \<le> 1" for n using size order.trans by blast
  then show ?thesis using log rounds by (simp add: votes_once_def)
qed

text \<open>A round that is added: one that does not vote, or one with a number above all others.\<close>

lemma votes_once_add:
  assumes v: "votes_once a" and new: "started vr \<or> silent vr" and n: "av_best a \<le> n"
    and act: "is_active (vr_voting vr) \<Longrightarrow> r_round_number (vr_votes vr) = n \<and> av_best a < n"
  shows "votes_once (a\<lparr>av_rounds := add_mset vr (av_rounds a), av_best := n\<rparr>)"
proof -
  have log: "\<exists>q. voted k (av_calls a) = Some q \<and> (n < k \<longrightarrow> q = NoVote)" for k
    using v n by (meson order.strict_trans1 votes_once_def)
  have old: "\<exists>q. cast_inv x q \<and> (is_active (vr_voting x) \<longrightarrow>
      voted (r_round_number (vr_votes x)) (av_calls a) = Some q \<and> r_round_number (vr_votes x) \<le> n)" if "x \<in># av_rounds a" for x
    using v n that unfolding votes_once_def by (meson order.trans)
  have nw: "voted (r_round_number (vr_votes vr)) (av_calls a) = Some NoVote" if "is_active (vr_voting vr)"
    using v act [OF that] unfolding votes_once_def by metis
  have below: "r_round_number (vr_votes x) \<le> av_best a" if "x \<in># av_rounds a" "is_active (vr_voting x)" for x
    using v that unfolding votes_once_def by blast
  have "size (filter_mset (votes_now k) (add_mset vr (av_rounds a))) \<le> 1" for k
  proof (cases "votes_now k vr")
    case True
    then have k: "av_best a < k" using act by blast
    have "\<not> votes_now k x" if "x \<in># av_rounds a" for x
    proof
      assume "votes_now k x"
      then have "k \<le> av_best a" using below [OF that] by blast
      then show False using k leD by blast
    qed
    then have f: "filter_mset (votes_now k) (av_rounds a) = {#}" by simp
    show ?thesis unfolding filter_mset_add_mset f by simp
  next
    case False
    then show ?thesis using v by (auto simp: votes_once_def)
  qed
  then show ?thesis using log old new_cast_inv [OF new] nw act by (auto simp: votes_once_def)
qed

lemma votes_once_calls:
  assumes "votes_once a" "\<And>n. filter (votes_in n) cs = []"
  shows "votes_once (a\<lparr>av_calls := av_calls a @ cs\<rparr>)"
  using assms by (simp add: votes_once_def)

lemma votes_once_remove:
  assumes "votes_once a" "av_rounds a = add_mset vr M"
  shows "votes_once (a\<lparr>av_rounds := M\<rparr>)"
proof -
  have "size (filter_mset (votes_now n) M) \<le> size (filter_mset (votes_now n) (av_rounds a))" for n
    using assms(2) by (simp add: multiset_filter_mono size_mset_mono)
  moreover have "size (filter_mset (votes_now n) (av_rounds a)) \<le> 1" for n using assms(1) unfolding votes_once_def by blast
  ultimately have "size (filter_mset (votes_now n) M) \<le> 1" for n using order.trans by blast
  then show ?thesis using assms unfolding votes_once_def by simp
qed

lemma word_less_plus_1: "k \<noteq> - 1 \<Longrightarrow> k < k + 1" for k :: u64
  using inc_less_eq_iff [of k "k + 1"] by simp

text \<open>As long as the numbers of the rounds do not wrap around, a voter votes at most once in every round.\<close>

lemma votes_once_step:
  assumes "voter_step ancestry number vs a a'" "votes_once a" "\<forall>st b v. CallCompleted (- 1) st b v \<notin> set (av_calls a')"
  shows "votes_once a'"
  using assms(1)
proof cases
  case (vote vr M cs vr')
  show ?thesis unfolding vote(1) by (rule votes_once_vote [OF assms(2) vote(2,3)])
next
  case (announce vr x)
  then show ?thesis using assms(2) by (simp add: votes_once_def)
next
  case (finalize n h k c)
  then show ?thesis using assms(2) by (simp add: votes_once_def)
next
  case (conclude vr M)
  show ?thesis unfolding conclude(1)
    using votes_once_calls [OF votes_once_remove [OF assms(2) conclude(2)], of "[concluded_call (vr_votes vr)]"]
    by (simp add: concluded_call_def)
next
  case (lose vr M)
  show ?thesis unfolding lose(1) by (rule votes_once_remove [OF assms(2) lose(2)])
next
  case (join vr)
  then show ?thesis using votes_once_add [OF assms(2), of vr "av_best a"] silent_inactive by fastforce
next
  case (stop vr)
  show ?thesis unfolding stop(1)
    using votes_once_calls [OF assms(2), of "[completed_call (vr_votes vr)]"] by (simp add: completed_call_def)
next
  case (advance vr vr')
  have "completed_call (vr_votes vr) \<in> set (av_calls a')" by (simp add: advance(1))
  then have "r_round_number (vr_votes vr) \<noteq> - 1" using assms(3) unfolding completed_call_def by metis
  then have "av_best a < r_round_number (vr_votes vr) + 1" using word_less_plus_1 advance(4) by fastforce
  then have "votes_once (a\<lparr>av_rounds := add_mset vr' (av_rounds a), av_best := r_round_number (vr_votes vr) + 1\<rparr>)"
    using advance(5,7) by (intro votes_once_add [OF assms(2)]) auto
  from votes_once_calls [OF this, of "[completed_call (vr_votes vr)]"]
  show ?thesis unfolding advance(1) by (simp add: completed_call_def)
qed

section \<open>Runs\<close>

lemma voter_step_calls: "voter_step ancestry number vs a a' \<Longrightarrow> set (av_calls a) \<subseteq> set (av_calls a')"
  by (cases rule: voter_step.cases) auto

lemma voter_steps_ok:
  assumes "voter_steps ancestry number vs a a'" "voter_start ancestry number vs f a"
  shows "rounds_ok ancestry number vs a' \<and> finality_ok f a' \<and> justified_ok ancestry number vs a' \<and> lifecycle_ok a'"
  using assms
proof (induction rule: rtranclp_induct)
  case base
  then show ?case using rounds_ok_start finality_ok_start justified_ok_start lifecycle_ok_start by blast
next
  case (step a1 a2)
  note st = step.hyps(2) and IH = step.IH [OF step.prems]
  show ?case using IH rounds_ok_step [OF st] finality_ok_step [OF st] justified_ok_step [OF st] lifecycle_ok_step [OF st] by blast
qed

lemma voter_steps_votes_once:
  assumes "voter_steps ancestry number vs a a'" "voter_start ancestry number vs f a"
    and "\<forall>st b v. CallCompleted (- 1) st b v \<notin> set (av_calls a')"
  shows "votes_once a'"
  using assms
proof (induction rule: rtranclp_induct)
  case base
  then show ?case using votes_once_start by blast
next
  case (step a1 a2)
  then show ?case using votes_once_step [OF step.hyps(2)] voter_step_calls [OF step.hyps(2)] by blast
qed

end
