(* ===== verification/Catch_Up.thy ===== *)
theory Catch_Up
  imports Round_Example
begin

text \<open>
  Validation of catch-up messages (\<^verbatim>\<open>validate_catch_up\<close> of \<^verbatim>\<open>src/voter/mod.rs\<close>): the votes of the message must come from
  a quorum of known voters in both phases and, imported into a fresh round, make it completable. The source returns an
  option; the outer option of the model is \<open>None\<close> for a panic.
\<close>

section \<open>Definitions\<close>

text \<open>The two loops that note who prevoted and who precommitted: \<^verbatim>\<open>map.entry(id).or_insert((false, false))\<close>.\<close>

definition note_vote :: "'i :: linorder \<Rightarrow> (bool \<times> bool \<Rightarrow> bool \<times> bool) \<Rightarrow> ('i, bool \<times> bool) btree \<Rightarrow> ('i, bool \<times> bool) btree" where
  "note_vote vid f m = bt_insert vid (f (case bt_get m vid of None \<Rightarrow> (False, False) | Some x \<Rightarrow> x)) m"

fun note_prevotes ::
  "'i :: linorder voter_set \<Rightarrow> ('i, bool \<times> bool) btree \<Rightarrow> ('h, 's, 'i) signed_prevote list \<Rightarrow> ('i, bool \<times> bool) btree option" where
  "note_prevotes vs m [] = Some m"
| "note_prevotes vs m (p # ps) =
     (if \<not> voter_set_contains vs (sv_id p) then None
      else note_prevotes vs (note_vote (sv_id p) (\<lambda>(_, b). (True, b)) m) ps)"

fun note_precommits ::
  "'i :: linorder voter_set \<Rightarrow> ('i, bool \<times> bool) btree \<Rightarrow> ('h, 's, 'i) signed_precommit list \<Rightarrow> ('i, bool \<times> bool) btree option" where
  "note_precommits vs m [] = Some m"
| "note_precommits vs m (p # ps) =
     (if \<not> voter_set_contains vs (sc_id p) then None
      else note_precommits vs (note_vote (sc_id p) (\<lambda>(a, _). (a, True)) m) ps)"

definition catch_up_weights :: "'i :: linorder voter_set \<Rightarrow> ('i, bool \<times> bool) btree \<Rightarrow> vote_weight \<times> vote_weight" where
  "catch_up_weights vs m = fold (\<lambda>(vid, (prevoted, precommitted)) (pv, pc).
     case voter_set_get vs vid of
       None \<Rightarrow> (pv, pc)
     | Some v \<Rightarrow>
         (if prevoted then vote_weight_add_voter pv (vi_weight v) else pv,
          if precommitted then vote_weight_add_voter pc (vi_weight v) else pc)) m (VoteWeight 0, VoteWeight 0)"

text \<open>The two loops that import: \<open>Some None\<close> when an import fails.\<close>

fun import_prevotes ::
  "('h \<Rightarrow> 'h \<Rightarrow> error + 'h list) \<Rightarrow> ('i :: linorder, 'h :: linorder, 's) round \<Rightarrow> ('h, 's, 'i) signed_prevote list
     \<Rightarrow> ('i, 'h, 's) round option option" where
  "import_prevotes env r [] = Some (Some r)"
| "import_prevotes env r (p # ps) =
     Option.bind (import_prevote env r (sv_prevote p) (sv_id p) (sv_signature p)) (\<lambda>(r, result).
       case result of Inl _ \<Rightarrow> Some None | Inr _ \<Rightarrow> import_prevotes env r ps)"

fun import_precommits ::
  "('h \<Rightarrow> 'h \<Rightarrow> error + 'h list) \<Rightarrow> ('i :: linorder, 'h :: linorder, 's) round \<Rightarrow> ('h, 's, 'i) signed_precommit list
     \<Rightarrow> ('i, 'h, 's) round option option" where
  "import_precommits env r [] = Some (Some r)"
| "import_precommits env r (p # ps) =
     Option.bind (import_precommit env r (sc_precommit p) (sc_id p) (sc_signature p)) (\<lambda>(r, result).
       case result of Inl _ \<Rightarrow> Some None | Inr _ \<Rightarrow> import_precommits env r ps)"

definition validate_catch_up ::
  "('h :: linorder, 's, 'i :: linorder) catch_up \<Rightarrow> ('h \<Rightarrow> 'h \<Rightarrow> error + 'h list) \<Rightarrow> 'i voter_set \<Rightarrow> u64
     \<Rightarrow> ('i, 'h, 's) round option option" where
  "validate_catch_up cu env vs best_round_number =
     (if cu_round_number cu \<le> best_round_number then Some None
      else case Option.bind (note_prevotes vs bt_empty (cu_prevotes cu)) (\<lambda>m. note_precommits vs m (cu_precommits cu)) of
        None \<Rightarrow> Some None
      | Some m \<Rightarrow>
          (let (pv, pc) = catch_up_weights vs m
           in if vote_weight_lt_voter pv (vs_threshold vs) \<or> vote_weight_lt_voter pc (vs_threshold vs) then Some None
              else Option.bind (import_prevotes env
                  (round_new \<lparr>rp_round_number = cu_round_number cu, rp_voters = vs, rp_base = (cu_base_hash cu, cu_base_number cu)\<rparr>)
                  (cu_prevotes cu)) (\<lambda>x. case x of
                None \<Rightarrow> Some None
              | Some r \<Rightarrow> Option.bind (import_precommits env r (cu_precommits cu)) (\<lambda>x. case x of
                    None \<Rightarrow> Some None
                  | Some r \<Rightarrow> if \<not> st_completable (round_state r) then Some None else Some (Some r)))))"

section \<open>Who voted\<close>

definition mark :: "('i, bool \<times> bool) btree \<Rightarrow> 'i \<Rightarrow> bool \<times> bool" where
  "mark m vid = (case bt_get m vid of None \<Rightarrow> (False, False) | Some x \<Rightarrow> x)"

lemma mark_empty [simp]: "mark bt_empty w = (False, False)"
  by (simp add: mark_def)

lemma mark_note_vote [simp]: "mark (note_vote vid f m) w = (if w = vid then f (mark m vid) else mark m w)"
  by (simp add: mark_def note_vote_def)

lemma bt_ok_note_vote [simp]: "bt_ok m \<Longrightarrow> bt_ok (note_vote vid f m)"
  by (simp add: note_vote_def)

definition noted :: "('i, bool \<times> bool) btree \<Rightarrow> phase \<Rightarrow> 'i set" where
  "noted m p = {vid. (case p of Prevote \<Rightarrow> fst | Precommit \<Rightarrow> snd) (mark m vid)}"

lemma noted_simps [simp]:
  "noted bt_empty p = {}"
  "noted (note_vote vid (\<lambda>(_, b). (True, b)) m) Prevote = insert vid (noted m Prevote)"
  "noted (note_vote vid (\<lambda>(_, b). (True, b)) m) Precommit = noted m Precommit"
  "noted (note_vote vid (\<lambda>(a, _). (a, True)) m) Prevote = noted m Prevote"
  "noted (note_vote vid (\<lambda>(a, _). (a, True)) m) Precommit = insert vid (noted m Precommit)"
  by (auto simp: noted_def split_beta split: phase.splits)

lemma note_prevotes_spec:
  "bt_ok m \<Longrightarrow> case note_prevotes vs m ps of
     None \<Rightarrow> \<exists>p \<in> set ps. \<not> voter_set_contains vs (sv_id p)
   | Some m' \<Rightarrow> (\<forall>p \<in> set ps. voter_set_contains vs (sv_id p)) \<and> bt_ok m' \<and>
       noted m' Prevote = noted m Prevote \<union> sv_id ` set ps \<and> noted m' Precommit = noted m Precommit"
  by (induction vs m ps rule: note_prevotes.induct) (auto split: option.splits)

lemma note_precommits_spec:
  "bt_ok m \<Longrightarrow> case note_precommits vs m ps of
     None \<Rightarrow> \<exists>p \<in> set ps. \<not> voter_set_contains vs (sc_id p)
   | Some m' \<Rightarrow> (\<forall>p \<in> set ps. voter_set_contains vs (sc_id p)) \<and> bt_ok m' \<and>
       noted m' Prevote = noted m Prevote \<and> noted m' Precommit = noted m Precommit \<union> sc_id ` set ps"
  by (induction vs m ps rule: note_precommits.induct) (auto split: option.splits)

lemma catch_up_fold:
  assumes ok: "voter_set_ok vs"
  shows "distinct (map fst l) \<Longrightarrow> fst ` set l \<inter> (A \<union> B) = {} \<Longrightarrow> vw pv = weight_of_set vs A \<Longrightarrow> vw pc = weight_of_set vs B \<Longrightarrow>
    vw (fst (fold (\<lambda>(vid, (prevoted, precommitted)) (pv, pc).
      case voter_set_get vs vid of
        None \<Rightarrow> (pv, pc)
      | Some v \<Rightarrow>
          (if prevoted then vote_weight_add_voter pv (vi_weight v) else pv,
           if precommitted then vote_weight_add_voter pc (vi_weight v) else pc)) l (pv, pc)))
      = weight_of_set vs (A \<union> {vid. \<exists>b. (vid, (True, b)) \<in> set l}) \<and>
    vw (snd (fold (\<lambda>(vid, (prevoted, precommitted)) (pv, pc).
      case voter_set_get vs vid of
        None \<Rightarrow> (pv, pc)
      | Some v \<Rightarrow>
          (if prevoted then vote_weight_add_voter pv (vi_weight v) else pv,
           if precommitted then vote_weight_add_voter pc (vi_weight v) else pc)) l (pv, pc)))
      = weight_of_set vs (B \<union> {vid. \<exists>a. (vid, (a, True)) \<in> set l})"
proof (induction l arbitrary: A B pv pc)
  case (Cons x l)
  obtain vid a b where x: "x = (vid, (a, b))" by (cases x) auto
  have fresh: "vid \<notin> A" "vid \<notin> B" "vid \<notin> fst ` set l" using Cons.prems(1,2) by (auto simp: x)
  define A' where "A' = (if a then insert vid A else A)"
  define B' where "B' = (if b then insert vid B else B)"
  have sets: "A \<union> {w. \<exists>b. (w, (True, b)) \<in> set (x # l)} = A' \<union> {w. \<exists>b. (w, (True, b)) \<in> set l}"
    "B \<union> {w. \<exists>a. (w, (a, True)) \<in> set (x # l)} = B' \<union> {w. \<exists>a. (w, (a, True)) \<in> set l}"
    by (auto simp: x A'_def B'_def)
  have dis: "distinct (map fst l)" "fst ` set l \<inter> (A' \<union> B') = {}" using Cons.prems(1,2) fresh(3) by (auto simp: A'_def B'_def)
  show ?case
  proof (cases "voter_set_get vs vid")
    case None
    then have "vid \<notin> voter_ids vs" using voter_set_get_None [OF ok] by blast
    then have w: "weight_of_set vs (insert vid C) = weight_of_set vs C" for C by (simp add: weight_of_set_def)
    show ?thesis unfolding sets using Cons.IH [OF dis, of pv pc] Cons.prems(3,4) None by (simp add: x A'_def B'_def w)
  next
    case (Some v)
    have step: "vw (vote_weight_add_voter w (vi_weight v)) = weight_of_set vs (insert vid C)"
      if "vw w = weight_of_set vs C" "vid \<notin> C" for w C
      using weight_of_set_insert_voter [OF ok Some that(2)] weight_of_set_less [OF ok, of "insert vid C"] that(1)
      by (simp add: vw_add_voter)
    show ?thesis
      unfolding sets
      using Cons.IH [OF dis, of "if a then vote_weight_add_voter pv (vi_weight v) else pv"
          "if b then vote_weight_add_voter pc (vi_weight v) else pc"]
        Cons.prems(3,4) fresh(1,2) step Some by (simp add: x A'_def B'_def)
  qed
qed simp

lemma catch_up_weights_set:
  assumes ok: "voter_set_ok vs" and m: "bt_ok m"
  shows "vw (fst (catch_up_weights vs m)) = weight_of_set vs (noted m Prevote)"
    and "vw (snd (catch_up_weights vs m)) = weight_of_set vs (noted m Precommit)"
proof -
  have mem: "(vid, y) \<in> set m \<longleftrightarrow> bt_get m vid = Some y" for vid y using bt.set_iter [OF m] .
  have "{vid. \<exists>b. (vid, (True, b)) \<in> set m} = noted m Prevote" "{vid. \<exists>a. (vid, (a, True)) \<in> set m} = noted m Precommit"
    by (auto simp: mem noted_def mark_def split: option.splits)
  then show "vw (fst (catch_up_weights vs m)) = weight_of_set vs (noted m Prevote)"
    "vw (snd (catch_up_weights vs m)) = weight_of_set vs (noted m Precommit)"
    using catch_up_fold [OF ok, of m "{}" "{}" "VoteWeight 0" "VoteWeight 0"] bt.distinct_iter [OF m]
    unfolding catch_up_weights_def by (simp_all add: vw_VoteWeight)
qed

section \<open>The imports\<close>

lemma imported_error: "imported parent number tgt trk msg p r vid x s r' (Inl e) \<Longrightarrow> \<not> descends parent (base r) (tgt x)"
  by (erule imported.cases) auto

lemma imported_fresh:
  "imported parent number tgt trk msg p r vid x s r' (Inr res) \<Longrightarrow> fresh parent number r \<Longrightarrow> fresh parent number r'"
  by (erule imported.cases) auto

lemma round_new_fresh: "fresh parent number (round_new \<lparr>rp_round_number = n, rp_voters = vs, rp_base = (b, m)\<rparr>)"
  by (simp add: fresh_def updated_def round_new_fields [OF HOL.refl])

text \<open>The prevotes of one voter in a list, in order.\<close>

definition prevotes_of :: "('h, 's, 'i) signed_prevote list \<Rightarrow> 'i \<Rightarrow> ('h prevote \<times> 's) list" where
  "prevotes_of ps vid = map (\<lambda>p. (sv_prevote p, sv_signature p)) (filter (\<lambda>p. sv_id p = vid) ps)"

text \<open>What importing lists of votes of known voters gives: the trackers with exactly these votes added.\<close>

definition imports_to ::
  "('h :: linorder \<Rightarrow> 'h \<Rightarrow> error + 'h list) \<Rightarrow> ('h \<Rightarrow> 'h option) \<Rightarrow> ('h \<Rightarrow> nat) \<Rightarrow> ('i :: linorder) voter_set \<Rightarrow> 'h
     \<Rightarrow> ('h, 's, 'i) signed_prevote list \<Rightarrow> ('h, 's, 'i) signed_precommit list \<Rightarrow> ('i, 'h, 's) round \<Rightarrow> ('i, 'h, 's) round \<Rightarrow> bool" where
  "imports_to ancestry parent number vs b pvs pcs r r' \<longleftrightarrow> reachable ancestry number vs b r' \<and> r_round_number r' = r_round_number r \<and>
     (fresh parent number r \<longrightarrow> fresh parent number r') \<and>
     (\<forall>vid. bt_get (vt_votes (r_prevote r')) vid
        = fold (\<lambda>x m. mult_add m x) (prevotes_of pvs vid) (bt_get (vt_votes (r_prevote r)) vid)) \<and>
     (\<forall>vid. bt_get (vt_votes (r_precommit r')) vid
        = fold (\<lambda>x m. mult_add m x) (votes_of pcs vid) (bt_get (vt_votes (r_precommit r)) vid))"

context chain
begin

lemma import_prevotes_ok:
  assumes "reachable ancestry number vs b r" and "\<forall>p \<in> set ps. sv_id p \<in> voter_ids vs"
    and "\<forall>p \<in> set ps. pv_target_number (sv_prevote p) = number (pv_target_hash (sv_prevote p))"
  shows "\<exists>x. import_prevotes ancestry r ps = Some x \<and> (case x of
      None \<Rightarrow> \<exists>p \<in> set ps. \<not> descends parent b (pv_target_hash (sv_prevote p))
    | Some r' \<Rightarrow> imports_to ancestry parent number vs b ps [] r r')"
  using assms
proof (induction ps arbitrary: r)
  case Nil
  then show ?case by (simp add: imports_to_def prevotes_of_def votes_of_def)
next
  case (Cons p ps)
  let ?x = "sv_prevote p" and ?vid = "sv_id p" and ?s = "sv_signature p"
  have ok: "round_ok parent number r" "voters r = vs" "base r = b" using reachable_ok [OF Cons.prems(1)] by auto
  have num: "pv_target_number ?x = number (pv_target_hash ?x)" using Cons.prems(3) by simp
  obtain r1 res where imp: "import_prevote ancestry r ?x ?vid ?s = Some (r1, res)"
      "imported_prevote parent number r ?vid ?x ?s r1 res"
    using import_prevote_imported [OF ok(1) num] by blast
  have r1: "reachable ancestry number vs b r1"
    by (rule reachable.step [OF Cons.prems(1) round_step.prevote [where number = number, OF imp(1) num]])
  show ?case
  proof (cases res)
    case (Inl e)
    then show ?thesis using imp(1) imported_error [OF imp(2) [unfolded Inl]] ok(3) by auto
  next
    case (Inr ir)
    have vs: "voter_set_ok vs" using ok by (auto elim!: round_okE dest: core_voters)
    obtain v where v: "voter_set_get (voters r) ?vid = Some v" using voters_get [OF vs, of ?vid] Cons.prems(2) ok(2) by auto
    have tr: "bt_get (vt_votes (r_prevote r1)) = (bt_get (vt_votes (r_prevote r)))(?vid := mult_add (bt_get (vt_votes (r_prevote r)) ?vid) (?x, ?s))"
        "r_precommit r1 = r_precommit r"
      using import_prevote_tracker_voter [OF imp(1) v] import_prevote_trackers [OF imp(1)] by (simp_all add: add_vote_get)
    have fr: "fresh parent number r \<longrightarrow> fresh parent number r1" using imported_fresh [OF imp(2) [unfolded Inr]] by blast
    obtain x where x: "import_prevotes ancestry r1 ps = Some x" "case x of
        None \<Rightarrow> \<exists>p \<in> set ps. \<not> descends parent b (pv_target_hash (sv_prevote p))
      | Some r' \<Rightarrow> imports_to ancestry parent number vs b ps [] r1 r'"
      using Cons.IH [OF r1] Cons.prems(2,3) by auto
    have "imports_to ancestry parent number vs b (p # ps) [] r r'" if "x = Some r'" for r'
      using x(2) that tr fr import_prevote_number [OF imp(1)] by (simp add: imports_to_def prevotes_of_def votes_of_def)
    then show ?thesis using x imp(1) Inr by (auto split: option.splits)
  qed
qed

lemma import_precommits_ok:
  assumes "reachable ancestry number vs b r" and "\<forall>p \<in> set ps. sc_id p \<in> voter_ids vs"
    and "\<forall>p \<in> set ps. pc_target_number (sc_precommit p) = number (pc_target_hash (sc_precommit p))"
  shows "\<exists>x. import_precommits ancestry r ps = Some x \<and> (case x of
      None \<Rightarrow> \<exists>p \<in> set ps. \<not> descends parent b (pc_target_hash (sc_precommit p))
    | Some r' \<Rightarrow> imports_to ancestry parent number vs b [] ps r r')"
  using assms
proof (induction ps arbitrary: r)
  case Nil
  then show ?case by (simp add: imports_to_def prevotes_of_def votes_of_def)
next
  case (Cons p ps)
  let ?x = "sc_precommit p" and ?vid = "sc_id p" and ?s = "sc_signature p"
  have ok: "round_ok parent number r" "voters r = vs" "base r = b" using reachable_ok [OF Cons.prems(1)] by auto
  have num: "pc_target_number ?x = number (pc_target_hash ?x)" using Cons.prems(3) by simp
  obtain r1 res where imp: "import_precommit ancestry r ?x ?vid ?s = Some (r1, res)"
      "imported_precommit parent number r ?vid ?x ?s r1 res"
    using import_precommit_imported [OF ok(1) num] by blast
  have r1: "reachable ancestry number vs b r1"
    by (rule reachable.step [OF Cons.prems(1) round_step.precommit [where number = number, OF imp(1) num]])
  show ?case
  proof (cases res)
    case (Inl e)
    then show ?thesis using imp(1) imported_error [OF imp(2) [unfolded Inl]] ok(3) by auto
  next
    case (Inr ir)
    have vs: "voter_set_ok vs" using ok by (auto elim!: round_okE dest: core_voters)
    obtain v where v: "voter_set_get (voters r) ?vid = Some v" using voters_get [OF vs, of ?vid] Cons.prems(2) ok(2) by auto
    have tr: "bt_get (vt_votes (r_precommit r1)) = (bt_get (vt_votes (r_precommit r)))(?vid := mult_add (bt_get (vt_votes (r_precommit r)) ?vid) (?x, ?s))"
        "r_prevote r1 = r_prevote r"
      using import_precommit_tracker_voter [OF imp(1) v] import_precommit_trackers [OF imp(1)] by (simp_all add: add_vote_get)
    have fr: "fresh parent number r \<longrightarrow> fresh parent number r1" using imported_fresh [OF imp(2) [unfolded Inr]] by blast
    obtain x where x: "import_precommits ancestry r1 ps = Some x" "case x of
        None \<Rightarrow> \<exists>p \<in> set ps. \<not> descends parent b (pc_target_hash (sc_precommit p))
      | Some r' \<Rightarrow> imports_to ancestry parent number vs b [] ps r1 r'"
      using Cons.IH [OF r1] Cons.prems(2,3) by auto
    have "imports_to ancestry parent number vs b [] (p # ps) r r'" if "x = Some r'" for r'
      using x(2) that tr fr import_precommit_number [OF imp(1)] by (simp add: imports_to_def prevotes_of_def votes_of_def)
    then show ?thesis using x imp(1) Inr by (auto split: option.splits)
  qed
qed

end

section \<open>The verdict\<close>

definition catch_up_voters :: "('h, 's, 'i) catch_up \<Rightarrow> phase \<Rightarrow> 'i set" where
  "catch_up_voters cu q = (case q of Prevote \<Rightarrow> sv_id ` set (cu_prevotes cu) | Precommit \<Rightarrow> sc_id ` set (cu_precommits cu))"

text \<open>A round with the number and base of the message and exactly its votes: the trackers hold of every voter its first vote in
  the message and, if it is there, the first different one. The state of the round is that of these votes.\<close>

definition catch_up_round ::
  "('h :: linorder \<Rightarrow> 'h \<Rightarrow> error + 'h list) \<Rightarrow> ('h \<Rightarrow> 'h option) \<Rightarrow> ('h \<Rightarrow> nat) \<Rightarrow> 'i :: linorder voter_set \<Rightarrow> ('h, 's, 'i) catch_up
     \<Rightarrow> ('i, 'h, 's) round \<Rightarrow> bool" where
  "catch_up_round ancestry parent number vs cu r \<longleftrightarrow> reachable ancestry number vs (cu_base_hash cu) r \<and>
     r_round_number r = cu_round_number cu \<and> fresh parent number r \<and>
     (\<forall>vid. bt_get (vt_votes (r_prevote r)) vid = multiplicity_of (prevotes_of (cu_prevotes cu) vid)) \<and>
     (\<forall>vid. bt_get (vt_votes (r_precommit r)) vid = multiplicity_of (votes_of (cu_precommits cu) vid))"

text \<open>The round the imports of the message end in.\<close>

definition catch_up_imports_to ::
  "('h :: linorder \<Rightarrow> 'h \<Rightarrow> error + 'h list) \<Rightarrow> 'i :: linorder voter_set \<Rightarrow> ('h, 's, 'i) catch_up \<Rightarrow> ('i, 'h, 's) round \<Rightarrow> bool" where
  "catch_up_imports_to ancestry vs cu r \<longleftrightarrow> (\<exists>r'. import_prevotes ancestry
       (round_new \<lparr>rp_round_number = cu_round_number cu, rp_voters = vs, rp_base = (cu_base_hash cu, cu_base_number cu)\<rparr>)
       (cu_prevotes cu) = Some (Some r') \<and>
     import_precommits ancestry r' (cu_precommits cu) = Some (Some r))"

lemma catch_up_noted:
  assumes vs: "voter_set_ok vs"
  shows "case Option.bind (note_prevotes vs bt_empty (cu_prevotes cu)) (\<lambda>m. note_precommits vs m (cu_precommits cu)) of
      None \<Rightarrow> \<exists>q. \<not> catch_up_voters cu q \<subseteq> voter_ids vs
    | Some m \<Rightarrow> (\<forall>q. catch_up_voters cu q \<subseteq> voter_ids vs) \<and> bt_ok m \<and> (\<forall>q. noted m q = catch_up_voters cu q)"
proof (cases "note_prevotes vs bt_empty (cu_prevotes cu)")
  case None
  then have "\<not> catch_up_voters cu Prevote \<subseteq> voter_ids vs"
    using note_prevotes_spec [OF bt_ok_empty, where vs = vs and ps = "cu_prevotes cu"]
    by (auto simp: catch_up_voters_def voter_set_contains_iff [OF vs])
  then show ?thesis using None by auto
next
  case (Some m)
  then have m: "catch_up_voters cu Prevote \<subseteq> voter_ids vs" "bt_ok m" "noted m Prevote = catch_up_voters cu Prevote" "noted m Precommit = {}"
    using note_prevotes_spec [OF bt_ok_empty, where vs = vs and ps = "cu_prevotes cu"]
    by (auto simp: catch_up_voters_def voter_set_contains_iff [OF vs])
  show ?thesis
  proof (cases "note_precommits vs m (cu_precommits cu)")
    case None
    then have "\<not> catch_up_voters cu Precommit \<subseteq> voter_ids vs"
      using note_precommits_spec [OF m(2), where vs = vs and ps = "cu_precommits cu"]
      by (auto simp: catch_up_voters_def voter_set_contains_iff [OF vs])
    then show ?thesis using None Some by auto
  next
    case (Some m')
    then have "catch_up_voters cu Precommit \<subseteq> voter_ids vs" "bt_ok m'" "noted m' Prevote = catch_up_voters cu Prevote"
        "noted m' Precommit = catch_up_voters cu Precommit"
      using note_precommits_spec [OF m(2), where vs = vs and ps = "cu_precommits cu"] m(3,4)
      by (auto simp: catch_up_voters_def voter_set_contains_iff [OF vs])
    then have "catch_up_voters cu q \<subseteq> voter_ids vs \<and> noted m' q = catch_up_voters cu q" for q using m(1) by (cases q) auto
    then show ?thesis using \<open>bt_ok m'\<close> Some \<open>note_prevotes vs bt_empty (cu_prevotes cu) = Some m\<close> by simp
  qed
qed

context chain
begin

lemma catch_up_imports:
  fixes cu :: "('h, 's, 'i :: linorder) catch_up"
  assumes new: "voter_set_new ws = Some (Some vs)" and base: "cu_base_number cu = number (cu_base_hash cu)"
    and pv: "\<forall>p \<in> set (cu_prevotes cu). pv_target_number (sv_prevote p) = number (pv_target_hash (sv_prevote p))"
    and pc: "\<forall>p \<in> set (cu_precommits cu). pc_target_number (sc_precommit p) = number (pc_target_hash (sc_precommit p))"
    and ids: "\<forall>q. catch_up_voters cu q \<subseteq> voter_ids vs"
  shows "\<exists>x. Option.bind (import_prevotes ancestry
        (round_new \<lparr>rp_round_number = cu_round_number cu, rp_voters = vs, rp_base = (cu_base_hash cu, cu_base_number cu)\<rparr>)
        (cu_prevotes cu)) (\<lambda>x. case x of
          None \<Rightarrow> Some None
        | Some r \<Rightarrow> Option.bind (import_precommits ancestry r (cu_precommits cu)) (\<lambda>x. case x of
              None \<Rightarrow> Some None
            | Some r \<Rightarrow> if \<not> st_completable (round_state r) then Some None else Some (Some r))) = Some x \<and>
    (case x of
       Some r \<Rightarrow> catch_up_round ancestry parent number vs cu r \<and> r_completable r
     | None \<Rightarrow> (\<exists>p \<in> set (cu_prevotes cu). \<not> descends parent (cu_base_hash cu) (pv_target_hash (sv_prevote p))) \<or>
         (\<exists>p \<in> set (cu_precommits cu). \<not> descends parent (cu_base_hash cu) (pc_target_hash (sc_precommit p))) \<or>
         (\<exists>r. catch_up_round ancestry parent number vs cu r \<and> catch_up_imports_to ancestry vs cu r \<and> \<not> r_completable r))"
proof -
  let ?r0 = "round_new \<lparr>rp_round_number = cu_round_number cu, rp_voters = vs, rp_base = (cu_base_hash cu, cu_base_number cu)\<rparr> :: ('i, 'h, 's) round"
  have r0: "reachable ancestry number vs (cu_base_hash cu) ?r0" unfolding base by (rule reachable.start [OF new])
  have v0: "bt_get (vt_votes (r_prevote ?r0)) = Map.empty" "bt_get (vt_votes (r_precommit ?r0)) = Map.empty"
      "r_round_number ?r0 = cu_round_number cu"
    by (simp_all add: round_new_def vote_tracker_new_def fun_eq_iff)
  have f0: "fresh parent number ?r0" by (rule round_new_fresh)
  have ids': "\<forall>p \<in> set (cu_prevotes cu). sv_id p \<in> voter_ids vs" "\<forall>p \<in> set (cu_precommits cu). sc_id p \<in> voter_ids vs"
    using ids [rule_format, of Prevote] ids [rule_format, of Precommit] by (auto simp: catch_up_voters_def)
  obtain x where x: "import_prevotes ancestry ?r0 (cu_prevotes cu) = Some x" "case x of
      None \<Rightarrow> \<exists>p \<in> set (cu_prevotes cu). \<not> descends parent (cu_base_hash cu) (pv_target_hash (sv_prevote p))
    | Some r' \<Rightarrow> imports_to ancestry parent number vs (cu_base_hash cu) (cu_prevotes cu) [] ?r0 r'"
    using import_prevotes_ok [OF r0 ids'(1) pv] by blast
  show ?thesis
  proof (cases x)
    case None
    then show ?thesis using x by simp
  next
    case (Some r)
    then have r: "imports_to ancestry parent number vs (cu_base_hash cu) (cu_prevotes cu) [] ?r0 r" using x(2) by simp
    then have "reachable ancestry number vs (cu_base_hash cu) r" by (simp add: imports_to_def)
    from import_precommits_ok [OF this ids'(2) pc]
    obtain y where y: "import_precommits ancestry r (cu_precommits cu) = Some y" "case y of
        None \<Rightarrow> \<exists>p \<in> set (cu_precommits cu). \<not> descends parent (cu_base_hash cu) (pc_target_hash (sc_precommit p))
      | Some r' \<Rightarrow> imports_to ancestry parent number vs (cu_base_hash cu) [] (cu_precommits cu) r r'" by blast
    have completed: "catch_up_round ancestry parent number vs cu r'" if "y = Some r'" for r'
      using y(2) r that v0 f0
      by (simp add: catch_up_round_def imports_to_def fold_mult_add_multiplicity prevotes_of_def votes_of_def)
    show ?thesis using x(1) y Some completed by (cases y) (auto simp: round_state_def catch_up_imports_to_def)
  qed
qed

end

lemma ex_phase: "(\<exists>q. P q) \<longleftrightarrow> P Prevote \<or> P Precommit"
  by (metis phase.exhaust)

lemma validate_catch_up_total:
  fixes cu :: "('h :: linorder, 's, 'i :: linorder) catch_up"
  assumes chn: "chain ancestry parent number" and new: "voter_set_new ws = Some (Some vs)"
    and nb: "cu_base_number cu = number (cu_base_hash cu)"
    and pv: "\<forall>p \<in> set (cu_prevotes cu). pv_target_number (sv_prevote p) = number (pv_target_hash (sv_prevote p))"
    and pc: "\<forall>p \<in> set (cu_precommits cu). pc_target_number (sc_precommit p) = number (pc_target_hash (sc_precommit p))"
  shows "\<exists>x. validate_catch_up cu ancestry vs best = Some x \<and> (case x of
      Some r \<Rightarrow> best < cu_round_number cu \<and> catch_up_round ancestry parent number vs cu r \<and> r_completable r \<and>
        (\<forall>q. catch_up_voters cu q \<subseteq> voter_ids vs \<and> rw (vs_threshold vs) \<le> weight_of_set vs (catch_up_voters cu q))
    | None \<Rightarrow> cu_round_number cu \<le> best \<or> (\<exists>q. \<not> catch_up_voters cu q \<subseteq> voter_ids vs) \<or>
        (\<exists>q. weight_of_set vs (catch_up_voters cu q) < rw (vs_threshold vs)) \<or>
        (\<exists>p \<in> set (cu_prevotes cu). \<not> descends parent (cu_base_hash cu) (pv_target_hash (sv_prevote p))) \<or>
        (\<exists>p \<in> set (cu_precommits cu). \<not> descends parent (cu_base_hash cu) (pc_target_hash (sc_precommit p))) \<or>
        (\<exists>r. catch_up_round ancestry parent number vs cu r \<and> catch_up_imports_to ancestry vs cu r \<and> \<not> r_completable r))"
proof -
  note ok = voter_set_new_ok [OF new]
  let ?noted = "Option.bind (note_prevotes vs bt_empty (cu_prevotes cu)) (\<lambda>m. note_precommits vs m (cu_precommits cu))"
  note noted = catch_up_noted [OF ok, of cu]
  show ?thesis
  proof (cases "best < cu_round_number cu \<and> ?noted \<noteq> None")
    case False
    then show ?thesis using noted by (cases "best < cu_round_number cu") (auto simp: validate_catch_up_def)
  next
    case True
    then obtain m where m: "?noted = Some m" by blast
    then have ids: "\<forall>q. catch_up_voters cu q \<subseteq> voter_ids vs" and bt: "bt_ok m" and nt: "\<forall>q. noted m q = catch_up_voters cu q"
      using noted by simp_all
    obtain wv wc where w: "catch_up_weights vs m = (wv, wc)" by fastforce
    have "vw wv = weight_of_set vs (catch_up_voters cu Prevote)" "vw wc = weight_of_set vs (catch_up_voters cu Precommit)"
      using catch_up_weights_set [OF ok bt] by (simp_all add: w nt)
    then have less: "vote_weight_lt_voter wv (vs_threshold vs) \<or> vote_weight_lt_voter wc (vs_threshold vs)
        \<longleftrightarrow> (\<exists>q. weight_of_set vs (catch_up_voters cu q) < rw (vs_threshold vs))"
      by (auto simp: ex_phase weight_simps)
    obtain x where x: "Option.bind (import_prevotes ancestry
        (round_new \<lparr>rp_round_number = cu_round_number cu, rp_voters = vs, rp_base = (cu_base_hash cu, cu_base_number cu)\<rparr>)
        (cu_prevotes cu)) (\<lambda>x. case x of
          None \<Rightarrow> Some None
        | Some r \<Rightarrow> Option.bind (import_precommits ancestry r (cu_precommits cu)) (\<lambda>x. case x of
              None \<Rightarrow> Some None
            | Some r \<Rightarrow> if \<not> st_completable (round_state r) then Some None else Some (Some r))) = Some x" "case x of
       Some r \<Rightarrow> catch_up_round ancestry parent number vs cu r \<and> r_completable r
     | None \<Rightarrow> (\<exists>p \<in> set (cu_prevotes cu). \<not> descends parent (cu_base_hash cu) (pv_target_hash (sv_prevote p))) \<or>
         (\<exists>p \<in> set (cu_precommits cu). \<not> descends parent (cu_base_hash cu) (pc_target_hash (sc_precommit p))) \<or>
         (\<exists>r. catch_up_round ancestry parent number vs cu r \<and> catch_up_imports_to ancestry vs cu r \<and> \<not> r_completable r)"
      using chain.catch_up_imports [OF chn new nb pv pc ids] by (elim exE conjE) (rule that)
    have le: "\<not> cu_round_number cu \<le> best" using True by (simp add: not_le)
    show ?thesis
    proof (cases "\<exists>q. weight_of_set vs (catch_up_voters cu q) < rw (vs_threshold vs)")
      case light: True
      then have "validate_catch_up cu ancestry vs best = Some None"
        unfolding validate_catch_up_def m using less le by (simp add: w)
      then show ?thesis using light by simp
    next
      case heavy: False
      then have "validate_catch_up cu ancestry vs best = Some x"
        unfolding validate_catch_up_def m using less le x(1) by (simp add: w)
      then show ?thesis using x(2) True heavy ids by (auto simp: not_less split: option.splits)
    qed
  qed
qed

section \<open>Property\<close>

text \<open>C23. Validating a catch-up message whose votes carry the numbers of their targets always returns. The round it gives, if any, is
  later than the best round, is completable, and is a round reachable from a new one with the number and base of the message
  whose trackers hold exactly the votes of the message: of every voter its first vote and, if there is one, the first different
  one as an equivocation; as long as the prevote equivocators are no quorum, its state is that of these votes. In both phases the voters are members of the set, of at least the
  weight of the threshold. The message is refused only for a reason: the round is not later, a stranger voted, a phase has less than the
  threshold, a vote is not above the base, or the round that importing the votes ends in, with exactly these votes, is not
  completable.\<close>

theorem validate_catch_up_spec:
  fixes cu :: "('h :: linorder, 's, 'i :: linorder) catch_up"
  assumes chn: "chain ancestry parent number" and new: "voter_set_new ws = Some (Some vs)"
    and nb: "cu_base_number cu = number (cu_base_hash cu)"
    and pv: "\<forall>p \<in> set (cu_prevotes cu). pv_target_number (sv_prevote p) = number (pv_target_hash (sv_prevote p))"
    and pc: "\<forall>p \<in> set (cu_precommits cu). pc_target_number (sc_precommit p) = number (pc_target_hash (sc_precommit p))"
  shows "\<exists>x. validate_catch_up cu ancestry vs best = Some x \<and> (case x of
      Some r \<Rightarrow> best < cu_round_number cu \<and> catch_up_round ancestry parent number vs cu r \<and> r_completable r \<and>
        (\<forall>q. catch_up_voters cu q \<subseteq> voter_ids vs \<and> rw (vs_threshold vs) \<le> weight_of_set vs (catch_up_voters cu q))
    | None \<Rightarrow> cu_round_number cu \<le> best \<or> (\<exists>q. \<not> catch_up_voters cu q \<subseteq> voter_ids vs) \<or>
        (\<exists>q. weight_of_set vs (catch_up_voters cu q) < rw (vs_threshold vs)) \<or>
        (\<exists>p \<in> set (cu_prevotes cu). \<not> descends parent (cu_base_hash cu) (pv_target_hash (sv_prevote p))) \<or>
        (\<exists>p \<in> set (cu_precommits cu). \<not> descends parent (cu_base_hash cu) (pc_target_hash (sc_precommit p))) \<or>
        (\<exists>r. catch_up_round ancestry parent number vs cu r \<and> catch_up_imports_to ancestry vs cu r \<and> \<not> r_completable r))"
  by (rule validate_catch_up_total [OF assms])

text \<open>A message in which three of four voters prevote and precommit block 4 is accepted.\<close>

definition example_catch_up :: "(fhash, unit, nat) catch_up" where
  "example_catch_up = \<lparr>cu_round_number = 5,
     cu_prevotes = map (\<lambda>vid. \<lparr>sv_prevote = prevote_new 4 (fuzz_num 4), sv_signature = (), sv_id = vid\<rparr>) [1, 2, 3],
     cu_precommits = map (\<lambda>vid. \<lparr>sc_precommit = precommit_new 4 (fuzz_num 4), sc_signature = (), sc_id = vid\<rparr>) [1, 2, 3],
     cu_base_hash = 0, cu_base_number = fuzz_num 0\<rparr>"

lemma example_catch_up_voters: "catch_up_voters example_catch_up q = {1, 2, 3}"
  by (cases q) (auto simp: catch_up_voters_def example_catch_up_def)

lemma example_catch_up_completable:
  assumes new: "voter_set_new four_voters = Some (Some vs)" and r: "catch_up_round fuzz_ancestry fuzz_parent fuzz_num vs example_catch_up r"
  shows "view r p = example_view 4" "r_completable r"
proof -
  have reach: "reachable fuzz_ancestry fuzz_num vs 0 r" and fresh: "fresh fuzz_parent fuzz_num r"
    using r by (simp_all add: catch_up_round_def example_catch_up_def)
  have "view r Prevote vid = example_view 4 vid" "view r Precommit vid = example_view 4 vid" for vid
    using r by (auto simp: catch_up_round_def view_simps tracker_view_def example_catch_up_def example_view_def prevotes_of_def
        votes_of_def multiplicity_of_def prevote_new_def precommit_new_def)
  then have view: "view r q = example_view 4" for q by (cases q) (simp_all add: fun_eq_iff)
  then show "view r p = example_view 4" .
  obtain vs' where vs': "voter_set_new four_voters = Some (Some vs')" "rw (vs_threshold vs') = 3" "faulty vs' = 1"
    "\<forall>A. weight_of_set vs' A = card (A \<inter> {1, 2, 3, 4})" using four_voters_set by blast
  then have eq: "vs' = vs" using new by simp
  show "r_completable r"
    by (rule example_state(2) [OF fuzz_base_above [of 4] reach view vs'(2) [unfolded eq] vs'(3) [unfolded eq]
        vs'(4) [unfolded eq, rule_format] fresh]) simp
qed

theorem validate_catch_up_spec_witness:
  "\<exists>vs r. voter_set_new four_voters = Some (Some vs) \<and> validate_catch_up example_catch_up fuzz_ancestry vs 3 = Some (Some r) \<and>
     r_completable r \<and> (\<forall>p. view r p = example_view 4)"
proof -
  obtain vs where vs: "voter_set_new four_voters = Some (Some vs)" "rw (vs_threshold vs) = 3" "voter_ids vs = {1, 2, 3, 4}"
    "\<forall>A. weight_of_set vs A = card (A \<inter> {1, 2, 3, 4})" using four_voters_set by blast
  have hyps: "cu_base_number example_catch_up = fuzz_num (cu_base_hash example_catch_up)"
    "\<forall>p \<in> set (cu_prevotes example_catch_up). pv_target_number (sv_prevote p) = fuzz_num (pv_target_hash (sv_prevote p))"
    "\<forall>p \<in> set (cu_precommits example_catch_up). pc_target_number (sc_precommit p) = fuzz_num (pc_target_hash (sc_precommit p))"
    by (simp_all add: example_catch_up_def prevote_new_def precommit_new_def)
  obtain x where x: "validate_catch_up example_catch_up fuzz_ancestry vs 3 = Some x" "case x of
      Some r \<Rightarrow> catch_up_round fuzz_ancestry fuzz_parent fuzz_num vs example_catch_up r
    | None \<Rightarrow> cu_round_number example_catch_up \<le> 3 \<or> (\<exists>q. \<not> catch_up_voters example_catch_up q \<subseteq> voter_ids vs) \<or>
        (\<exists>q. weight_of_set vs (catch_up_voters example_catch_up q) < rw (vs_threshold vs)) \<or>
        (\<exists>p \<in> set (cu_prevotes example_catch_up). \<not> descends fuzz_parent 0 (pv_target_hash (sv_prevote p))) \<or>
        (\<exists>p \<in> set (cu_precommits example_catch_up). \<not> descends fuzz_parent 0 (pc_target_hash (sc_precommit p))) \<or>
        (\<exists>r. catch_up_round fuzz_ancestry fuzz_parent fuzz_num vs example_catch_up r \<and> \<not> r_completable r)"
  proof -
    have base: "cu_base_hash example_catch_up = 0" by (simp add: example_catch_up_def)
    show thesis
      using validate_catch_up_spec [OF fuzz.chain_axioms vs(1) hyps, of 3] unfolding base
      by (elim exE conjE) (erule that, auto split: option.splits)
  qed
  have d: "descends fuzz_parent 0 4" by (rule fuzz_base_above) simp
  have "cu_round_number example_catch_up = 5" "\<forall>p \<in> set (cu_prevotes example_catch_up). pv_target_hash (sv_prevote p) = 4"
    "\<forall>p \<in> set (cu_precommits example_catch_up). pc_target_hash (sc_precommit p) = 4"
    by (simp_all add: example_catch_up_def prevote_new_def precommit_new_def)
  then obtain r where "x = Some r"
    using x(2) d example_catch_up_completable(2) [OF vs(1)] by (cases x) (auto simp: example_catch_up_voters vs(2-4))
  then show ?thesis using x vs(1) example_catch_up_completable [OF vs(1)] by auto
qed

end
