(* ===== verification/Voter.thy ===== *)
theory Voter
  imports Past_Rounds Catch_Up
begin

text \<open>
  The voter (\<^verbatim>\<open>src/voter/mod.rs\<close>): the best round and the rounds in the background, the commits and catch-ups that arrive from
  other nodes, and the blocks it tells the environment to finalize. One definition per function of the source.

  The stream of incoming messages and the sink of outgoing ones are arguments of the voter like the environment: the record
  \<open>global_comms\<close> says how they answer during a poll. The channel of finality notifications is the queue \<open>sh_finalized\<close> of what
  the rounds share; a sender always lives in the best round. The callbacks of incoming messages work on a state of their
  owner, the field \<open>vt_outcomes\<close>. The order in which the library polls the background rounds is an argument.
\<close>

section \<open>Messages between nodes\<close>

datatype ('h, 's, 'i) communication_out = CommitOut u64 "('h, 's, 'i) commit"

datatype catch_up_processing_outcome = GoodCatchUp | BadCatchUp | UselessCatchUp

datatype ('h, 's, 'i, 'x) communication_in =
    CommitIn u64 "('h, 's, 'i) compact_commit" "(commit_processing_outcome, 'x) callback"
  | CatchUpIn "('h, 's, 'i) catch_up" "(catch_up_processing_outcome, 'x) callback"

record ('h, 's, 'i, 'e, 'g, 'p, 'x) global_comms =
  gc_poll_next :: "'g \<Rightarrow> 'g \<times> ('e + ('h, 's, 'i, 'x) communication_in) option poll"
  gc_sink :: "('p, ('h, 's, 'i) communication_out, 'e) sink"

section \<open>The state of the voter\<close>

record ('h, 's, 'i, 't, 'b, 'n, 'o) inner_voter_state =
  iv_best_round :: "('h, 's, 'i, 't, 'b, 'n, 'o) voting_round"
  iv_past_rounds :: "('h, 's, 'i, 't, 'b, 'n, 'o) past_rounds"

record ('h, 's, 'i, 't, 'b, 'n, 'o, 'g, 'p, 'x) voter =
  vt_voters :: "'i voter_set"
  vt_inner :: "('h, 's, 'i, 't, 'b, 'n, 'o) inner_voter_state"
  vt_last_finalized_number :: nat
  vt_global_in :: 'g
  vt_global_out :: "('p, ('h, 's, 'i) communication_out) buffered"
  vt_last_finalized_in_rounds :: "'h \<times> nat"
  vt_outcomes :: 'x

abbreviation best_round :: "('h, 's, 'i, 't, 'b, 'n, 'o, 'g, 'p, 'x) voter \<Rightarrow> ('h, 's, 'i, 't, 'b, 'n, 'o) voting_round" where
  "best_round self \<equiv> iv_best_round (vt_inner self)"

abbreviation background :: "('h, 's, 'i, 't, 'b, 'n, 'o, 'g, 'p, 'x) voter \<Rightarrow> ('h, 's, 'i, 't, 'b, 'n, 'o) past_rounds" where
  "background self \<equiv> iv_past_rounds (vt_inner self)"

abbreviation set_background ::
  "('h, 's, 'i, 't, 'b, 'n, 'o) past_rounds \<Rightarrow> ('h, 's, 'i, 't, 'b, 'n, 'o, 'g, 'p, 'x) voter
     \<Rightarrow> ('h, 's, 'i, 't, 'b, 'n, 'o, 'g, 'p, 'x) voter" where
  "set_background pr self \<equiv> self\<lparr>vt_inner := (vt_inner self)\<lparr>iv_past_rounds := pr\<rparr>\<rparr>"

section \<open>Starting\<close>

text \<open>The loop over the votes of the last round: nothing if one of them is bad.\<close>

fun handle_votes ::
  "('h :: linorder, 's, 'i :: linorder, 'e, 't, 'b, 'n, 'o) environment \<Rightarrow> ('h, 's, 'i) signed_message list
     \<Rightarrow> ('h, 's, 'i, 't, 'b, 'n, 'o) voting_round \<Rightarrow> ('h, 's, 'i) shared
     \<Rightarrow> (('h, 's, 'i, 't, 'b, 'n, 'o) voting_round option \<times> ('h, 's, 'i) shared) option" where
  "handle_votes env [] last_round sh = Some (Some last_round, sh)"
| "handle_votes env (vote # votes) last_round sh =
     Option.bind (handle_vote env vote last_round sh) (\<lambda>(last_round, sh, result).
       case result of Inl _ \<Rightarrow> Some (None, sh) | Inr _ \<Rightarrow> handle_votes env votes last_round sh)"

definition instantiate_last_round ::
  "('h :: linorder, 's, 'i :: linorder, 'e, 't, 'b, 'n, 'o) environment \<Rightarrow> 'i voter_set \<Rightarrow> ('h, 's, 'i) signed_message list
     \<Rightarrow> u64 \<Rightarrow> 'h \<times> nat \<Rightarrow> ('h, 's, 'i) shared
     \<Rightarrow> (('h, 's, 'i, 't, 'b, 'n, 'o) voting_round option \<times> ('h, 's, 'i) shared) option" where
  "instantiate_last_round env vs last_round_votes last_round_number last_round_base sh =
     (let last_round_tracker = round_new \<lparr>rp_round_number = last_round_number, rp_voters = vs, rp_base = last_round_base\<rparr>;
          last_round = voting_round_completed env last_round_tracker None
      in Option.bind (handle_votes env last_round_votes last_round sh) (\<lambda>(handled, sh).
           Some (case handled of
               None \<Rightarrow> None
             | Some last_round \<Rightarrow> if st_completable (round_state (vr_votes last_round)) then Some last_round else None, sh)))"

definition voter_new ::
  "('h :: linorder, 's, 'i :: linorder, 'e, 't, 'b, 'n, 'o) environment \<Rightarrow> 'i voter_set \<Rightarrow> 'g \<times> 'p \<Rightarrow> u64
     \<Rightarrow> ('h, 's, 'i) signed_message list \<Rightarrow> 'h \<times> nat \<Rightarrow> 'h \<times> nat \<Rightarrow> 'x
     \<Rightarrow> (('h, 's, 'i, 't, 'b, 'n, 'o, 'g, 'p, 'x) voter \<times> ('h, 's, 'i) shared) option" where
  "voter_new env vs global_comms last_round_number last_round_votes last_round_base last_finalized outcomes =
     (case bridge_state (state_genesis last_round_base) [] of (heap, _, last_round_state) \<Rightarrow>
        let sh = \<lparr>sh_bridged = heap, sh_finalized = [], sh_calls = []\<rparr>
        in Option.bind
             (if 0 < last_round_number
              then Option.bind (instantiate_last_round env vs last_round_votes last_round_number last_round_base sh)
                (\<lambda>(maybe_completed_last_round, sh). Some (case maybe_completed_last_round of
                    None \<Rightarrow> (last_round_state, past_rounds_new, sh)
                  | Some last_round \<Rightarrow>
                      (case vr_bridge_state last_round sh of (last_round, sh, last_round_state) \<Rightarrow>
                         (last_round_state, past_rounds_push env past_rounds_new last_round, sh))))
              else Some (last_round_state, past_rounds_new, sh))
             (\<lambda>(last_round_state, past_rounds, sh).
                Option.bind (voting_round_new env (last_round_number + 1) vs last_finalized (Some last_round_state)) (\<lambda>best_round.
                  Some (\<lparr>vt_voters = vs, vt_inner = \<lparr>iv_best_round = best_round, iv_past_rounds = past_rounds\<rparr>,
                         vt_last_finalized_number = snd last_finalized, vt_global_in = fst global_comms,
                         vt_global_out = buffered_new (snd global_comms), vt_last_finalized_in_rounds = last_finalized,
                         vt_outcomes = outcomes\<rparr>, sh))))"

section \<open>Background rounds and notifications\<close>

text \<open>The first loop of \<^verbatim>\<open>prune_background_rounds\<close>: the commits of the background rounds go to the outgoing buffer.\<close>

function broadcast_commits ::
  "('h :: linorder, 's, 'i :: linorder, 'e, 't, 'b, 'n, 'o) environment \<Rightarrow> nat list
     \<Rightarrow> ('h, 's, 'i, 't, 'b, 'n, 'o, 'g, 'p, 'x) voter \<Rightarrow> ('h, 's, 'i) shared
     \<Rightarrow> (('h, 's, 'i, 't, 'b, 'n, 'o, 'g, 'p, 'x) voter \<times> ('h, 's, 'i) shared \<times> ('e + unit)) option" where
  "broadcast_commits env order self sh =
     (case past_rounds_poll_next env order (background self) sh of
        None \<Rightarrow> None
      | Some ((pr, order), sh, Inl e) \<Rightarrow> Some (set_background pr self, sh, Inl e)
      | Some ((pr, order), sh, Inr (Ready (Some (number, commit)))) \<Rightarrow>
          broadcast_commits env order
            ((set_background pr self)\<lparr>vt_global_out := buffered_push (vt_global_out self) (CommitOut number commit)\<rparr>) sh
      | Some ((pr, order), sh, Inr _) \<Rightarrow> Some (set_background pr self, sh, Inr ()))"
  by pat_completeness auto
termination
  by (relation "measure (\<lambda>(env, order, self, sh). length order)") (auto dest: past_rounds_poll_next_shorter)

declare broadcast_commits.simps [simp del]

definition set_last_finalized_number ::
  "('h, 's, 'i, 't, 'b, 'n, 'o, 'g, 'p, 'x) voter \<Rightarrow> nat \<Rightarrow> ('h, 's, 'i, 't, 'b, 'n, 'o, 'g, 'p, 'x) voter \<times> bool" where
  "set_last_finalized_number self finalized_number =
     (if vt_last_finalized_number self < finalized_number
      then (self\<lparr>vt_last_finalized_number := finalized_number\<rparr>, True) else (self, False))"

text \<open>The second loop: the queue of notifications is emptied.\<close>

fun finalize_notified ::
  "('h, 's, 'i, 'e, 't, 'b, 'n, 'o) environment \<Rightarrow> ('h, 's, 'i) finalized_notification list
     \<Rightarrow> ('h, 's, 'i, 't, 'b, 'n, 'o, 'g, 'p, 'x) voter \<Rightarrow> ('h, 's, 'i) shared
     \<Rightarrow> ('h, 's, 'i, 't, 'b, 'n, 'o, 'g, 'p, 'x) voter \<times> ('h, 's, 'i) shared \<times> ('e + unit)" where
  "finalize_notified env [] self sh = (self, sh\<lparr>sh_finalized := []\<rparr>, Inr ())"
| "finalize_notified env ((f_hash, f_num, round, commit) # notified) self sh =
     (let self = set_background (past_rounds_update_finalized (background self) f_num) self
      in case set_last_finalized_number self f_num of (self, finalizes) \<Rightarrow>
           (case (if finalizes then (call (CallFinalizeBlock f_hash f_num round commit) sh, env_finalize_block env f_hash f_num round commit)
                  else (sh, Inr ())) of
              (sh, Inl e) \<Rightarrow> (self, sh\<lparr>sh_finalized := notified\<rparr>, Inl e)
            | (sh, Inr _) \<Rightarrow>
                finalize_notified env notified
                  (if snd (vt_last_finalized_in_rounds self) < f_num then self\<lparr>vt_last_finalized_in_rounds := (f_hash, f_num)\<rparr> else self)
                  sh))"

definition prune_background_rounds ::
  "('h :: linorder, 's, 'i :: linorder, 'e, 't, 'b, 'n, 'o) environment \<Rightarrow> nat list
     \<Rightarrow> ('h, 's, 'i, 't, 'b, 'n, 'o, 'g, 'p, 'x) voter \<Rightarrow> ('h, 's, 'i) shared
     \<Rightarrow> (('h, 's, 'i, 't, 'b, 'n, 'o, 'g, 'p, 'x) voter \<times> ('h, 's, 'i) shared \<times> ('e + unit)) option" where
  "prune_background_rounds env order self sh =
     and_then (broadcast_commits env order self sh) (\<lambda>self sh _. Some (finalize_notified env (sh_finalized sh) self sh))"

section \<open>Messages from other nodes\<close>

definition process_commit ::
  "('h :: linorder, 's, 'i :: linorder, 'e, 't, 'b, 'n, 'o) environment
     \<Rightarrow> u64 \<Rightarrow> ('h, 's, 'i) compact_commit \<Rightarrow> (commit_processing_outcome, 'x) callback
     \<Rightarrow> ('h, 's, 'i, 't, 'b, 'n, 'o, 'g, 'p, 'x) voter \<Rightarrow> ('h, 's, 'i) shared
     \<Rightarrow> (('h, 's, 'i, 't, 'b, 'n, 'o, 'g, 'p, 'x) voter \<times> ('h, 's, 'i) shared \<times> ('e + unit)) option" where
  "process_commit env round_number compact process_commit_outcome self sh =
     (let commit = commit_from_compact compact;
          outcome = (\<lambda>out self. self\<lparr>vt_outcomes := callback_run process_commit_outcome out (vt_outcomes self)\<rparr>)
      in case past_rounds_import_commit (background self) round_number commit of
           (pr, None) \<Rightarrow> Some (outcome GoodCommit (set_background pr self), sh, Inr ())
         | (pr, Some commit) \<Rightarrow>
             Option.bind (validate_commit (env_ancestry env) commit (vt_voters self)) (\<lambda>validated.
               case validated of
                 Inl e \<Rightarrow> Some (set_background pr self, sh, Inl (env_from_error env e))
               | Inr validation_result \<Rightarrow>
                   if cvr_valid validation_result
                   then (let self = set_background (past_rounds_update_finalized pr (cm_target_number commit)) self
                         in if vt_last_finalized_number self < cm_target_number commit
                            then (let self = self\<lparr>vt_last_finalized_number := cm_target_number commit\<rparr>;
                                      sh = call (CallFinalizeBlock (cm_target_hash commit) (cm_target_number commit) round_number commit) sh
                                  in case env_finalize_block env (cm_target_hash commit) (cm_target_number commit) round_number commit of
                                       Inl e \<Rightarrow> Some (self, sh, Inl e)
                                     | Inr _ \<Rightarrow> Some (outcome GoodCommit self, sh, Inr ()))
                            else Some (outcome GoodCommit self, sh, Inr ()))
                   else Some (outcome (BadCommit (bad_commit_from validation_result)) (set_background pr self), sh, Inr ())))"

text \<open>The result of \<^verbatim>\<open>process_catch_up\<close> says whether the loop over the messages goes on.\<close>

definition process_catch_up ::
  "('h :: linorder, 's, 'i :: linorder, 'e, 't, 'b, 'n, 'o) environment
     \<Rightarrow> ('h, 's, 'i) catch_up \<Rightarrow> (catch_up_processing_outcome, 'x) callback
     \<Rightarrow> ('h, 's, 'i, 't, 'b, 'n, 'o, 'g, 'p, 'x) voter \<Rightarrow> ('h, 's, 'i) shared
     \<Rightarrow> (('h, 's, 'i, 't, 'b, 'n, 'o, 'g, 'p, 'x) voter \<times> ('h, 's, 'i) shared \<times> ('e + bool)) option" where
  "process_catch_up env catch_up process_catch_up_outcome self sh =
     (let outcome = (\<lambda>out self. self\<lparr>vt_outcomes := callback_run process_catch_up_outcome out (vt_outcomes self)\<rparr>)
      in Option.bind (validate_catch_up catch_up (env_ancestry env) (vt_voters self) (r_round_number (vr_votes (best_round self)))) (\<lambda>validated.
           case validated of
             None \<Rightarrow> Some (outcome BadCatchUp self, sh, Inr False)
           | Some round \<Rightarrow>
               (let state = round_state round
                in case vr_bridge_state (voting_round_completed env round None) sh of (just_completed, sh, last_round_state) \<Rightarrow>
                     Option.bind (voting_round_new env (r_round_number (vr_votes just_completed) + 1) (vt_voters self)
                         (vt_last_finalized_in_rounds self) (Some last_round_state)) (\<lambda>new_best.
                       let self =
                             (case st_finalized state of
                                Some (f_hash, f_num) \<Rightarrow>
                                  if snd (vt_last_finalized_in_rounds self) < f_num
                                  then self\<lparr>vt_last_finalized_in_rounds := (f_hash, f_num)\<rparr> else self
                              | None \<Rightarrow> self);
                           votes = vr_votes just_completed;
                           sh = call (CallCompleted (r_round_number votes) (round_state votes) (round_base votes) (r_historical_votes votes)) sh
                       in case env_completed env (r_round_number votes) (round_state votes) (round_base votes) (r_historical_votes votes) of
                            Inl e \<Rightarrow> Some (self, sh, Inl e)
                          | Inr _ \<Rightarrow>
                              Some (outcome GoodCatchUp
                                 (self\<lparr>vt_inner := \<lparr>iv_best_round = new_best,
                                    iv_past_rounds = past_rounds_push env (past_rounds_push env (background self) just_completed) (best_round self)\<rparr>\<rparr>),
                                sh, Inr True)))))"

text \<open>\<^verbatim>\<open>process_incoming\<close>: the loop ends with the stream, or with a catch-up that does not validate.\<close>

partial_function (option) process_incoming ::
  "('h :: linorder, 's, 'i :: linorder, 'e, 't, 'b, 'n, 'o) environment \<Rightarrow> ('h, 's, 'i, 'e, 'g, 'p, 'x) global_comms
     \<Rightarrow> ('h, 's, 'i, 't, 'b, 'n, 'o, 'g, 'p, 'x) voter \<Rightarrow> ('h, 's, 'i) shared
     \<Rightarrow> (('h, 's, 'i, 't, 'b, 'n, 'o, 'g, 'p, 'x) voter \<times> ('h, 's, 'i) shared \<times> ('e + unit)) option" where
  "process_incoming env gc self sh =
     (case gc_poll_next gc (vt_global_in self) of (global_in, polled) \<Rightarrow>
        let self = self\<lparr>vt_global_in := global_in\<rparr>
        in (case polled of
              Pending \<Rightarrow> Some (self, sh, Inr ())
            | Ready item \<Rightarrow>
                (case item of
                   None \<Rightarrow> Some (self, sh, Inr ())
                 | Some received \<Rightarrow>
                     (case received of
                        Inl e \<Rightarrow> Some (self, sh, Inl e)
                      | Inr message \<Rightarrow>
                          (case message of
                             CommitIn round_number commit process_commit_outcome \<Rightarrow>
                               Option.bind (process_commit env round_number commit process_commit_outcome self sh) (\<lambda>(self, sh, result).
                                 case result of Inl e \<Rightarrow> Some (self, sh, Inl e) | Inr _ \<Rightarrow> process_incoming env gc self sh)
                           | CatchUpIn catch_up process_catch_up_outcome \<Rightarrow>
                               Option.bind (process_catch_up env catch_up process_catch_up_outcome self sh) (\<lambda>(self, sh, result).
                                 case result of
                                   Inl e \<Rightarrow> Some (self, sh, Inl e)
                                 | Inr continue \<Rightarrow>
                                     if continue then process_incoming env gc self sh else Some (self, sh, Inr ())))))))"

section \<open>The best round\<close>

definition completed_best_round ::
  "('h :: linorder, 's, 'i :: linorder, 'e, 't, 'b, 'n, 'o) environment
     \<Rightarrow> ('h, 's, 'i, 't, 'b, 'n, 'o, 'g, 'p, 'x) voter \<Rightarrow> ('h, 's, 'i) shared
     \<Rightarrow> (('h, 's, 'i, 't, 'b, 'n, 'o, 'g, 'p, 'x) voter \<times> ('h, 's, 'i) shared \<times> ('e + unit)) option" where
  "completed_best_round env self sh =
     (let votes = vr_votes (best_round self);
          sh = call (CallCompleted (r_round_number votes) (round_state votes) (round_base votes) (r_historical_votes votes)) sh
      in case env_completed env (r_round_number votes) (round_state votes) (round_base votes) (r_historical_votes votes) of
           Inl e \<Rightarrow> Some (self, sh, Inl e)
         | Inr _ \<Rightarrow>
             (case vr_bridge_state (best_round self) sh of (old_round, sh, last_round_state) \<Rightarrow>
                Option.bind (voting_round_new env (r_round_number votes + 1) (vt_voters self) (vt_last_finalized_in_rounds self)
                    (Some last_round_state)) (\<lambda>next_round.
                  Some (self\<lparr>vt_inner := \<lparr>iv_best_round = next_round,
                      iv_past_rounds = past_rounds_push env (background self) old_round\<rparr>\<rparr>, sh, Inr ()))))"

text \<open>The result says whether the next round has been started, and the voter is polled again.\<close>

definition process_best_round ::
  "('h :: linorder, 's, 'i :: linorder, 'e, 't, 'b, 'n, 'o) environment
     \<Rightarrow> ('h, 's, 'i, 't, 'b, 'n, 'o, 'g, 'p, 'x) voter \<Rightarrow> ('h, 's, 'i) shared
     \<Rightarrow> (('h, 's, 'i, 't, 'b, 'n, 'o, 'g, 'p, 'x) voter \<times> ('h, 's, 'i) shared \<times> ('e + bool)) option" where
  "process_best_round env self sh =
     Option.bind (voting_round_poll env (best_round self) sh) (\<lambda>(best_round, sh, polled).
       let self = self\<lparr>vt_inner := (vt_inner self)\<lparr>iv_best_round := best_round\<rparr>\<rparr>
       in case polled of
            Inl e \<Rightarrow> Some (self, sh, Inl e)
          | Inr polled \<Rightarrow>
              if polled = Ready () \<and> vr_state best_round = Some Precommitted
              then and_then (completed_best_round env self sh) (\<lambda>self sh _. Some (self, sh, Inr True))
              else Some (self, sh, Inr False))"

section \<open>Polling the voter\<close>

text \<open>One turn of \<^verbatim>\<open>poll\<close>, up to the decision whether to poll again.\<close>

definition voter_turn ::
  "('h :: linorder, 's, 'i :: linorder, 'e, 't, 'b, 'n, 'o) environment \<Rightarrow> ('h, 's, 'i, 'e, 'g, 'p, 'x) global_comms \<Rightarrow> nat list
     \<Rightarrow> ('h, 's, 'i, 't, 'b, 'n, 'o, 'g, 'p, 'x) voter \<Rightarrow> ('h, 's, 'i) shared
     \<Rightarrow> (('h, 's, 'i, 't, 'b, 'n, 'o, 'g, 'p, 'x) voter \<times> ('h, 's, 'i) shared \<times> ('e + bool)) option" where
  "voter_turn env gc order self sh =
     and_then (process_incoming env gc self sh) (\<lambda>self sh _.
       and_then (prune_background_rounds env order self sh) (\<lambda>self sh _.
         case buffered_poll (gc_sink gc) (vt_global_out self) of (global_out, flushed) \<Rightarrow>
           and_then (Some (self\<lparr>vt_global_out := global_out\<rparr>, sh, flushed)) (\<lambda>self sh _. process_best_round env self sh)))"

text \<open>\<^verbatim>\<open>poll\<close> calls itself as long as new rounds are started; every turn polls the background rounds in an order of its own.\<close>

partial_function (option) voter_poll ::
  "('h :: linorder, 's, 'i :: linorder, 'e, 't, 'b, 'n, 'o) environment \<Rightarrow> ('h, 's, 'i, 'e, 'g, 'p, 'x) global_comms
     \<Rightarrow> (nat \<Rightarrow> nat list) \<Rightarrow> ('h, 's, 'i, 't, 'b, 'n, 'o, 'g, 'p, 'x) voter \<Rightarrow> ('h, 's, 'i) shared
     \<Rightarrow> (('h, 's, 'i, 't, 'b, 'n, 'o, 'g, 'p, 'x) voter \<times> ('h, 's, 'i) shared \<times> ('e + unit poll)) option" where
  "voter_poll env gc orders self sh =
     Option.bind (voter_turn env gc (orders 0) self sh) (\<lambda>(self, sh, result).
       case result of
         Inl e \<Rightarrow> Some (self, sh, Inl e)
       | Inr again \<Rightarrow> if again then voter_poll env gc (\<lambda>k. orders (Suc k)) self sh else Some (self, sh, Inr Pending))"

section \<open>Reports\<close>

record 'i report_round_state =
  rs_total_weight :: voter_weight
  rs_threshold_weight :: voter_weight
  rs_prevote_current_weight :: vote_weight
  rs_prevote_ids :: "'i set"
  rs_precommit_current_weight :: vote_weight
  rs_precommit_ids :: "'i set"

record 'i report_voter_state =
  rs_background_rounds :: "u64 \<rightharpoonup> 'i report_round_state"
  rs_best_round :: "u64 \<times> 'i report_round_state"

definition to_round_state :: "('h, 's, 'i, 't, 'b, 'n, 'o) voting_round \<Rightarrow> u64 \<times> 'i report_round_state" where
  "to_round_state voting_round =
     (let votes = vr_votes voting_round; vs = cx_voters (r_context votes)
      in (r_round_number votes,
          \<lparr>rs_total_weight = vs_total_weight vs, rs_threshold_weight = vs_threshold vs,
           rs_prevote_current_weight = fst (prevote_participation votes), rs_prevote_ids = set (map fst (round_prevotes votes)),
           rs_precommit_current_weight = fst (precommit_participation votes), rs_precommit_ids = set (map fst (round_precommits votes))\<rparr>))"

definition voter_state_get :: "('h, 's, 'i, 't, 'b, 'n, 'o) inner_voter_state \<Rightarrow> 'i report_voter_state" where
  "voter_state_get inner =
     \<lparr>rs_background_rounds = map_of (rev (map to_round_state (voting_rounds (iv_past_rounds inner)))),
      rs_best_round = to_round_state (iv_best_round inner)\<rparr>"

section \<open>The loop over the messages\<close>

lemma process_incoming_induct [consumes 1, case_names stop commit catch_up]:
  assumes run: "process_incoming env gc self sh = Some y"
    and stop: "\<And>self sh g res. P self sh (self\<lparr>vt_global_in := g\<rparr>, sh, res)"
    and commit: "\<And>self sh g k c cb self1 sh1 r1 y. gc_poll_next gc (vt_global_in self) = (g, Ready (Some (Inr (CommitIn k c cb)))) \<Longrightarrow>
      process_commit env k c cb (self\<lparr>vt_global_in := g\<rparr>) sh = Some (self1, sh1, r1) \<Longrightarrow>
      (case r1 of Inl e \<Rightarrow> y = (self1, sh1, Inl e) | Inr _ \<Rightarrow> P self1 sh1 y) \<Longrightarrow> P self sh y"
    and catch_up: "\<And>self sh g cu cb self1 sh1 r1 y. gc_poll_next gc (vt_global_in self) = (g, Ready (Some (Inr (CatchUpIn cu cb)))) \<Longrightarrow>
      process_catch_up env cu cb (self\<lparr>vt_global_in := g\<rparr>) sh = Some (self1, sh1, r1) \<Longrightarrow>
      (case r1 of Inl e \<Rightarrow> y = (self1, sh1, Inl e) | Inr b \<Rightarrow> if b then P self1 sh1 y else y = (self1, sh1, Inr ())) \<Longrightarrow> P self sh y"
  shows "P self sh y"
proof -
  have "env' = env \<longrightarrow> gc' = gc \<longrightarrow> P self sh y" if "process_incoming env' gc' self sh = Some y" for env' gc' self sh y
  proof (rule process_incoming.raw_induct [OF _ that])
    fix rec env' gc' self sh y
    assume IH: "\<And>env' gc' self sh y. rec env' gc' self sh = Some y \<Longrightarrow> env' = env \<longrightarrow> gc' = gc \<longrightarrow> P self sh y"
      and eq: "(case gc_poll_next gc' (vt_global_in self) of (global_in, polled) \<Rightarrow>
        let self = self\<lparr>vt_global_in := global_in\<rparr>
        in (case polled of
              Pending \<Rightarrow> Some (self, sh, Inr ())
            | Ready item \<Rightarrow>
                (case item of
                   None \<Rightarrow> Some (self, sh, Inr ())
                 | Some received \<Rightarrow>
                     (case received of
                        Inl e \<Rightarrow> Some (self, sh, Inl e)
                      | Inr message \<Rightarrow>
                          (case message of
                             CommitIn round_number commit process_commit_outcome \<Rightarrow>
                               Option.bind (process_commit env' round_number commit process_commit_outcome self sh) (\<lambda>(self, sh, result).
                                 case result of Inl e \<Rightarrow> Some (self, sh, Inl e) | Inr _ \<Rightarrow> rec env' gc' self sh)
                           | CatchUpIn catch_up process_catch_up_outcome \<Rightarrow>
                               Option.bind (process_catch_up env' catch_up process_catch_up_outcome self sh) (\<lambda>(self, sh, result).
                                 case result of
                                   Inl e \<Rightarrow> Some (self, sh, Inl e)
                                 | Inr continue \<Rightarrow>
                                     if continue then rec env' gc' self sh else Some (self, sh, Inr ()))))))) = Some y"
    show "env' = env \<longrightarrow> gc' = gc \<longrightarrow> P self sh y"
    proof (intro impI)
      assume [simp]: "env' = env" "gc' = gc"
      obtain g polled where g: "gc_poll_next gc (vt_global_in self) = (g, polled)" by fastforce
      let ?self = "self\<lparr>vt_global_in := g\<rparr>"
      show "P self sh y"
      proof (cases "\<exists>m. polled = Ready (Some (Inr m))")
        case False
        then show ?thesis using eq g stop by (auto simp: Let_def split: poll.split_asm option.split_asm sum.split_asm)
      next
        case True
        then obtain m where m: "polled = Ready (Some (Inr m))" by blast
        show ?thesis
        proof (cases m)
          case (CommitIn k c cb)
          then obtain self1 sh1 r1 where p: "process_commit env k c cb ?self sh = Some (self1, sh1, r1)"
            using eq g m by (auto simp: Let_def bind_eq_Some_conv)
          have "case r1 of Inl e \<Rightarrow> y = (self1, sh1, Inl e) | Inr _ \<Rightarrow> P self1 sh1 y"
            using eq g m CommitIn p IH by (cases r1) (simp_all add: Let_def)
          then show ?thesis by (rule commit [OF g [unfolded m CommitIn] p])
        next
          case (CatchUpIn cu cb)
          then obtain self1 sh1 r1 where p: "process_catch_up env cu cb ?self sh = Some (self1, sh1, r1)"
            using eq g m by (auto simp: Let_def bind_eq_Some_conv)
          have "case r1 of Inl e \<Rightarrow> y = (self1, sh1, Inl e) | Inr b \<Rightarrow> if b then P self1 sh1 y else y = (self1, sh1, Inr ())"
            using eq g m CatchUpIn p IH by (cases r1) (simp_all add: Let_def split: if_split_asm)
          then show ?thesis by (rule catch_up [OF g [unfolded m CatchUpIn] p])
        qed
      qed
    qed
  qed
  then show ?thesis using run by blast
qed

end
