(* ===== verification/Voter_Rounds.thy ===== *)
theory Voter_Rounds
  imports Voter_Spec Voter
begin

text \<open>
  The rounds of a voter, best and background, follow the abstract voter: every poll of one of them is a few of its steps.
\<close>

section \<open>Documented behaviour of the environment\<close>

definition env_ok ::
  "('h \<Rightarrow> 'h \<Rightarrow> error + 'h list) \<Rightarrow> ('h \<Rightarrow> nat) \<Rightarrow> ('h, 's, 'i, 'e, 't, 'b, 'n, 'o) environment \<Rightarrow> bool" where
  "env_ok ancestry number env \<longleftrightarrow> env_ancestry env = ancestry \<and> env_votes_ok number env"

section \<open>Views of bridged states\<close>

definition views_ok :: "('h, 's, 'i, 't, 'b, 'n, 'o) voting_round \<Rightarrow> nat \<Rightarrow> bool" where
  "views_ok vr n \<longleftrightarrow> (\<forall>a. vr_last_round_state vr = Some (LatterView a) \<longrightarrow> a < n) \<and>
     (\<forall>a. vr_bridged_round_state vr = Some (PriorView a) \<longrightarrow> a < n)"

lemma views_ok_mono: "views_ok vr m \<Longrightarrow> m \<le> n \<Longrightarrow> views_ok vr n"
  by (auto simp: views_ok_def dest: less_le_trans)

lemma prior_view_update_length [simp]: "length (prior_view_update v st heap) = length heap"
  by (cases v) simp

lemma notify_views:
  assumes "notify env a b self sh = Some (self', sh')"
  shows "vr_bridged_round_state self' = vr_bridged_round_state self" "length (sh_bridged sh') = length (sh_bridged sh)"
proof -
  let ?sh = "if a \<noteq> b then (case vr_bridged_round_state self of Some v \<Rightarrow> sh\<lparr>sh_bridged := prior_view_update v b (sh_bridged sh)\<rparr> | None \<Rightarrow> sh) else sh"
  have "vr_bridged_round_state self' = vr_bridged_round_state self \<and> sh_bridged sh' = sh_bridged ?sh"
    using assms unfolding notify_def Let_def
    by (simp only: split: if_split_asm option.split_asm prod.split_asm) (auto simp: bind_eq_Some_conv)
  moreover have "length (sh_bridged ?sh) = length (sh_bridged sh)" by (simp split: option.split)
  ultimately show "vr_bridged_round_state self' = vr_bridged_round_state self" "length (sh_bridged sh') = length (sh_bridged sh)" by auto
qed

text \<open>What a poll keeps.\<close>

definition keeps ::
  "('h, 's, 'i, 't, 'b, 'n, 'o) voting_round \<Rightarrow> ('h, 's, 'i) shared
     \<Rightarrow> ('h, 's, 'i, 't, 'b, 'n, 'o) voting_round \<Rightarrow> ('h, 's, 'i) shared \<Rightarrow> bool" where
  "keeps vr sh vr' sh' \<longleftrightarrow> vr_bridged_round_state vr' = vr_bridged_round_state vr \<and> vr_last_round_state vr' = vr_last_round_state vr \<and>
     length (sh_bridged sh') = length (sh_bridged sh) \<and> r_round_number (vr_votes vr') = r_round_number (vr_votes vr)"

lemma keeps_trans: "keeps a x b y \<Longrightarrow> keeps b y c z \<Longrightarrow> keeps a x c z"
  by (simp add: keeps_def)

lemma keeps_views: "keeps vr sh vr' sh' \<Longrightarrow> views_ok vr (length (sh_bridged sh)) \<Longrightarrow> views_ok vr' (length (sh_bridged sh'))"
  by (simp add: keeps_def views_ok_def)

lemma handles_keeps: "handles vr sh vr' sh' \<Longrightarrow> keeps vr sh vr' sh'"
  by (simp add: keeps_def handles_def)

lemma cast_votes_keeps:
  assumes "cast_votes env l vr sh = Some (vr', sh', res)"
  shows "keeps vr sh vr' sh'"
proof -
  obtain cs where e: "effects vr sh cs vr' sh'" using cast_votes_effects [OF assms] by (elim exE conjE) (rule that)
  have "casts vr sh vr' sh'" by (rule cast_votes_casts [OF assms])
  then show ?thesis using effectsD(3,5,7) [OF e] by (simp add: keeps_def casts_def)
qed

lemma voting_round_poll_keeps:
  assumes "voting_round_poll env vr sh = Some (vr', sh', res)"
  shows "keeps vr sh vr' sh'"
proof -
  note k = handles_keeps [OF vr_process_incoming_handles] cast_votes_keeps
  have out: "keeps x sh (x\<lparr>vr_outgoing := out'\<rparr>) sh" for x sh and out' by (simp add: keeps_def)
  show ?thesis
    using assms
  proof (cases rule: voting_round_poll_cases)
    case (receive e)
    then show ?thesis using k(1) by blast
  next
    case (vote self1 sh1 e)
    show ?thesis by (rule keeps_trans [OF k(1) [OF vote(1)] k(2) [OF vote(2)]])
  next
    case (flush self1 sh1 self2 out' flushed)
    show ?thesis unfolding flush(4) by (rule keeps_trans [OF keeps_trans [OF k(1) [OF flush(1)] k(2) [OF flush(2)]] out])
  next
    case (receive' self1 sh1 self2 sh2 out' e)
    show ?thesis by (rule keeps_trans [OF keeps_trans [OF keeps_trans [OF k(1) [OF receive'(1)] k(2) [OF receive'(2)]] out] k(1) [OF receive'(4)]])
  next
    case (finish self1 sh1 self2 sh2 out' self3 sh3)
    have "keeps vr sh self3 sh3"
      by (rule keeps_trans [OF keeps_trans [OF keeps_trans [OF k(1) [OF finish(1)] k(2) [OF finish(2)]] out] k(1) [OF finish(4)]])
    moreover have "keeps self3 sh3 vr' sh'" using notify_keeps [OF finish(5)] notify_views [OF finish(5)] by (simp add: keeps_def)
    ultimately show ?thesis by (rule keeps_trans)
  qed
qed

section \<open>Following the abstract voter\<close>

definition tracks ::
  "('h \<Rightarrow> 'h \<Rightarrow> error + 'h list) \<Rightarrow> ('h \<Rightarrow> nat) \<Rightarrow> ('i :: linorder) voter_set
     \<Rightarrow> ('h :: linorder, 's, 'i, 't, 'b, 'n, 'o) voter_spec \<Rightarrow> ('h, 's, 'i, 't, 'b, 'n, 'o) voting_round multiset
     \<Rightarrow> ('h, 's, 'i) shared \<Rightarrow> bool" where
  "tracks ancestry number vs a R sh \<longleftrightarrow> av_rounds a = R \<and> av_calls a = sh_calls sh \<and> set (sh_finalized sh) \<subseteq> av_notified a \<and>
     rounds_ok ancestry number vs a \<and> justified_ok ancestry number vs a"

definition evolves ::
  "('h \<Rightarrow> 'h \<Rightarrow> error + 'h list) \<Rightarrow> ('h \<Rightarrow> nat) \<Rightarrow> ('i :: linorder) voter_set
     \<Rightarrow> ('h :: linorder, 's, 'i, 't, 'b, 'n, 'o) voter_spec \<Rightarrow> ('h, 's, 'i, 't, 'b, 'n, 'o) voter_spec \<Rightarrow> bool" where
  "evolves ancestry number vs a a' \<longleftrightarrow> voter_steps ancestry number vs a a' \<and> av_best a' = av_best a \<and> av_finalized a' = av_finalized a"

lemma evolves_refl [simp]: "evolves ancestry number vs a a"
  by (simp add: evolves_def)

lemma evolves_trans: "evolves ancestry number vs a b \<Longrightarrow> evolves ancestry number vs b c \<Longrightarrow> evolves ancestry number vs a c"
  by (auto simp: evolves_def)

lemma tracks_step:
  assumes "tracks ancestry number vs a R sh" "voter_step ancestry number vs a a'"
    and "av_rounds a' = R'" "av_calls a' = sh_calls sh'" "set (sh_finalized sh') \<subseteq> av_notified a'"
  shows "tracks ancestry number vs a' R' sh'"
  using assms rounds_ok_step [OF assms(2)] justified_ok_step [OF assms(2)] by (simp add: tracks_def)

lemma evolves_step:
  assumes "voter_step ancestry number vs a a'" "av_best a' = av_best a" "av_finalized a' = av_finalized a"
  shows "evolves ancestry number vs a a'"
  using assms by (simp add: evolves_def r_into_rtranclp)

lemma track_vote:
  assumes t: "tracks ancestry number vs a (add_mset vr M) sh" and c: "casts vr sh vr' sh'"
    and s: "round_steps ancestry number (vr_votes vr) (vr_votes vr')" and f: "set (sh_finalized sh') = set (sh_finalized sh)"
  shows "\<exists>a'. evolves ancestry number vs a a' \<and> tracks ancestry number vs a' (add_mset vr' M) sh'"
proof -
  obtain cs where cs: "sh_calls sh' = sh_calls sh @ cs" using c by (auto simp: casts_def)
  have m: "moves vr cs vr'" using c cs by (auto simp: moves_def)
  let ?a = "a\<lparr>av_rounds := add_mset vr' M, av_calls := av_calls a @ cs\<rparr>"
  have r: "av_rounds a = add_mset vr M" using t by (simp add: tracks_def)
  note st = voter_step.vote [where ancestry = ancestry and number = number and vs = vs, OF r m s]
  have "tracks ancestry number vs ?a (add_mset vr' M) sh'"
    by (rule tracks_step [OF t st]) (use t cs f in \<open>auto simp: tracks_def\<close>)
  then show ?thesis using evolves_step [OF st] by auto
qed

lemma track_announce:
  assumes t: "tracks ancestry number vs a R sh" and vr: "vr \<in># R" and x: "announces ancestry (vr_votes vr) x"
    and sh': "sh_calls sh' = sh_calls sh" "set (sh_finalized sh') \<subseteq> insert x (set (sh_finalized sh))"
  shows "\<exists>a'. evolves ancestry number vs a a' \<and> tracks ancestry number vs a' R sh'"
proof -
  have r: "vr \<in># av_rounds a" using t vr by (simp add: tracks_def)
  note st = voter_step.announce [where ancestry = ancestry and number = number and vs = vs, OF r x]
  have "tracks ancestry number vs (a\<lparr>av_notified := insert x (av_notified a)\<rparr>) R sh'"
    by (rule tracks_step [OF t st]) (use t sh' in \<open>auto simp: tracks_def\<close>)
  then show ?thesis using evolves_step [OF st] by auto
qed

lemma track_lose:
  assumes t: "tracks ancestry number vs a (add_mset vr M) sh"
  shows "\<exists>a'. evolves ancestry number vs a a' \<and> tracks ancestry number vs a' M sh"
proof -
  have r: "av_rounds a = add_mset vr M" using t by (simp add: tracks_def)
  note st = voter_step.lose [where ancestry = ancestry and number = number and vs = vs, OF r]
  have "tracks ancestry number vs (a\<lparr>av_rounds := M\<rparr>) M sh"
    by (rule tracks_step [OF t st]) (use t in \<open>auto simp: tracks_def\<close>)
  then show ?thesis using evolves_step [OF st] by auto
qed

lemma track_conclude:
  assumes t: "tracks ancestry number vs a (add_mset vr M) sh" and e: "estimate_final (round_state (vr_votes vr)) (av_finalized a)"
  shows "\<exists>a'. evolves ancestry number vs a a' \<and> tracks ancestry number vs a' M (call (concluded_call (vr_votes vr)) sh)"
proof -
  have r: "av_rounds a = add_mset vr M" using t by (simp add: tracks_def)
  note st = voter_step.conclude [where ancestry = ancestry and number = number and vs = vs, OF r e]
  have "tracks ancestry number vs (a\<lparr>av_rounds := M, av_calls := av_calls a @ [concluded_call (vr_votes vr)]\<rparr>) M
      (call (concluded_call (vr_votes vr)) sh)"
    by (rule tracks_step [OF t st]) (use t in \<open>auto simp: tracks_def call_def\<close>)
  then show ?thesis using evolves_step [OF st] by auto
qed

text \<open>A poll of a round.\<close>

lemma track_poll:
  assumes t: "tracks ancestry number vs a (add_mset vr M) sh" and env: "env_ok ancestry number env"
    and p: "voting_round_poll env vr sh = Some (vr', sh', res)"
  shows "\<exists>a'. evolves ancestry number vs a a' \<and> tracks ancestry number vs a' (add_mset vr' M) sh'"
proof -
  have anc: "env_ancestry env = ancestry" and votes: "env_votes_ok number env" using env by (simp_all add: env_ok_def)
  let ?sh = "sh'\<lparr>sh_finalized := sh_finalized sh\<rparr>"
  have "casts vr sh vr' ?sh" using voting_round_poll_casts [OF p] by (simp add: casts_def)
  then obtain a1 where a1: "evolves ancestry number vs a a1" "tracks ancestry number vs a1 (add_mset vr' M) ?sh"
    using track_vote [OF t] voting_round_poll_steps [OF p votes] by (force simp: anc)
  have "\<exists>x. set (sh_finalized sh') \<subseteq> insert x (set (sh_finalized ?sh)) \<and> announces ancestry (vr_votes vr') x"
    if new: "sh_finalized sh' \<noteq> sh_finalized sh"
  proof -
    obtain self3 sh3 where nt: "notify env (round_state (vr_votes vr)) (round_state (vr_votes self3)) self3 sh3 = Some (vr', sh')"
        "sh_finalized sh3 = sh_finalized sh"
      using voting_round_poll_notify [OF p] new by blast
    note v = notify_keeps(1) [OF nt(1)]
    from nt(1) show ?thesis
    proof (cases rule: notify_cases)
      case quiet
      then show ?thesis using new nt(2) by simp
    next
      case (send f n pcs)
      then show ?thesis using nt(2)
        by (intro exI [of _ "(f, n, r_round_number (vr_votes self3), \<lparr>cm_target_hash = f, cm_target_number = n, cm_precommits = pcs\<rparr>)"])
          (auto simp: announces_def anc)
    qed
  qed
  then consider "sh_finalized sh' = sh_finalized sh" | x where "set (sh_finalized sh') \<subseteq> insert x (set (sh_finalized ?sh))"
      "announces ancestry (vr_votes vr') x" by blast
  then show ?thesis
  proof cases
    case 1
    then have "?sh = sh'" by simp
    then show ?thesis using a1 by auto
  next
    case (2 x)
    obtain a2 where "evolves ancestry number vs a1 a2" "tracks ancestry number vs a2 (add_mset vr' M) sh'"
      using track_announce [OF a1(2) _ 2(2), of sh'] 2(1) by auto
    then show ?thesis using evolves_trans [OF a1(1)] by blast
  qed
qed

section \<open>Background rounds\<close>

definition channels_ok :: "('h \<Rightarrow> nat) \<Rightarrow> ('h, 's, 'i) channels \<Rightarrow> bool" where
  "channels_ok number ch \<longleftrightarrow> (\<forall>q \<in> set ch. \<forall>cs. q = Some cs \<longrightarrow> (\<forall>c \<in> set cs. precommits_ok number (cm_precommits c)))"

lemma channels_ok_update:
  assumes "channels_ok number ch" "\<And>cs c. v = Some cs \<Longrightarrow> c \<in> set cs \<Longrightarrow> precommits_ok number (cm_precommits c)"
  shows "channels_ok number (ch[a := v])"
proof -
  have "set (ch[a := v]) \<subseteq> insert v (set ch)" by (rule set_update_subset_insert)
  then show ?thesis using assms unfolding channels_ok_def by blast
qed

lemma channels_ok_drop: "channels_ok number ch \<Longrightarrow> channels_ok number (bg_drop bg ch)"
  by (auto simp: bg_drop_def intro!: channels_ok_update split: option.split)

lemma channels_ok_poll:
  assumes "channels_ok number ch" "background_round_poll env bg ch sh = Some ((bg', ch'), sh', res)"
  shows "channels_ok number ch'"
  using background_round_poll_channels(1) [OF assms(2)] assms(1) by (auto intro!: channels_ok_update)

lemma bg_queue_ok:
  assumes "channels_ok number ch" "bg_round_committer bg = Some c" "rc_import_commits c < length ch"
  shows "\<forall>x \<in> set (bg_queue c ch). precommits_ok number (cm_precommits x)"
proof -
  have mem: "ch ! rc_import_commits c \<in> set ch" using assms(3) by (rule nth_mem)
  show ?thesis
  proof (cases "ch ! rc_import_commits c")
    case None
    then show ?thesis by (simp add: bg_queue_def)
  next
    case (Some q)
    then show ?thesis using mem assms(1) by (simp add: bg_queue_def channels_ok_def)
  qed
qed

lemma background_round_poll_keeps:
  assumes "background_round_poll env bg ch sh = Some ((bg', ch'), sh', res)"
  shows "keeps (bg_inner bg) sh (bg_inner bg') sh'"
  using assms
  by (cases rule: background_round_poll_cases)
    (auto dest: voting_round_poll_keeps rc_commit_facts(1) [THEN handles_keeps] intro: keeps_trans)

lemma track_background_poll:
  assumes t: "tracks ancestry number vs a (add_mset (bg_inner bg) M) sh" and env: "env_ok ancestry number env"
    and p: "background_round_poll env bg ch sh = Some ((bg', ch'), sh', res)"
    and q: "\<And>c. bg_round_committer bg = Some c \<Longrightarrow> \<forall>x \<in> set (bg_queue c ch). precommits_ok number (cm_precommits x)"
  shows "\<exists>a'. evolves ancestry number vs a a' \<and> tracks ancestry number vs a' (add_mset (bg_inner bg') M) sh'"
proof -
  have anc: "env_ancestry env = ancestry" using env by (simp add: env_ok_def)
  have two: "\<exists>a'. evolves ancestry number vs a a' \<and> tracks ancestry number vs a' (add_mset vr' M) sh'"
    if v: "voting_round_poll env (bg_inner bg) sh = Some (vr, sh1, Inr p)" and c: "bg_round_committer bg = Some c"
      and r: "rc_commit env c (bg_queue c ch) vr sh1 = Some ((vr', c'), sh', r')" for vr sh1 p c vr' c' r'
  proof -
    obtain a1 where a1: "evolves ancestry number vs a a1" "tracks ancestry number vs a1 (add_mset vr M) sh1"
      using track_poll [OF t env v] by blast
    note f = rc_commit_facts [OF r]
    have "round_steps ancestry number (vr_votes vr) (vr_votes vr')" using f(3) q [OF c] by (simp add: anc)
    then obtain a2 where "evolves ancestry number vs a1 a2" "tracks ancestry number vs a2 (add_mset vr' M) sh'"
      using track_vote [OF a1(2) casts_handles [OF f(1)]] handlesD(9) [OF f(1)] by auto
    then show ?thesis using evolves_trans [OF a1(1)] by blast
  qed
  show ?thesis
    using p
  proof (cases rule: background_round_poll_cases)
    case (failed vr e)
    then show ?thesis using track_poll [OF t env failed(1)] by simp
  next
    case (free vr p)
    then show ?thesis using track_poll [OF t env free(1)] by simp
  next
    case (broken vr sh1 p c vr' c' e)
    then show ?thesis using two [OF broken(1-3)] by simp
  next
    case (wait vr sh1 p c vr' c')
    then show ?thesis using two [OF wait(1-3)] by simp
  next
    case (silent vr sh1 p c vr' c')
    then show ?thesis using two [OF silent(1-3)] by simp
  next
    case (commit vr sh1 p c vr' c' commit)
    then show ?thesis using two [OF commit(1-3)] by simp
  qed
qed

text \<open>A round is concluded only when it is done.\<close>

lemma background_round_poll_concluded:
  assumes "background_round_poll env bg ch sh = Some ((bg', ch'), sh', Inr (Ready (Concluded n)))"
  shows "is_done bg'" "n = bg_round_number bg'"
  using assms by (cases rule: background_round_poll_cases; auto simp: bg_outcome_def split: if_split_asm)+

lemma is_done_final: "is_done bg \<Longrightarrow> bg_finalized_number bg \<le> f \<Longrightarrow> estimate_final (round_state (vr_votes (bg_inner bg))) f"
  by (auto simp: is_done_def estimate_final_def split: option.splits)

section \<open>All rounds\<close>

definition background_ok :: "('h \<Rightarrow> nat) \<Rightarrow> nat \<Rightarrow> ('h, 's, 'i, 't, 'b, 'n, 'o) past_rounds \<Rightarrow> bool" where
  "background_ok number f pr \<longleftrightarrow> past_rounds_ok pr \<and> channels_ok number (pr_channels pr) \<and>
     (\<forall>bg \<in> set (pr_past_rounds pr). bg_finalized_number bg \<le> f)"

definition follows ::
  "('h \<Rightarrow> 'h \<Rightarrow> error + 'h list) \<Rightarrow> ('h \<Rightarrow> nat) \<Rightarrow> ('i :: linorder) voter_set
     \<Rightarrow> ('h :: linorder, 's, 'i, 't, 'b, 'n, 'o) voter_spec \<Rightarrow> ('h, 's, 'i, 't, 'b, 'n, 'o) voting_round
     \<Rightarrow> ('h, 's, 'i, 't, 'b, 'n, 'o) past_rounds \<Rightarrow> ('h, 's, 'i) shared \<Rightarrow> bool" where
  "follows ancestry number vs a best pr sh \<longleftrightarrow> tracks ancestry number vs a (add_mset best (mset (voting_rounds pr))) sh \<and>
     background_ok number (av_finalized a) pr \<and>
     (\<forall>vr \<in># add_mset best (mset (voting_rounds pr)). views_ok vr (length (sh_bridged sh)))"

lemma voting_rounds_remove:
  assumes "i < length (pr_past_rounds pr)"
  shows "mset (voting_rounds pr) = add_mset (bg_inner (pr_past_rounds pr ! i)) (image_mset bg_inner (mset (remove_nth i (pr_past_rounds pr))))"
  using mset_remove_nth [OF assms] by (simp add: voting_rounds_def)

text \<open>A poll of one of the background rounds, from which it may come back, be dropped or be moved.\<close>

lemma follows_poll:
  assumes f: "follows ancestry number vs a best pr sh" and env: "env_ok ancestry number env" and i: "i < length (pr_past_rounds pr)"
    and p: "background_round_poll env (pr_past_rounds pr ! i) (pr_channels pr) sh = Some ((bg, ch), sh', res)"
  obtains a' where "evolves ancestry number vs a a'"
    "tracks ancestry number vs a' (add_mset (bg_inner bg) (add_mset best (image_mset bg_inner (mset (remove_nth i (pr_past_rounds pr)))))) sh'"
    "\<forall>vr \<in># add_mset (bg_inner bg) (add_mset best (image_mset bg_inner (mset (remove_nth i (pr_past_rounds pr))))). views_ok vr (length (sh_bridged sh'))"
    "bg_finalized_number bg \<le> av_finalized a'"
    "\<And>pr'. pr_past_rounds pr' = remove_nth i (pr_past_rounds pr) \<Longrightarrow> pr_channels pr' = bg_drop bg ch \<Longrightarrow>
       (\<And>n k. pr_commit_senders pr' n = Some k \<Longrightarrow> pr_commit_senders pr n = Some k) \<Longrightarrow> background_ok number (av_finalized a') pr'"
    "\<And>pr'. mset (pr_past_rounds pr') = add_mset bg (mset (remove_nth i (pr_past_rounds pr))) \<Longrightarrow> pr_channels pr' = ch \<Longrightarrow>
       pr_commit_senders pr' = pr_commit_senders pr \<Longrightarrow> background_ok number (av_finalized a') pr'"
proof -
  let ?bg = "pr_past_rounds pr ! i" and ?M = "image_mset bg_inner (mset (remove_nth i (pr_past_rounds pr)))"
  have b: "past_rounds_ok pr" "channels_ok number (pr_channels pr)" "\<And>bg. bg \<in> set (pr_past_rounds pr) \<Longrightarrow> bg_finalized_number bg \<le> av_finalized a"
    using f by (auto simp: follows_def background_ok_def)
  have o: "open_channels (add_mset ?bg (mset (remove_nth i (pr_past_rounds pr)))) (pr_channels pr)"
    using b(1) mset_remove_nth [OF i] by (simp add: past_rounds_ok_def)
  have q: "\<forall>x \<in> set (bg_queue c (pr_channels pr)). precommits_ok number (cm_precommits x)" if "bg_round_committer ?bg = Some c" for c
    using open_channelsD(2) [OF o] that by (intro bg_queue_ok [OF b(2) that]) (simp add: bg_address_def)
  have t: "tracks ancestry number vs a (add_mset (bg_inner ?bg) (add_mset best ?M)) sh"
    using f voting_rounds_remove [OF i] by (simp add: follows_def add_mset_commute)
  obtain a' where a': "evolves ancestry number vs a a'" "tracks ancestry number vs a' (add_mset (bg_inner bg) (add_mset best ?M)) sh'"
    using track_background_poll [OF t env p q] by blast
  have fin: "av_finalized a' = av_finalized a" using a'(1) by (simp add: evolves_def)
  note k = background_round_poll_keeps [OF p]
  have len: "length (sh_bridged sh') = length (sh_bridged sh)" using k by (simp add: keeps_def)
  have views: "\<forall>vr \<in># add_mset (bg_inner ?bg) (add_mset best ?M). views_ok vr (length (sh_bridged sh))"
    using f voting_rounds_remove [OF i] by (simp add: follows_def)
  then have views': "\<forall>vr \<in># add_mset (bg_inner bg) (add_mset best ?M). views_ok vr (length (sh_bridged sh'))"
    using keeps_views [OF k] by (simp add: len)
  have bgf: "bg_finalized_number bg \<le> av_finalized a'"
    using background_round_poll_channels(2) [OF p] b(3) [OF nth_mem [OF i]] by (simp add: fin)
  have rest: "bg_finalized_number x \<le> av_finalized a'" if "x \<in> set (remove_nth i (pr_past_rounds pr))" for x
    using b(3) that set_remove_nth by (fastforce simp: fin)
  have senders: "k < length ch" if "pr_commit_senders pr n = Some k" for n k
    using b(1) that background_round_poll_length [OF p] by (auto simp: past_rounds_ok_def)
  note op = background_round_poll_open [OF p o] and co = channels_ok_poll [OF b(2) p]
  show thesis
  proof (rule that [OF a' views' bgf])
    fix pr' :: "('a, 'c, 'b, 'd, 'e, 'f, 'g) past_rounds"
    assume pr': "pr_past_rounds pr' = remove_nth i (pr_past_rounds pr)" "pr_channels pr' = bg_drop bg ch"
      "\<And>n k. pr_commit_senders pr' n = Some k \<Longrightarrow> pr_commit_senders pr n = Some k"
    have "k < length ch" if "pr_commit_senders pr' n = Some k" for n k by (rule senders [OF pr'(3) [OF that]])
    then show "background_ok number (av_finalized a') pr'"
      using op(2) channels_ok_drop [OF co] rest unfolding background_ok_def past_rounds_ok_def pr'(1,2) by auto
  next
    fix pr' :: "('a, 'c, 'b, 'd, 'e, 'f, 'g) past_rounds"
    assume pr': "mset (pr_past_rounds pr') = add_mset bg (mset (remove_nth i (pr_past_rounds pr)))" "pr_channels pr' = ch"
      "pr_commit_senders pr' = pr_commit_senders pr"
    have "set (pr_past_rounds pr') = insert bg (set (remove_nth i (pr_past_rounds pr)))"
      by (metis pr'(1) set_mset_add_mset_insert set_mset_mset)
    then show "background_ok number (av_finalized a') pr'"
      using op(1) co rest bgf senders unfolding background_ok_def past_rounds_ok_def pr' by auto
  qed
qed

lemma followsI:
  assumes "tracks ancestry number vs a (add_mset best M) sh" "M = image_mset bg_inner (mset (pr_past_rounds pr))"
    "background_ok number (av_finalized a) pr" "\<forall>vr \<in># add_mset best M. views_ok vr (length (sh_bridged sh))"
  shows "follows ancestry number vs a best pr sh"
  using assms by (simp add: follows_def voting_rounds_def)

text \<open>The three ways on: the round is dropped, it comes back, or it is concluded.\<close>

lemma follows_dropped:
  assumes f: "follows ancestry number vs a best pr sh" and env: "env_ok ancestry number env" and i: "i < length (pr_past_rounds pr)"
    and p: "background_round_poll env (pr_past_rounds pr ! i) (pr_channels pr) sh = Some ((bg, ch), sh', res)"
    and pr': "pr_past_rounds pr' = remove_nth i (pr_past_rounds pr)" "pr_channels pr' = bg_drop bg ch"
      "\<And>n k. pr_commit_senders pr' n = Some k \<Longrightarrow> pr_commit_senders pr n = Some k"
  shows "\<exists>a'. evolves ancestry number vs a a' \<and> follows ancestry number vs a' best pr' sh'" (is ?lost)
    and "res = Inr (Ready (Concluded n)) \<Longrightarrow>
      \<exists>a'. evolves ancestry number vs a a' \<and> follows ancestry number vs a' best pr' (call (concluded_call (vr_votes (bg_inner bg))) sh')"
proof -
  let ?M = "image_mset bg_inner (mset (remove_nth i (pr_past_rounds pr)))"
  obtain a1 where a1: "evolves ancestry number vs a a1" "tracks ancestry number vs a1 (add_mset (bg_inner bg) (add_mset best ?M)) sh'"
    "\<forall>vr \<in># add_mset (bg_inner bg) (add_mset best ?M). views_ok vr (length (sh_bridged sh'))"
    "bg_finalized_number bg \<le> av_finalized a1" "background_ok number (av_finalized a1) pr'"
    by (rule follows_poll [OF f env i p]) (use pr' in blast)
  have fol: "follows ancestry number vs a2 best pr' sh2"
    if "evolves ancestry number vs a1 a2" "tracks ancestry number vs a2 (add_mset best ?M) sh2" "sh_bridged sh2 = sh_bridged sh'" for a2 sh2
    by (rule followsI [OF that(2)]) (use a1(3,5) that(1,3) pr'(1) in \<open>simp_all add: evolves_def\<close>)
  show ?lost using track_lose [OF a1(2)] fol evolves_trans [OF a1(1)] by blast
  show "\<exists>a'. evolves ancestry number vs a a' \<and> follows ancestry number vs a' best pr' (call (concluded_call (vr_votes (bg_inner bg))) sh')"
    if "res = Inr (Ready (Concluded n))"
  proof -
    have "estimate_final (round_state (vr_votes (bg_inner bg))) (av_finalized a1)"
      using background_round_poll_concluded(1) [OF p [unfolded that]] a1(4) by (rule is_done_final)
    then obtain a2 where a2: "evolves ancestry number vs a1 a2"
        "tracks ancestry number vs a2 (add_mset best ?M) (call (concluded_call (vr_votes (bg_inner bg))) sh')"
      using track_conclude [OF a1(2)] by blast
    then show ?thesis using fol [OF a2] evolves_trans [OF a1(1)] by (auto simp: call_def)
  qed
qed

lemma follows_returned:
  assumes f: "follows ancestry number vs a best pr sh" and env: "env_ok ancestry number env" and i: "i < length (pr_past_rounds pr)"
    and p: "background_round_poll env (pr_past_rounds pr ! i) (pr_channels pr) sh = Some ((bg, ch), sh', res)"
    and pr': "mset (pr_past_rounds pr') = add_mset bg (mset (remove_nth i (pr_past_rounds pr)))" "pr_channels pr' = ch"
      "pr_commit_senders pr' = pr_commit_senders pr"
  shows "\<exists>a'. evolves ancestry number vs a a' \<and> follows ancestry number vs a' best pr' sh'"
proof -
  let ?M = "image_mset bg_inner (mset (remove_nth i (pr_past_rounds pr)))"
  obtain a1 where a1: "evolves ancestry number vs a a1" "tracks ancestry number vs a1 (add_mset (bg_inner bg) (add_mset best ?M)) sh'"
    "\<forall>vr \<in># add_mset (bg_inner bg) (add_mset best ?M). views_ok vr (length (sh_bridged sh'))"
    "background_ok number (av_finalized a1) pr'"
    by (rule follows_poll [OF f env i p]) (use pr' in blast)
  have "follows ancestry number vs a1 best pr' sh'"
    using a1(2,3,4) by (intro followsI [where M = "add_mset (bg_inner bg) ?M"]) (simp_all add: pr'(1) add_mset_commute)
  then show ?thesis using a1(1) by blast
qed

lemma follows_poll_next:
  assumes "past_rounds_poll_next env order pr sh = Some y" and env: "env_ok ancestry number env"
  shows "follows ancestry number vs a best pr sh \<Longrightarrow>
    \<exists>a'. evolves ancestry number vs a a' \<and> follows ancestry number vs a' best (fst (fst y)) (fst (snd y))"
  using assms(1)
proof (induction arbitrary: a rule: past_rounds_poll_next_induct)
  case (fail i order self sh bg ch sh' e)
  show ?case unfolding fst_conv snd_conv by (rule follows_dropped(1) [OF fail.prems env fail.hyps]) simp_all
next
  case (wait i order self sh bg ch sh' y)
  obtain a1 where "evolves ancestry number vs a a1"
      "follows ancestry number vs a1 best (self\<lparr>pr_past_rounds := (pr_past_rounds self)[i := bg], pr_channels := ch\<rparr>) sh'"
    using follows_returned [OF wait.prems env wait.hyps(1,2), of "self\<lparr>pr_past_rounds := (pr_past_rounds self)[i := bg], pr_channels := ch\<rparr>"]
      mset_update_nth [OF wait.hyps(1)] by auto
  then show ?case using wait.IH evolves_trans by blast
next
  case (refuse i order self sh bg ch sh' m e)
  show ?case unfolding fst_conv snd_conv by (rule follows_dropped(2) [OF refuse.prems env refuse.hyps]) simp_all
next
  case (conclude i order self sh bg ch sh' m y)
  obtain a1 where "evolves ancestry number vs a a1"
      "follows ancestry number vs a1 best (self\<lparr>pr_past_rounds := remove_nth i (pr_past_rounds self), pr_channels := bg_drop bg ch,
          pr_commit_senders := (pr_commit_senders self)(m := None)\<rparr>) (call (concluded_call (vr_votes (bg_inner bg))) sh')"
  proof -
    have "\<exists>a'. evolves ancestry number vs a a' \<and> follows ancestry number vs a' best
        (self\<lparr>pr_past_rounds := remove_nth i (pr_past_rounds self), pr_channels := bg_drop bg ch,
          pr_commit_senders := (pr_commit_senders self)(m := None)\<rparr>) (call (concluded_call (vr_votes (bg_inner bg))) sh')"
      by (rule follows_dropped(2) [OF conclude.prems env conclude.hyps(1,2)]) (simp_all split: if_split_asm)
    then show thesis using that by blast
  qed
  then show ?case using conclude.IH evolves_trans by blast
next
  case (commit i order self sh bg ch sh' c)
  show ?case unfolding fst_conv snd_conv by (rule follows_returned [OF commit.prems env commit.hyps]) simp_all
qed (use evolves_refl in fastforce)+

end
