(* ===== verification/Round_Memo.thy ===== *)
theory Round_Memo
  imports Round_Steps
begin

text \<open>
  The block that a round has memoised as finalized carries its number, however many voters equivocate.
\<close>

lemma round_update_finalized:
  assumes "round_update x = Some r"
  shows "r_graph r = r_graph x \<and> r_prevote_ghost r = r_prevote_ghost x \<and>
    (r_finalized r = r_finalized x \<or>
     (\<exists>g m P. r_prevote_ghost x = Some (g, m) \<and> find_ancestor (r_graph x) g m P = Some (r_finalized r)))"
proof (cases "r_prevote_ghost x")
  case None
  then show ?thesis using assms by (auto simp: round_update_def Let_def split: if_splits)
next
  case (Some gn)
  obtain g m where gn: "gn = (g, m)" by fastforce
  let ?P = "\<lambda>v. vote_weight_ge_voter (context_weight (r_context x) v Precommit) (round_threshold x)"
  note unf = round_update_def Let_def Some gn
  consider "vote_weight_lt_voter (vt_current_weight (r_prevote x)) (round_threshold x)"
    | "\<not> vote_weight_lt_voter (vt_current_weight (r_prevote x)) (round_threshold x)"
      "\<not> vote_weight_ge_voter (vt_current_weight (r_precommit x)) (round_threshold x)"
    | "\<not> vote_weight_lt_voter (vt_current_weight (r_prevote x)) (round_threshold x)"
      "vote_weight_ge_voter (vt_current_weight (r_precommit x)) (round_threshold x)" by blast
  then show ?thesis
  proof cases
    case 3
    obtain f where f: "find_ancestor (r_graph x) g m ?P = Some f"
      using assms 3 by (cases "find_ancestor (r_graph x) g m ?P") (simp_all add: unf)
    let ?Q = "possible_to_precommit (r_context x) (round_threshold x) (vt_current_weight (r_precommit x))"
    obtain e where e: "find_ancestor (r_graph x) g m ?Q = Some e"
      using assms 3 f by (cases "find_ancestor (r_graph x) g m ?Q") (simp_all add: unf round_threshold_def)
    have "r_graph r = r_graph x \<and> r_prevote_ghost r = r_prevote_ghost x \<and> r_finalized r = f"
      using assms 3 f e by (cases e) (auto simp: unf round_threshold_def bind_eq_Some_conv split: if_split_asm)
    then show ?thesis using f Some gn by auto
  qed (use assms in \<open>auto simp: unf\<close>)
qed

lemma import_prevote_finalized:
  assumes "import_prevote ancestry r x vid s = Some (r', res)"
  shows "r_finalized r' = r_finalized r \<or> (\<exists>y. round_update y = Some r' \<and> r_finalized y = r_finalized r)"
proof (cases "voter_set_get (cx_voters (r_context r)) vid")
  case None
  then show ?thesis using assms by (simp add: import_prevote_def)
next
  case (Some info)
  obtain tr ad where ad: "add_vote (r_prevote r) vid x s (vi_weight info) = (tr, ad)" by fastforce
  note unf = import_prevote_def Let_def \<open>voter_set_get (cx_voters (r_context r)) vid = Some info\<close> ad bind_eq_Some_conv
  show ?thesis
  proof (cases "av_multiplicity ad")
    case None
    then show ?thesis using assms by (auto simp: unf)
  next
    case multiplicity: (Some m)
    show ?thesis
    proof (cases m)
      case (Single y u)
      then obtain ins where ins: "vote_graph_insert ancestry vote_node_add_vote (r_graph r) (pv_target_hash y) (pv_target_number y)
          (vote_new info Prevote) = Some ins"
        using assms by (auto simp: unf multiplicity)
      show ?thesis using assms by (cases ins) (auto simp: unf multiplicity Single ins split: if_split_asm)
    next
      case (Equivocated y z)
      then show ?thesis using assms by (auto simp: unf multiplicity split: if_split_asm)
    qed
  qed
qed

lemma import_precommit_finalized:
  assumes "import_precommit ancestry r x vid s = Some (r', res)"
  shows "r_finalized r' = r_finalized r \<or> (\<exists>y. round_update y = Some r' \<and> r_finalized y = r_finalized r)"
proof (cases "voter_set_get (cx_voters (r_context r)) vid")
  case None
  then show ?thesis using assms by (simp add: import_precommit_def)
next
  case (Some info)
  obtain tr ad where ad: "add_vote (r_precommit r) vid x s (vi_weight info) = (tr, ad)" by fastforce
  note unf = import_precommit_def Let_def \<open>voter_set_get (cx_voters (r_context r)) vid = Some info\<close> ad bind_eq_Some_conv
  show ?thesis
  proof (cases "av_multiplicity ad")
    case None
    then show ?thesis using assms by (auto simp: unf)
  next
    case multiplicity: (Some m)
    show ?thesis
    proof (cases m)
      case (Single y u)
      then obtain ins where ins: "vote_graph_insert ancestry vote_node_add_vote (r_graph r) (pc_target_hash y) (pc_target_number y)
          (vote_new info Precommit) = Some ins"
        using assms by (auto simp: unf multiplicity)
      show ?thesis using assms by (cases ins) (auto simp: unf multiplicity Single ins)
    next
      case (Equivocated y z)
      then show ?thesis using assms by (auto simp: unf multiplicity)
    qed
  qed
qed

context chain
begin

lemma round_update_finalized_number:
  assumes "round_ok parent number r" "round_update x = Some r" "r_finalized r = Some (f, n)"
    and "\<And>f n. r_finalized x = Some (f, n) \<Longrightarrow> n = number f"
  shows "n = number f"
proof -
  obtain V where V: "core_ok parent number r V" "ghost_ok parent number r" by (rule round_okE [OF assms(1)])
  show ?thesis
  proof (cases "r_finalized r = r_finalized x")
    case True
    then show ?thesis using assms(3,4) by simp
  next
    case False
    then obtain g m P where g: "r_prevote_ghost r = Some (g, m)" "find_ancestor (r_graph r) g m P = Some (Some (f, n))"
      using round_update_finalized [OF assms(2)] assms(3) by auto
    then show ?thesis
      using find_ancestor_total [OF core_graph [OF V(1)] core_votes [OF V(1)], of g P] ghost_ok_number [OF V(2)] by auto
  qed
qed

lemma reachable_finalized_number:
  assumes "reachable ancestry number vs b r"
  shows "r_finalized r = Some (f, n) \<Longrightarrow> n = number f"
  using assms
proof (induction arbitrary: f n rule: reachable.induct)
  case (start ws k)
  then show ?case by (simp add: round_new_fields(11) [OF HOL.refl])
next
  case (step r r')
  have ok: "round_ok parent number r'" using reachable_ok [OF reachable.step [OF step.hyps]] by blast
  have "r_finalized r' = r_finalized r \<or> (\<exists>y. round_update y = Some r' \<and> r_finalized y = r_finalized r)"
    using step.hyps(2)
  proof cases
    case (ghost z)
    then show ?thesis by (auto simp: precommit_ghost_def Let_def bind_eq_Some_conv split: if_split_asm)
  qed (auto dest: import_prevote_finalized import_precommit_finalized simp: set_prevoted_index_def set_precommitted_index_def)
  then show ?case using step.IH step.prems round_update_finalized_number [OF ok] by metis
qed

end

end
