(* ===== verification/Voter_Refines.thy ===== *)
theory Voter_Refines
  imports Voter_Rounds Round_Memo
begin

text \<open>
  The voter refines the abstract voter: every operation of \<^verbatim>\<open>src/voter/mod.rs\<close> is a sequence of its steps, with errors too.
\<close>

section \<open>The refinement relation\<close>

definition refines ::
  "('h \<Rightarrow> 'h \<Rightarrow> error + 'h list) \<Rightarrow> ('h \<Rightarrow> nat) \<Rightarrow> ('i :: linorder) voter_set
     \<Rightarrow> ('h :: linorder, 's, 'i, 't, 'b, 'n, 'o) voter_spec \<Rightarrow> ('h, 's, 'i, 't, 'b, 'n, 'o, 'g, 'p, 'x) voter
     \<Rightarrow> ('h, 's, 'i) shared \<Rightarrow> bool" where
  "refines ancestry number vs a self sh \<longleftrightarrow> follows ancestry number vs a (best_round self) (background self) sh \<and>
     av_best a = r_round_number (vr_votes (best_round self)) \<and> av_finalized a = vt_last_finalized_number self \<and>
     vt_voters self = vs \<and> snd (vt_last_finalized_in_rounds self) = number (fst (vt_last_finalized_in_rounds self))"

text \<open>What a commit or a catch-up that arrives satisfies: its votes carry the numbers of their blocks.\<close>

fun message_ok :: "('h \<Rightarrow> nat) \<Rightarrow> ('h, 's, 'i, 'x) communication_in \<Rightarrow> bool" where
  "message_ok number (CommitIn _ c _) = precommits_ok number (cm_precommits (commit_from_compact c))"
| "message_ok number (CatchUpIn cu _) = (cu_base_number cu = number (cu_base_hash cu) \<and>
     (\<forall>p \<in> set (cu_prevotes cu). pv_target_number (sv_prevote p) = number (pv_target_hash (sv_prevote p))) \<and>
     precommits_ok number (cu_precommits cu))"

definition messages_ok :: "('h \<Rightarrow> nat) \<Rightarrow> ('h, 's, 'i, 'e, 'g, 'p, 'x) global_comms \<Rightarrow> bool" where
  "messages_ok number gc \<longleftrightarrow> (\<forall>g g' m. gc_poll_next gc g = (g', Ready (Some (Inr m))) \<longrightarrow> message_ok number m)"

text \<open>Where a sequence of steps may lead.\<close>

definition leads ::
  "('h \<Rightarrow> 'h \<Rightarrow> error + 'h list) \<Rightarrow> ('h \<Rightarrow> nat) \<Rightarrow> ('i :: linorder) voter_set
     \<Rightarrow> ('h :: linorder, 's, 'i, 't, 'b, 'n, 'o) voter_spec \<Rightarrow> ('h, 's, 'i, 't, 'b, 'n, 'o, 'g, 'p, 'x) voter
     \<Rightarrow> ('h, 's, 'i) shared \<Rightarrow> bool" where
  "leads ancestry number vs a self sh \<longleftrightarrow> (\<exists>a'. voter_steps ancestry number vs a a' \<and> refines ancestry number vs a' self sh)"

lemma leads_refl: "refines ancestry number vs a self sh \<Longrightarrow> leads ancestry number vs a self sh"
  by (auto simp: leads_def)

lemma leads_trans:
  assumes "leads ancestry number vs a self sh"
    and "\<And>a'. refines ancestry number vs a' self sh \<Longrightarrow> leads ancestry number vs a' self' sh'"
  shows "leads ancestry number vs a self' sh'"
  using assms by (meson leads_def rtranclp_trans)

lemma leads_evolves:
  assumes "refines ancestry number vs a self sh" "evolves ancestry number vs a a'"
    and "follows ancestry number vs a' (best_round self') (background self') sh'"
    and "r_round_number (vr_votes (best_round self')) = r_round_number (vr_votes (best_round self))"
    and "vt_last_finalized_number self' = vt_last_finalized_number self" "vt_voters self' = vt_voters self"
    and "vt_last_finalized_in_rounds self' = vt_last_finalized_in_rounds self"
  shows "leads ancestry number vs a self' sh'"
  using assms by (auto simp: leads_def refines_def evolves_def)

text \<open>The fields of the voter that the relation does not see.\<close>

definition alike :: "('h, 's, 'i, 't, 'b, 'n, 'o, 'g, 'p, 'x) voter \<Rightarrow> ('h, 's, 'i, 't, 'b, 'n, 'o, 'g, 'p, 'x) voter \<Rightarrow> bool" where
  "alike self self' \<longleftrightarrow> vt_inner self' = vt_inner self \<and> vt_voters self' = vt_voters self \<and>
     vt_last_finalized_number self' = vt_last_finalized_number self \<and> vt_last_finalized_in_rounds self' = vt_last_finalized_in_rounds self"

lemma refines_alike: "refines ancestry number vs a self sh \<Longrightarrow> alike self self' \<Longrightarrow> refines ancestry number vs a self' sh"
  by (simp add: refines_def alike_def)

lemma leads_alike: "leads ancestry number vs a self sh \<Longrightarrow> alike self self' \<Longrightarrow> leads ancestry number vs a self' sh"
  unfolding leads_def using refines_alike by blast

lemma follows_sh:
  assumes "follows ancestry number vs a best pr sh" "sh_calls sh' = sh_calls sh" "set (sh_finalized sh') \<subseteq> set (sh_finalized sh)"
    "length (sh_bridged sh') = length (sh_bridged sh)"
  shows "follows ancestry number vs a best pr sh'"
  using assms by (auto simp: follows_def tracks_def)

section \<open>Finalization\<close>

lemma background_ok_update:
  assumes "background_ok number f pr" "f \<le> f'" "n \<le> f'"
  shows "background_ok number f' (past_rounds_update_finalized pr n)"
proof -
  have "bg_finalized_number bg \<le> f" if "bg \<in> set (pr_past_rounds pr)" for bg using assms(1) that by (simp add: background_ok_def)
  then have "bg_finalized_number bg \<le> f'" if "bg \<in> set (pr_past_rounds pr)" for bg using that assms(2) by fastforce
  then show ?thesis
    using assms(1,3) past_rounds_ok_update [of pr n]
    by (auto simp: background_ok_def past_rounds_update_finalized_def bg_update_finalized_def)
qed

lemma voting_rounds_update [simp]: "voting_rounds (past_rounds_update_finalized pr n) = voting_rounds pr"
  by (simp add: voting_rounds_def past_rounds_update_finalized_def bg_update_finalized_def comp_def)

text \<open>A higher block is finalized, and the background rounds learn of it; or a lower one is only told to them.\<close>

lemma follows_finalize:
  assumes f: "follows ancestry number vs a best pr sh" and n: "av_finalized a < n"
    and j: "(h, n, k, c) \<in> av_notified a \<or> (h, n) = (cm_target_hash c, cm_target_number c) \<and> valid_commit ancestry number vs c"
  shows "\<exists>a'. voter_step ancestry number vs a a' \<and> av_best a' = av_best a \<and> av_finalized a' = n \<and> av_notified a' = av_notified a \<and>
    follows ancestry number vs a' best (past_rounds_update_finalized pr n) (call (CallFinalizeBlock h n k c) sh)"
proof -
  let ?a = "a\<lparr>av_finalized := n, av_calls := av_calls a @ [CallFinalizeBlock h n k c]\<rparr>"
  note st = voter_step.finalize [where ancestry = ancestry and number = number and vs = vs, OF n j]
  have t: "tracks ancestry number vs a (add_mset best (mset (voting_rounds pr))) sh" using f by (simp add: follows_def)
  have "tracks ancestry number vs ?a (add_mset best (mset (voting_rounds pr))) (call (CallFinalizeBlock h n k c) sh)"
    by (rule tracks_step [OF t st]) (use t in \<open>auto simp: tracks_def call_def\<close>)
  moreover have "background_ok number n (past_rounds_update_finalized pr n)"
    using f n by (intro background_ok_update [where f = "av_finalized a"]) (simp_all add: follows_def)
  ultimately have "follows ancestry number vs ?a best (past_rounds_update_finalized pr n) (call (CallFinalizeBlock h n k c) sh)"
    using f by (simp add: follows_def call_def)
  then show ?thesis using st by (intro exI [of _ ?a]) simp
qed

lemma follows_update:
  assumes "follows ancestry number vs a best pr sh" "n \<le> av_finalized a"
  shows "follows ancestry number vs a best (past_rounds_update_finalized pr n) sh"
  using assms background_ok_update [of number "av_finalized a" pr "av_finalized a" n] by (simp add: follows_def)

context chain
begin

lemma announced_number:
  assumes "justified ancestry number vs (f, n, k, c)" "voter_set_ok vs"
  shows "n = number f"
  using assms
proof -
  consider b r where "reachable ancestry number vs b r" "announces ancestry r (f, n, k, c)"
    | res where "(f, n) = (cm_target_hash c, cm_target_number c)" "precommits_ok number (cm_precommits c)"
      "validate_commit ancestry c vs = Some (Inr res)" "cvr_valid res"
    using assms(1) by (auto simp: justified_def valid_commit_def)
  then show ?thesis
  proof cases
    case 1
    then show ?thesis using reachable_finalized_number [OF 1(1)] by (simp add: announces_def)
  next
    case (2 res)
    have "\<forall>p \<in> set (voter_precommits vs c). pc_target_number (sc_precommit p) = number (pc_target_hash (sc_precommit p))"
      using 2(2) by (auto simp: precommits_ok_def voter_precommits_def)
    from validate_commit_ok [OF assms(2) this] show ?thesis using 2 by auto
  qed
qed

lemma refines_voters: "refines ancestry number vs a self sh \<Longrightarrow> voter_set_ok vs"
  using reachable_round(4) [OF chain_axioms]
  by (fastforce simp: refines_def follows_def tracks_def rounds_ok_def sound_votes_def)

lemma notified_number:
  assumes "refines ancestry number vs a self sh" "(f, n, k, c) \<in> av_notified a"
  shows "n = number f"
proof -
  have "justified ancestry number vs (f, n, k, c)"
    using assms by (auto simp: refines_def follows_def tracks_def justified_ok_def)
  then show ?thesis using announced_number refines_voters [OF assms(1)] by blast
qed

end

text \<open>The last finalized block moves up to a notified or committed one.\<close>

definition finalize_up ::
  "'h \<Rightarrow> nat \<Rightarrow> u64 \<Rightarrow> ('h, 's, 'i) commit \<Rightarrow> ('h, 's, 'i, 't, 'b, 'n, 'o, 'g, 'p, 'x) voter \<Rightarrow> ('h, 's, 'i) shared
     \<Rightarrow> ('h, 's, 'i, 't, 'b, 'n, 'o, 'g, 'p, 'x) voter \<times> ('h, 's, 'i) shared" where
  "finalize_up h n k c self sh =
     (let self = set_background (past_rounds_update_finalized (background self) n) self
      in if vt_last_finalized_number self < n
         then (self\<lparr>vt_last_finalized_number := n\<rparr>, call (CallFinalizeBlock h n k c) sh) else (self, sh))"

lemma refines_finalize_up:
  assumes r: "refines ancestry number vs a self sh"
    and j: "(h, n, k, c) \<in> av_notified a \<or> (h, n) = (cm_target_hash c, cm_target_number c) \<and> valid_commit ancestry number vs c"
    and up: "finalize_up h n k c self sh = (self', sh')"
  shows "\<exists>a'. voter_steps ancestry number vs a a' \<and> av_notified a \<subseteq> av_notified a' \<and> refines ancestry number vs a' self' sh'"
proof (cases "vt_last_finalized_number self < n")
  case True
  have f: "follows ancestry number vs a (best_round self) (background self) sh" and n: "av_finalized a < n"
    using r True by (simp_all add: refines_def)
  obtain a' where a': "voter_step ancestry number vs a a'" "av_best a' = av_best a" "av_finalized a' = n" "av_notified a' = av_notified a"
      "follows ancestry number vs a' (best_round self) (past_rounds_update_finalized (background self) n) (call (CallFinalizeBlock h n k c) sh)"
    using follows_finalize [OF f n j] by blast
  then have "refines ancestry number vs a' self' sh'"
    using r up True by (auto simp: refines_def finalize_up_def)
  then show ?thesis using a'(1,4) by blast
next
  case False
  have "follows ancestry number vs a (best_round self) (past_rounds_update_finalized (background self) n) sh"
    using r False by (intro follows_update) (simp_all add: refines_def)
  then have "refines ancestry number vs a self' sh'" using r up False by (auto simp: refines_def finalize_up_def)
  then show ?thesis by blast
qed

lemma finalize_notified_up:
  "finalize_notified env ((h, n, k, c) # ns) self sh =
     (case finalize_up h n k c self sh of (self1, sh1) \<Rightarrow>
        case (if vt_last_finalized_number self < n then env_finalize_block env h n k c else Inr ()) of
          Inl e \<Rightarrow> (self1, sh1\<lparr>sh_finalized := ns\<rparr>, Inl e)
        | Inr _ \<Rightarrow> finalize_notified env ns
            (if snd (vt_last_finalized_in_rounds self1) < n then self1\<lparr>vt_last_finalized_in_rounds := (h, n)\<rparr> else self1) sh1)"
  by (simp add: finalize_up_def set_last_finalized_number_def Let_def split: sum.split)

declare finalize_notified.simps(2) [simp del]

lemma refines_queue: "refines ancestry number vs a self sh \<Longrightarrow> set ns \<subseteq> av_notified a \<Longrightarrow> refines ancestry number vs a self (sh\<lparr>sh_finalized := ns\<rparr>)"
  by (auto simp: refines_def follows_def tracks_def)

context chain
begin

lemma finalize_notified_leads:
  "refines ancestry number vs a self sh \<Longrightarrow> set ns \<subseteq> av_notified a \<Longrightarrow>
    finalize_notified env ns self sh = (self', sh', res) \<Longrightarrow> leads ancestry number vs a self' sh'"
proof (induction ns arbitrary: a self sh)
  case Nil
  then show ?case using refines_queue [OF Nil(1), of "[]"] by (auto intro: leads_refl)
next
  case (Cons x ns)
  obtain h n k c where x: "x = (h, n, k, c)" by (cases x)
  obtain self1 sh1 where up: "finalize_up h n k c self sh = (self1, sh1)" by fastforce
  have mem: "(h, n, k, c) \<in> av_notified a" using Cons.prems(2) x by simp
  then obtain a1 where a1: "voter_steps ancestry number vs a a1" "av_notified a \<subseteq> av_notified a1" "refines ancestry number vs a1 self1 sh1"
    using refines_finalize_up [OF Cons.prems(1) _ up] by blast
  have ns: "set ns \<subseteq> av_notified a1" using Cons.prems(2) a1(2) by auto
  have trans: "leads ancestry number vs a self' sh'" if "leads ancestry number vs a1 self' sh'"
    using that a1(1) by (meson leads_def rtranclp_trans)
  show ?case
  proof (cases "if vt_last_finalized_number self < n then env_finalize_block env h n k c else Inr ()")
    case (Inl e)
    then have "self' = self1" "sh' = sh1\<lparr>sh_finalized := ns\<rparr>" using Cons.prems(3) by (simp_all add: x finalize_notified_up up)
    then show ?thesis using trans leads_refl [OF refines_queue [OF a1(3) ns]] by simp
  next
    case (Inr u)
    let ?self = "if snd (vt_last_finalized_in_rounds self1) < n then self1\<lparr>vt_last_finalized_in_rounds := (h, n)\<rparr> else self1"
    have "finalize_notified env ns ?self sh1 = (self', sh', res)" using Cons.prems(3) Inr by (simp add: x finalize_notified_up up)
    moreover have "refines ancestry number vs a1 ?self sh1"
      using a1(3) notified_number [OF Cons.prems(1) mem] by (simp add: refines_def)
    ultimately show ?thesis using trans Cons.IH ns by blast
  qed
qed

text \<open>The background rounds and the notifications.\<close>

lemma broadcast_commits_leads:
  assumes env: "env_ok ancestry number env"
  shows "refines ancestry number vs a self sh \<Longrightarrow> broadcast_commits env order self sh = Some (self', sh', res) \<Longrightarrow>
    leads ancestry number vs a self' sh'"
proof (induction "length order" arbitrary: order a self sh rule: less_induct)
  case less
  obtain pr order' sh1 polled where p: "past_rounds_poll_next env order (background self) sh = Some ((pr, order'), sh1, polled)"
    using less.prems(2) by (cases "past_rounds_poll_next env order (background self) sh") (auto simp: broadcast_commits.simps [of env order self sh])
  note eq = less.prems(2) [unfolded broadcast_commits.simps [of env order self sh] p, simplified]
  have f: "follows ancestry number vs a (best_round self) (background self) sh" using less.prems(1) by (simp add: refines_def)
  obtain a1 where a1: "evolves ancestry number vs a a1" "follows ancestry number vs a1 (best_round self) pr sh1"
    using follows_poll_next [OF p env f] by auto
  have l: "leads ancestry number vs a (set_background pr self) sh1"
    by (rule leads_evolves [OF less.prems(1) a1(1)]) (use a1(2) in simp_all)
  show ?case
  proof (cases "\<exists>x. polled = Inr (Ready (Some x))")
    case False
    then have "self' = set_background pr self \<and> sh' = sh1"
      using eq by (auto split: sum.split_asm poll.split_asm option.split_asm)
    then show ?thesis using l by simp
  next
    case True
    then obtain k c where polled: "polled = Inr (Ready (Some (k, c)))" by auto
    let ?self = "(set_background pr self)\<lparr>vt_global_out := buffered_push (vt_global_out self) (CommitOut k c)\<rparr>"
    have "broadcast_commits env order' ?self sh1 = Some (self', sh', res)" using eq polled by simp
    moreover have "length order' < length order" using past_rounds_poll_next_shorter p polled by blast
    ultimately have go: "leads ancestry number vs a' self' sh'" if "refines ancestry number vs a' ?self sh1" for a'
      using less.hyps that by blast
    show ?thesis
      by (rule leads_trans [OF l]) (rule go, rule refines_alike, assumption, simp add: alike_def)
  qed
qed

lemma prune_background_rounds_leads:
  assumes env: "env_ok ancestry number env" and r: "refines ancestry number vs a self sh"
    and p: "prune_background_rounds env order self sh = Some (self', sh', res)"
  shows "leads ancestry number vs a self' sh'"
  using p [unfolded prune_background_rounds_def]
proof (cases rule: and_then_cases)
  case (1 e)
  then show ?thesis using broadcast_commits_leads [OF env r] by blast
next
  case (2 self1 sh1 u)
  have "leads ancestry number vs a' self' sh'" if "refines ancestry number vs a' self1 sh1" for a'
  proof (rule finalize_notified_leads [OF that])
    show "set (sh_finalized sh1) \<subseteq> av_notified a'" using that by (simp add: refines_def follows_def tracks_def)
    show "finalize_notified env (sh_finalized sh1) self1 sh1 = (self', sh', res)" using 2(2) by simp
  qed
  then show ?thesis using leads_trans [OF broadcast_commits_leads [OF env r 2(1)]] by blast
qed

end

section \<open>Messages\<close>

lemma background_ok_import:
  assumes "background_ok number f pr" "past_rounds_import_commit pr n c = (pr', r)" "precommits_ok number (cm_precommits c)"
  shows "background_ok number f pr'" "voting_rounds pr' = voting_rounds pr" "r = None \<or> r = Some c"
proof -
  have ok: "past_rounds_ok pr'" using past_rounds_ok_import [OF _ assms(2)] assms(1) by (simp add: background_ok_def)
  have same: "pr_past_rounds pr' = pr_past_rounds pr" "r = None \<or> r = Some c"
    using assms(2) by (auto simp: past_rounds_import_commit_def split: option.split_asm)
  have "channels_ok number (pr_channels pr')"
  proof (cases "\<exists>a q. pr_commit_senders pr n = Some a \<and> pr_channels pr ! a = Some q")
    case True
    then obtain a q where aq: "pr_commit_senders pr n = Some a" "pr_channels pr ! a = Some q" by blast
    have "a < length (pr_channels pr)" using assms(1) aq(1) by (auto simp: background_ok_def past_rounds_ok_def)
    then have "Some q \<in> set (pr_channels pr)" using aq(2) nth_mem by fastforce
    then have "\<forall>c \<in> set q. precommits_ok number (cm_precommits c)" using assms(1) by (auto simp: background_ok_def channels_ok_def)
    then have "channels_ok number ((pr_channels pr)[a := Some (q @ [c])])"
      using assms(1,3) by (intro channels_ok_update) (auto simp: background_ok_def)
    then show ?thesis using assms(2) aq by (auto simp: past_rounds_import_commit_def)
  next
    case False
    then have "pr' = pr" using assms(2) by (auto simp: past_rounds_import_commit_def split: option.split_asm)
    then show ?thesis using assms(1) by (simp add: background_ok_def)
  qed
  then show "background_ok number f pr'" using ok assms(1) same(1) by (simp add: background_ok_def)
  show "voting_rounds pr' = voting_rounds pr" "r = None \<or> r = Some c" using same by (simp_all add: voting_rounds_def)
qed

lemma refines_background:
  assumes "refines ancestry number vs a self sh" "background_ok number (av_finalized a) pr" "voting_rounds pr = voting_rounds (background self)"
  shows "refines ancestry number vs a (set_background pr self) sh"
  using assms by (simp add: refines_def follows_def)

lemma process_commit_leads:
  assumes env: "env_ok ancestry number env" and r: "refines ancestry number vs a self sh"
    and ok: "precommits_ok number (cm_precommits (commit_from_compact c))"
    and p: "process_commit env k c cb self sh = Some (self', sh', res)"
  shows "leads ancestry number vs a self' sh'"
proof -
  let ?c = "commit_from_compact c"
  have anc: "env_ancestry env = ancestry" using env by (simp add: env_ok_def)
  have vs: "vt_voters self = vs" using r by (simp add: refines_def)
  obtain pr rest where i: "past_rounds_import_commit (background self) k ?c = (pr, rest)" by fastforce
  have bo: "background_ok number (av_finalized a) (background self)"
    using r unfolding refines_def follows_def by blast
  note imp = background_ok_import [OF bo i ok]
  let ?self = "set_background pr self"
  have r1: "refines ancestry number vs a ?self sh" by (rule refines_background [OF r imp(1,2)])
  note unf = process_commit_def Let_def i anc vs
  show ?thesis
  proof (cases rest)
    case None
    then have "sh' = sh \<and> alike ?self self'" using p by (auto simp: unf alike_def)
    then show ?thesis using leads_alike [OF leads_refl [OF r1]] by simp
  next
    case (Some c')
    then have c': "c' = ?c" using imp(3) by simp
    obtain v where v: "validate_commit ancestry ?c vs = Some v" using p Some c' by (auto simp: unf bind_eq_Some_conv)
    show ?thesis
    proof (cases "\<exists>x. v = Inr x \<and> cvr_valid x")
      case False
      then have "sh' = sh \<and> alike ?self self'" using p Some c' v by (auto simp: unf alike_def split: sum.split_asm)
      then show ?thesis using leads_alike [OF leads_refl [OF r1]] by simp
    next
      case True
      then have valid: "valid_commit ancestry number vs ?c" using v ok by (auto simp: valid_commit_def)
      obtain self1 sh1 where up: "finalize_up (cm_target_hash ?c) (cm_target_number ?c) k ?c ?self sh = (self1, sh1)" by fastforce
      have l: "leads ancestry number vs a self1 sh1"
        using refines_finalize_up [OF r1 _ up] valid by (auto simp: leads_def)
      have "sh' = sh1 \<and> alike self1 self'"
        using p Some c' v up True by (auto simp: unf alike_def finalize_up_def split: if_split_asm sum.split_asm)
      then show ?thesis using leads_alike [OF l] by simp
    qed
  qed
qed

section \<open>New rounds\<close>

lemma reachable_voter_set: "reachable ancestry number vs b r \<Longrightarrow> \<exists>ws. voter_set_new ws = Some (Some vs)"
  by (induction rule: reachable.induct) auto

lemma voting_round_new_started:
  assumes "voting_round_new env k vs b lv = Some vr" "snd b = number (fst b)" "voter_set_new ws = Some (Some vs)"
  shows "started vr" "sound_votes ancestry number vs vr" "r_round_number (vr_votes vr) = k" "vr_last_round_state vr = lv"
    "vr_bridged_round_state vr = None"
proof -
  have v: "vr_votes vr = round_new \<lparr>rp_round_number = k, rp_voters = vs, rp_base = b\<rparr>" and "started vr" "vr_last_round_state vr = lv"
    "vr_bridged_round_state vr = None"
    using assms(1) by (auto simp: voting_round_new_def Let_def bind_eq_Some_conv started_def)
  then show "started vr" "vr_last_round_state vr = lv" "vr_bridged_round_state vr = None" by simp_all
  obtain h n where b: "b = (h, n)" by fastforce
  have "reachable ancestry number vs h (vr_votes vr)"
    using reachable.start [OF assms(3), of ancestry number h k] assms(2) v b by simp
  then show "sound_votes ancestry number vs vr" by (auto simp: sound_votes_def)
  show "r_round_number (vr_votes vr) = k" by (simp add: v b round_new_def)
qed

lemma background_ok_push:
  assumes "background_ok number f pr"
  shows "background_ok number f (past_rounds_push env pr vr)"
  using assms past_rounds_ok_push [of pr env vr]
  by (auto simp: background_ok_def past_rounds_push_def Let_def channels_ok_def)

lemma voting_rounds_push [simp]: "voting_rounds (past_rounds_push env pr vr) = voting_rounds pr @ [vr]"
  by (simp add: voting_rounds_def past_rounds_push_def Let_def)

lemma follows_push:
  assumes "tracks ancestry number vs a (add_mset best (add_mset vr (mset (voting_rounds pr)))) sh" "background_ok number (av_finalized a) pr"
    and "\<forall>x \<in># add_mset best (add_mset vr (mset (voting_rounds pr))). views_ok x (length (sh_bridged sh))"
  shows "follows ancestry number vs a best (past_rounds_push env pr vr) sh"
  using assms background_ok_push [OF assms(2)] by (simp add: follows_def)

text \<open>Bridging the state of a round only adds a cell.\<close>

lemma vr_bridge_state_facts:
  assumes "vr_bridge_state vr sh = (vr', sh', lv)"
  shows "vr_votes vr' = vr_votes vr" "lv = LatterView (length (sh_bridged sh))" "length (sh_bridged sh') = Suc (length (sh_bridged sh))"
    "casts vr sh vr' sh'" "sh_calls sh' = sh_calls sh" "sh_finalized sh' = sh_finalized sh" "silent vr' = silent vr"
    "vr_bridged_round_state vr' = Some (PriorView (length (sh_bridged sh)))" "vr_last_round_state vr' = vr_last_round_state vr"
  using assms by (auto simp: vr_bridge_state_def bridge_state_def silent_def intro!: casts_same)

lemma views_ok_bridge:
  assumes "vr_bridge_state vr sh = (vr', sh', lv)" "views_ok vr (length (sh_bridged sh))"
  shows "views_ok vr' (length (sh_bridged sh'))"
  using vr_bridge_state_facts(3,8,9) [OF assms(1)] assms(2) by (auto simp: views_ok_def less_SucI)

lemma tracks_sh: "tracks ancestry number vs a R sh \<Longrightarrow> sh_calls sh' = sh_calls sh \<Longrightarrow> sh_finalized sh' = sh_finalized sh \<Longrightarrow>
  tracks ancestry number vs a R sh'"
  by (simp add: tracks_def)

lemma track_join:
  assumes t: "tracks ancestry number vs a R sh" and vr: "silent vr" "sound_votes ancestry number vs vr"
  shows "\<exists>a'. evolves ancestry number vs a a' \<and> tracks ancestry number vs a' (add_mset vr R) sh"
proof -
  note st = voter_step.join [where ancestry = ancestry and number = number and vs = vs and a = a, OF vr]
  have "tracks ancestry number vs (a\<lparr>av_rounds := add_mset vr (av_rounds a)\<rparr>) (add_mset vr R) sh"
    by (rule tracks_step [OF t st]) (use t in \<open>auto simp: tracks_def\<close>)
  then show ?thesis using evolves_step [OF st] by auto
qed

lemma track_stop:
  assumes t: "tracks ancestry number vs a R sh" and vr: "vr \<in># R" "r_completable (vr_votes vr)" "av_best a \<le> r_round_number (vr_votes vr)"
  shows "\<exists>a'. evolves ancestry number vs a a' \<and> tracks ancestry number vs a' R (call (completed_call (vr_votes vr)) sh)"
proof -
  have m: "vr \<in># av_rounds a" using t vr(1) by (simp add: tracks_def)
  note st = voter_step.stop [where ancestry = ancestry and number = number and vs = vs, OF m vr(2,3)]
  have "tracks ancestry number vs (a\<lparr>av_calls := av_calls a @ [completed_call (vr_votes vr)]\<rparr>) R (call (completed_call (vr_votes vr)) sh)"
    by (rule tracks_step [OF t st]) (use t in \<open>auto simp: tracks_def call_def\<close>)
  then show ?thesis using evolves_step [OF st] by auto
qed

lemma track_advance:
  assumes t: "tracks ancestry number vs a R sh" and vr: "vr \<in># R" "r_completable (vr_votes vr)" "av_best a \<le> r_round_number (vr_votes vr)"
    and new: "started new" "sound_votes ancestry number vs new" "r_round_number (vr_votes new) = r_round_number (vr_votes vr) + 1"
  shows "\<exists>a'. voter_step ancestry number vs a a' \<and> av_best a' = r_round_number (vr_votes new) \<and> av_finalized a' = av_finalized a \<and>
    tracks ancestry number vs a' (add_mset new R) (call (completed_call (vr_votes vr)) sh)"
proof -
  have m: "vr \<in># av_rounds a" using t vr(1) by (simp add: tracks_def)
  let ?a = "a\<lparr>av_rounds := add_mset new (av_rounds a), av_best := r_round_number (vr_votes vr) + 1,
      av_calls := av_calls a @ [completed_call (vr_votes vr)]\<rparr>"
  note st = voter_step.advance [where ancestry = ancestry and number = number and vs = vs, OF m vr(2,3) new]
  have "tracks ancestry number vs ?a (add_mset new R) (call (completed_call (vr_votes vr)) sh)"
    by (rule tracks_step [OF t st]) (use t in \<open>auto simp: tracks_def call_def\<close>)
  then show ?thesis using st new(3) by (intro exI [of _ ?a]) simp
qed

section \<open>Catching up\<close>

context chain
begin

lemma process_catch_up_leads:
  assumes env: "env_ok ancestry number env" and r: "refines ancestry number vs a self sh"
    and ok: "message_ok number (CatchUpIn cu cb)"
    and p: "process_catch_up env cu cb self sh = Some (self', sh', res)"
  shows "leads ancestry number vs a self' sh'"
proof -
  have anc: "env_ancestry env = ancestry" using env by (simp add: env_ok_def)
  have vs: "vt_voters self = vs" using r by (simp add: refines_def)
  have f: "follows ancestry number vs a (best_round self) (background self) sh" using r by (simp add: refines_def)
  let ?R = "add_mset (best_round self) (mset (voting_rounds (background self)))" and ?k = "r_round_number (vr_votes (best_round self))"
  have t: "tracks ancestry number vs a ?R sh" and bo: "background_ok number (av_finalized a) (background self)"
    and views: "\<forall>vr \<in># ?R. views_ok vr (length (sh_bridged sh))" using f unfolding follows_def by blast+
  have "sound_votes ancestry number vs (best_round self)" using t by (simp add: tracks_def rounds_ok_def)
  then obtain b where "reachable ancestry number vs b (vr_votes (best_round self))" by (auto simp: sound_votes_def)
  from reachable_voter_set [OF this] obtain ws where ws: "voter_set_new ws = Some (Some vs)" by blast
  obtain v where v: "validate_catch_up cu ancestry vs ?k = Some v" "\<And>r. v = Some r \<Longrightarrow> ?k < cu_round_number cu \<and>
      catch_up_round ancestry parent number vs cu r \<and> r_completable r"
    using validate_catch_up_total [OF chain_axioms ws, of cu ?k] ok by (auto simp: precommits_ok_def split: option.split_asm)
  note unf = process_catch_up_def Let_def anc vs v(1)
  show ?thesis
  proof (cases v)
    case None
    then have "sh' = sh \<and> alike self self'" using p by (auto simp: unf alike_def)
    then show ?thesis using leads_alike [OF leads_refl [OF r]] by simp
  next
    case (Some rd)
    obtain jc sh1 lv where jc: "vr_bridge_state (voting_round_completed env rd None) sh = (jc, sh1, lv)" by (cases "vr_bridge_state (voting_round_completed env rd None) sh")
    note bf = vr_bridge_state_facts [OF jc]
    have votes: "vr_votes jc = rd" using bf(1) by (simp add: voting_round_completed_def Let_def)
    obtain new where new: "voting_round_new env (r_round_number rd + 1) vs (vt_last_finalized_in_rounds self) (Some lv) = Some new"
      using p by (auto simp: unf Some jc votes bind_eq_Some_conv)
    have rd: "?k < r_round_number rd" "reachable ancestry number vs (cu_base_hash cu) rd" "r_completable rd"
      using v(2) [OF Some] by (simp_all add: catch_up_round_def)
    let ?lf = "case r_finalized rd of Some (h, n) \<Rightarrow> if snd (vt_last_finalized_in_rounds self) < n then (h, n) else vt_last_finalized_in_rounds self
        | None \<Rightarrow> vt_last_finalized_in_rounds self"
    have lf: "snd (vt_last_finalized_in_rounds self) = number (fst (vt_last_finalized_in_rounds self))" "snd ?lf = number (fst ?lf)"
      using r reachable_finalized_number [OF rd(2)] by (auto simp: refines_def split: option.split prod.split)
    note nf = voting_round_new_started [where number = number, OF new lf(1) ws]
    have jc': "silent jc" "sound_votes ancestry number vs jc"
      using bf(7) rd(2) by (auto simp: silent_def voting_round_completed_def Let_def sound_votes_def votes)
    obtain a1 where a1: "evolves ancestry number vs a a1" "tracks ancestry number vs a1 (add_mset jc ?R) sh"
      using track_join [OF t jc'] by blast
    have t1: "tracks ancestry number vs a1 (add_mset jc ?R) sh1" by (rule tracks_sh [OF a1(2) bf(5,6)])
    have best: "av_best a1 \<le> r_round_number (vr_votes jc)" using a1(1) r rd(1) by (simp add: evolves_def refines_def votes)
    let ?sh = "call (completed_call rd) sh1"
    have heap: "length (sh_bridged ?sh) = Suc (length (sh_bridged sh))" by (simp add: call_def bf(3))
    have views': "\<forall>vr \<in># ?R. views_ok vr (length (sh_bridged ?sh))"
      using views heap views_ok_mono [of _ "length (sh_bridged sh)" "length (sh_bridged ?sh)"] by auto
    show ?thesis
    proof (cases "env_completed env (r_round_number rd) (round_state rd) (round_base rd) (r_historical_votes rd)")
      case (Inl e)
      obtain a2 where a2: "evolves ancestry number vs a1 a2" "tracks ancestry number vs a2 (add_mset jc ?R) ?sh"
        using track_stop [OF t1 _ _ best] rd(3) by (auto simp: votes)
      obtain a3 where a3: "evolves ancestry number vs a2 a3" "tracks ancestry number vs a3 ?R ?sh" using track_lose [OF a2(2)] by blast
      note ev = evolves_trans [OF evolves_trans [OF a1(1) a2(1)] a3(1)]
      have "follows ancestry number vs a3 (best_round self) (background self) ?sh"
        using a3(2) bo views' ev by (simp add: follows_def evolves_def)
      moreover have "self' = self\<lparr>vt_last_finalized_in_rounds := ?lf\<rparr>" "sh' = ?sh"
        using p Inl by (auto simp: unf Some jc votes new completed_call_def round_state_def split: option.split)
      ultimately have "refines ancestry number vs a3 self' sh'" using r ev lf(2) by (simp add: refines_def evolves_def)
      then show ?thesis using ev by (auto simp: leads_def evolves_def)
    next
      case (Inr u)
      obtain a2 where a2: "voter_step ancestry number vs a1 a2" "av_best a2 = r_round_number (vr_votes new)" "av_finalized a2 = av_finalized a1"
          "tracks ancestry number vs a2 (add_mset new (add_mset jc ?R)) ?sh"
        using track_advance [OF t1 _ _ best nf(1,2)] nf(3) rd(3) by (auto simp: votes)
      let ?pr = "past_rounds_push env (past_rounds_push env (background self) jc) (best_round self)"
      have "views_ok new (length (sh_bridged ?sh))" using nf(4,5) bf(2) heap by (simp add: views_ok_def)
      moreover have "views_ok jc (length (sh_bridged ?sh))"
        using views_ok_bridge [OF jc] by (simp add: voting_round_completed_def Let_def views_ok_def call_def)
      moreover have "background_ok number (av_finalized a2) ?pr"
        using background_ok_push [OF background_ok_push [OF bo]] a1(1) a2(3) by (simp add: evolves_def)
      ultimately have "follows ancestry number vs a2 new ?pr ?sh"
        using a2(4) views' by (auto simp: follows_def add_mset_commute)
      moreover have "vt_inner self' = \<lparr>iv_best_round = new, iv_past_rounds = ?pr\<rparr>" "vt_last_finalized_in_rounds self' = ?lf"
          "vt_voters self' = vs" "vt_last_finalized_number self' = vt_last_finalized_number self" "sh' = ?sh"
        using p Inr vs by (auto simp: unf Some jc votes new completed_call_def round_state_def split: option.split)
      ultimately have "refines ancestry number vs a2 self' sh'" using r a1(1) a2(2,3) lf(2) by (simp add: refines_def evolves_def)
      moreover have "voter_steps ancestry number vs a a2" using a1(1) a2(1) by (auto simp: evolves_def)
      ultimately show ?thesis by (auto simp: leads_def)
    qed
  qed
qed

lemma process_incoming_leads:
  assumes env: "env_ok ancestry number env" and gc: "messages_ok number gc"
    and run: "process_incoming env gc self sh = Some y"
  shows "refines ancestry number vs a self sh \<Longrightarrow> leads ancestry number vs a (fst y) (fst (snd y))"
  using run
proof (induction arbitrary: a rule: process_incoming_induct)
  case (stop self sh g res)
  then show ?case using refines_alike [OF stop, of "self\<lparr>vt_global_in := g\<rparr>"] by (simp add: alike_def leads_refl)
next
  case (commit self sh g k c cb self1 sh1 r1 y)
  have r: "refines ancestry number vs a (self\<lparr>vt_global_in := g\<rparr>) sh" by (rule refines_alike [OF commit(4)]) (simp add: alike_def)
  have "message_ok number (CommitIn k c cb)" using gc commit(1) unfolding messages_ok_def by blast
  then have ok: "precommits_ok number (cm_precommits (commit_from_compact c))" by simp
  have l: "leads ancestry number vs a self1 sh1" by (rule process_commit_leads [OF env r ok commit(2)])
  show ?case using l commit(3) leads_trans [OF l] by (cases r1) auto
next
  case (catch_up self sh g cu cb self1 sh1 r1 y)
  have r: "refines ancestry number vs a (self\<lparr>vt_global_in := g\<rparr>) sh" by (rule refines_alike [OF catch_up(4)]) (simp add: alike_def)
  have ok: "message_ok number (CatchUpIn cu cb)" using gc catch_up(1) unfolding messages_ok_def by blast
  have l: "leads ancestry number vs a self1 sh1" by (rule process_catch_up_leads [OF env r ok catch_up(2)])
  show ?case using l catch_up(3) leads_trans [OF l] by (cases r1) (auto split: if_split_asm)
qed

section \<open>The best round\<close>

lemma follows_bridge:
  assumes f: "follows ancestry number vs a best pr sh" and b: "vr_bridge_state best sh = (best', sh', lv)"
  shows "\<exists>a'. evolves ancestry number vs a a' \<and> tracks ancestry number vs a' (add_mset best' (mset (voting_rounds pr))) sh' \<and>
    (\<forall>vr \<in># add_mset best' (mset (voting_rounds pr)). views_ok vr (length (sh_bridged sh')))"
proof -
  note bf = vr_bridge_state_facts [OF b]
  have t: "tracks ancestry number vs a (add_mset best (mset (voting_rounds pr))) sh"
    and views: "\<forall>vr \<in># add_mset best (mset (voting_rounds pr)). views_ok vr (length (sh_bridged sh))"
    using f unfolding follows_def by blast+
  obtain a' where "evolves ancestry number vs a a'" "tracks ancestry number vs a' (add_mset best' (mset (voting_rounds pr))) sh'"
    using track_vote [OF t bf(4)] bf(1,6) by auto
  moreover have "\<forall>vr \<in># add_mset best' (mset (voting_rounds pr)). views_ok vr (length (sh_bridged sh'))"
    using views views_ok_bridge [OF b] views_ok_mono [of _ "length (sh_bridged sh)" "length (sh_bridged sh')"] bf(3) by auto
  ultimately show ?thesis by blast
qed

lemma completed_best_round_leads:
  assumes r: "refines ancestry number vs a self sh" and c: "r_completable (vr_votes (best_round self))"
    and p: "completed_best_round env self sh = Some (self', sh', res)"
  shows "leads ancestry number vs a self' sh'"
proof -
  have f: "follows ancestry number vs a (best_round self) (background self) sh" and vs: "vt_voters self = vs"
    and lf: "snd (vt_last_finalized_in_rounds self) = number (fst (vt_last_finalized_in_rounds self))"
    using r by (simp_all add: refines_def)
  let ?R = "add_mset (best_round self) (mset (voting_rounds (background self)))" and ?r = "vr_votes (best_round self)"
  have t: "tracks ancestry number vs a ?R sh" and bo: "background_ok number (av_finalized a) (background self)"
    and views: "\<forall>vr \<in># ?R. views_ok vr (length (sh_bridged sh))" using f unfolding follows_def by blast+
  have best: "av_best a = r_round_number ?r" using r by (simp add: refines_def)
  let ?sh = "call (completed_call ?r) sh"
  note unf = completed_best_round_def Let_def
  show ?thesis
  proof (cases "env_completed env (r_round_number ?r) (round_state ?r) (round_base ?r) (r_historical_votes ?r)")
    case (Inl e)
    then have eq: "self' = self" "sh' = ?sh" using p by (auto simp: unf completed_call_def)
    obtain a1 where a1: "evolves ancestry number vs a a1" "tracks ancestry number vs a1 ?R ?sh"
      using track_stop [OF t _ c] best by auto
    then have "follows ancestry number vs a1 (best_round self) (background self) ?sh"
      using bo views by (simp add: follows_def evolves_def call_def)
    then show ?thesis unfolding eq by (rule leads_evolves [OF r a1(1)]) simp_all
  next
    case (Inr u)
    obtain old sh1 lv where b: "vr_bridge_state (best_round self) ?sh = (old, sh1, lv)" by (cases "vr_bridge_state (best_round self) ?sh")
    note bf = vr_bridge_state_facts [OF b]
    obtain new where new: "voting_round_new env (r_round_number ?r + 1) vs (vt_last_finalized_in_rounds self) (Some lv) = Some new"
      using p Inr b vs by (auto simp: unf completed_call_def bind_eq_Some_conv)
    have eq: "self' = self\<lparr>vt_inner := \<lparr>iv_best_round = new, iv_past_rounds = past_rounds_push env (background self) old\<rparr>\<rparr>" "sh' = sh1"
      using p Inr b vs new by (simp_all add: unf completed_call_def)
    have b0: "vr_bridge_state (best_round self) sh = (old, sh1\<lparr>sh_calls := sh_calls sh\<rparr>, lv)"
      using b by (auto simp: vr_bridge_state_def bridge_state_def call_def)
    let ?sh0 = "sh1\<lparr>sh_calls := sh_calls sh\<rparr>" and ?R' = "add_mset old (mset (voting_rounds (background self)))"
    obtain a1 where a1: "evolves ancestry number vs a a1" "tracks ancestry number vs a1 ?R' ?sh0"
        "\<forall>vr \<in># ?R'. views_ok vr (length (sh_bridged ?sh0))"
      using follows_bridge [OF f b0] by (elim exE conjE) (rule that)
    have "sound_votes ancestry number vs (best_round self)" using t by (simp add: tracks_def rounds_ok_def)
    then obtain b where "reachable ancestry number vs b ?r" by (auto simp: sound_votes_def)
    from reachable_voter_set [OF this] obtain ws where ws: "voter_set_new ws = Some (Some vs)" by blast
    note nf = voting_round_new_started [where number = number, OF new lf ws]
    obtain a2 where a2: "voter_step ancestry number vs a1 a2" "av_best a2 = r_round_number (vr_votes new)" "av_finalized a2 = av_finalized a1"
        "tracks ancestry number vs a2 (add_mset new ?R') (call (completed_call (vr_votes old)) ?sh0)"
      using track_advance [OF a1(2), of old new] nf(1,2,3) c best a1(1) bf(1) by (auto simp: evolves_def)
    have "call (completed_call (vr_votes old)) ?sh0 = sh1" using bf(1,5) by (simp add: call_def)
    then have t2: "tracks ancestry number vs a2 (add_mset new ?R') sh1" using a2(4) by simp
    have "views_ok new (length (sh_bridged sh1))" using nf(4,5) bf(2,3) by (simp add: views_ok_def)
    then have "follows ancestry number vs a2 new (past_rounds_push env (background self) old) sh1"
      using a1(1,3) a2(3) bo t2 by (intro follows_push) (simp_all add: evolves_def)
    then have "refines ancestry number vs a2 self' sh'" using r a1(1) a2(2,3) by (simp add: eq refines_def evolves_def)
    moreover have "voter_steps ancestry number vs a a2" using a1(1) a2(1) by (auto simp: evolves_def)
    ultimately show ?thesis by (auto simp: leads_def)
  qed
qed

lemma process_best_round_leads:
  assumes env: "env_ok ancestry number env" and r: "refines ancestry number vs a self sh"
    and p: "process_best_round env self sh = Some (self', sh', res)"
  shows "leads ancestry number vs a self' sh'"
proof -
  have f: "follows ancestry number vs a (best_round self) (background self) sh" using r by (simp add: refines_def)
  have t: "tracks ancestry number vs a (add_mset (best_round self) (mset (voting_rounds (background self)))) sh"
    and bo: "background_ok number (av_finalized a) (background self)"
    and views: "\<forall>vr \<in># add_mset (best_round self) (mset (voting_rounds (background self))). views_ok vr (length (sh_bridged sh))"
    using f unfolding follows_def by blast+
  obtain vr sh1 polled where v: "voting_round_poll env (best_round self) sh = Some (vr, sh1, polled)"
    using p by (auto simp: process_best_round_def bind_eq_Some_conv)
  let ?self = "self\<lparr>vt_inner := (vt_inner self)\<lparr>iv_best_round := vr\<rparr>\<rparr>"
  note k = voting_round_poll_keeps [OF v]
  have num: "r_round_number (vr_votes vr) = r_round_number (vr_votes (best_round self))" and len: "length (sh_bridged sh1) = length (sh_bridged sh)"
    using k by (simp_all add: keeps_def)
  obtain a1 where a1: "evolves ancestry number vs a a1" "tracks ancestry number vs a1 (add_mset vr (mset (voting_rounds (background self)))) sh1"
    using track_poll [OF t env v] by blast
  have "follows ancestry number vs a1 vr (background self) sh1"
    using a1 bo views keeps_views [OF k] by (simp add: follows_def evolves_def len)
  then have l: "leads ancestry number vs a ?self sh1"
    by (intro leads_evolves [OF r a1(1)]) (simp_all add: num)
  show ?thesis
  proof (cases "polled = Inr (Ready ()) \<and> vr_state vr = Some Precommitted")
    case False
    then have "self' = ?self \<and> sh' = sh1"
      using p v by (auto simp: process_best_round_def Let_def split: sum.split_asm if_split_asm)
    then show ?thesis using l by simp
  next
    case True
    then have "and_then (completed_best_round env ?self sh1) (\<lambda>self sh _. Some (self, sh, Inr True)) = Some (self', sh', res)"
      using p v by (simp add: process_best_round_def)
    then obtain r1 where c: "completed_best_round env ?self sh1 = Some (self', sh', r1)"
      by (rule and_then_cases) auto
    have "r_completable (vr_votes (best_round ?self))"
      using v [unfolded conjunct1 [OF True]] by (cases rule: voting_round_poll_cases) (auto split: if_split_asm)
    then show ?thesis using completed_best_round_leads [OF _ _ c] leads_trans [OF l] by blast
  qed
qed

section \<open>The voter\<close>

lemma voter_turn_leads:
  assumes env: "env_ok ancestry number env" and gc: "messages_ok number gc" and r: "refines ancestry number vs a self sh"
    and p: "voter_turn env gc order self sh = Some (self', sh', res)"
  shows "leads ancestry number vs a self' sh'"
  using p [unfolded voter_turn_def]
proof (cases rule: and_then_cases)
  case (1 e)
  then show ?thesis using process_incoming_leads [OF env gc 1(1) r] by simp
next
  case (2 self1 sh1 u)
  have l1: "leads ancestry number vs a self1 sh1" using process_incoming_leads [OF env gc 2(1) r] by simp
  from 2(2) show ?thesis
  proof (cases rule: and_then_cases)
    case (1 e)
    then show ?thesis using leads_trans [OF l1] prune_background_rounds_leads [OF env] by blast
  next
    case (2 self2 sh2 u)
    have l2: "leads ancestry number vs a self2 sh2"
      using leads_trans [OF l1] prune_background_rounds_leads [OF env _ 2(1)] by blast
    obtain out flushed where b: "buffered_poll (gc_sink gc) (vt_global_out self2) = (out, flushed)" by fastforce
    have l3: "leads ancestry number vs a (self2\<lparr>vt_global_out := out\<rparr>) sh2"
      by (rule leads_alike [OF l2]) (simp add: alike_def)
    from 2(2) [unfolded b prod.case] show ?thesis
    proof (cases rule: and_then_cases)
      case (1 e)
      then show ?thesis using l3 by simp
    next
      case (2 self3 sh3 u)
      then have "process_best_round env (self2\<lparr>vt_global_out := out\<rparr>) sh2 = Some (self', sh', res)" by simp
      then show ?thesis using leads_trans [OF l3] process_best_round_leads [OF env] by blast
    qed
  qed
qed

lemma voter_poll_leads:
  assumes "env_ok ancestry number env" and "messages_ok number gc"
    and "voter_poll env gc orders self sh = Some (self', sh', res)" and "refines ancestry number vs a self sh"
  shows "leads ancestry number vs a self' sh'"
proof -
  have "env' = env \<longrightarrow> gc' = gc \<longrightarrow> (\<forall>a. refines ancestry number vs a self sh \<longrightarrow> leads ancestry number vs a (fst y) (fst (snd y)))"
    if "voter_poll env' gc' orders self sh = Some y" for env' gc' orders self sh y
  proof (rule voter_poll.raw_induct [OF _ that])
    fix rec env' gc' orders self sh y
    assume IH: "\<And>env' gc' orders self sh y. rec env' gc' orders self sh = Some y \<Longrightarrow> env' = env \<longrightarrow> gc' = gc \<longrightarrow>
        (\<forall>a. refines ancestry number vs a self sh \<longrightarrow> leads ancestry number vs a (fst y) (fst (snd y)))"
      and eq: "Option.bind (voter_turn env' gc' (orders 0) self sh) (\<lambda>(self, sh, result).
        case result of Inl e \<Rightarrow> Some (self, sh, Inl e)
        | Inr again \<Rightarrow> if again then rec env' gc' (\<lambda>k. orders (Suc k)) self sh else Some (self, sh, Inr Pending)) = Some y"
    show "env' = env \<longrightarrow> gc' = gc \<longrightarrow> (\<forall>a. refines ancestry number vs a self sh \<longrightarrow> leads ancestry number vs a (fst y) (fst (snd y)))"
    proof (intro impI allI)
      fix a assume [simp]: "env' = env" "gc' = gc" and r: "refines ancestry number vs a self sh"
      obtain self1 sh1 r1 where t: "voter_turn env gc (orders 0) self sh = Some (self1, sh1, r1)"
        using eq by (auto simp: bind_eq_Some_conv)
      have l: "leads ancestry number vs a self1 sh1" by (rule voter_turn_leads [OF assms(1,2) r t])
      show "leads ancestry number vs a (fst y) (fst (snd y))"
      proof (cases "r1 = Inr True")
        case True
        then have "rec env gc (\<lambda>k. orders (Suc k)) self1 sh1 = Some y" using eq t by simp
        then show ?thesis using leads_trans [OF l] IH by blast
      next
        case False
        then have "fst y = self1 \<and> fst (snd y) = sh1" using eq t by (auto split: sum.split_asm if_split_asm)
        then show ?thesis using l by simp
      qed
    qed
  qed
  from this [OF assms(3)] show ?thesis using assms(4) by simp
qed

end

end
