(* ===== verification/Voter_Run.thy ===== *)
theory Voter_Run
  imports Voter_Refines
begin

text \<open>
  Runs of the voter: it is created, then polled again and again, each time with an environment, streams and an order of its
  background rounds that answer as they like. Every run is a run of the abstract voter, whose invariants follow.
\<close>

section \<open>Starting\<close>

lemma handle_votes_handles:
  assumes "handle_votes env votes vr sh = Some (handled, sh')" "\<forall>v \<in> set votes. vote_ok number v"
  shows "(\<exists>cs. sh_calls sh' = sh_calls sh @ cs \<and> list_all is_equivocation_call cs) \<and> sh_bridged sh' = sh_bridged sh \<and>
    sh_finalized sh' = sh_finalized sh \<and>
    (\<forall>vr'. handled = Some vr' \<longrightarrow> handles vr sh vr' sh' \<and> round_steps (env_ancestry env) number (vr_votes vr) (vr_votes vr'))"
  using assms
proof (induction votes arbitrary: vr sh)
  case (Cons v votes)
  then obtain vr1 sh1 r1 where h: "handle_vote env v vr sh = Some (vr1, sh1, r1)" by (auto simp: bind_eq_Some_conv)
  have h1: "handles vr sh vr1 sh1" by (rule handle_vote_handles [OF h])
  have s1: "round_steps (env_ancestry env) number (vr_votes vr) (vr_votes vr1)" using handle_vote_steps [OF h] Cons.prems(2) by simp
  show ?case
  proof (cases r1)
    case (Inl e)
    then show ?thesis using Cons.prems(1) h handlesD [OF h1] by simp
  next
    case (Inr u)
    then have "handle_votes env votes vr1 sh1 = Some (handled, sh')" using Cons.prems(1) h by simp
    note IH = Cons.IH [OF this] 
    obtain cs where cs: "sh_calls sh1 = sh_calls sh @ cs" "list_all is_equivocation_call cs" using handlesD(10) [OF h1] by blast
    from IH obtain cs' where "sh_calls sh' = sh_calls sh1 @ cs'" "list_all is_equivocation_call cs'" using Cons.prems(2) by auto
    then have "\<exists>cs. sh_calls sh' = sh_calls sh @ cs \<and> list_all is_equivocation_call cs" using cs by auto
    then show ?thesis using IH Cons.prems(2) handlesD(8,9) [OF h1] handles_trans [OF h1] rtranclp_trans [OF s1] by simp
  qed
qed auto

lemma voting_round_completed_facts:
  "silent (voting_round_completed env votes lv)" "vr_votes (voting_round_completed env votes lv) = votes"
  "vr_bridged_round_state (voting_round_completed env votes lv) = None" "vr_last_round_state (voting_round_completed env votes lv) = lv"
  by (simp_all add: voting_round_completed_def silent_def Let_def)

lemma instantiate_last_round_facts:
  assumes "instantiate_last_round env vs votes k b sh = Some (instantiated, sh')" "\<forall>v \<in> set votes. vote_ok number v"
    and "snd b = number (fst b)" "voter_set_new ws = Some (Some vs)" "env_ancestry env = ancestry"
  shows "(\<exists>cs. sh_calls sh' = sh_calls sh @ cs \<and> list_all is_equivocation_call cs) \<and> sh_bridged sh' = sh_bridged sh \<and>
    sh_finalized sh' = sh_finalized sh \<and> (\<forall>vr. instantiated = Some vr \<longrightarrow> silent vr \<and> sound_votes ancestry number vs vr \<and>
      vr_bridged_round_state vr = None \<and> vr_last_round_state vr = None)"
proof -
  let ?vr = "voting_round_completed env (round_new \<lparr>rp_round_number = k, rp_voters = vs, rp_base = b\<rparr>) None"
  obtain handled where h: "handle_votes env votes ?vr sh = Some (handled, sh')"
      and i: "\<And>vr. instantiated = Some vr \<Longrightarrow> handled = Some vr"
    using assms(1) by (auto simp: instantiate_last_round_def Let_def bind_eq_Some_conv split: option.split_asm if_split_asm)
  obtain f n where b: "b = (f, n)" by fastforce
  have "reachable ancestry number vs f (vr_votes ?vr)"
    using reachable.start [OF assms(4), of ancestry number f k] assms(3) b by (simp add: voting_round_completed_facts)
  then have "sound_votes ancestry number vs vr" if "instantiated = Some vr" for vr
    using handle_votes_handles [OF h assms(2)] i [OF that] reachable_steps assms(5) unfolding sound_votes_def by blast
  moreover have "silent vr \<and> vr_bridged_round_state vr = None \<and> vr_last_round_state vr = None" if "instantiated = Some vr" for vr
    using handle_votes_handles [OF h assms(2)] i [OF that] voting_round_completed_facts [of env _ None]
    by (auto simp: handles_def silent_def)
  ultimately show ?thesis using handle_votes_handles [OF h assms(2)] by simp
qed

lemma background_ok_new: "background_ok number f past_rounds_new"
  using past_rounds_ok_new by (simp add: background_ok_def past_rounds_new_def channels_ok_def)

lemma voter_new_starts:
  fixes sh :: "('h :: linorder, 's, 'i :: linorder) shared"
  assumes new: "voter_new env vs comms k votes b fin x = Some (self, sh)" and ws: "voter_set_new ws = Some (Some vs)"
    and votes: "\<forall>v \<in> set votes. vote_ok number v" and b: "snd b = number (fst b)" and fin: "snd fin = number (fst fin)"
    and anc: "env_ancestry env = ancestry"
  shows "\<exists>a. voter_start ancestry number vs (snd fin) a \<and> refines ancestry number vs a self sh"
proof -
  define sh0 :: "('h, 's, 'i) shared" where "sh0 = \<lparr>sh_bridged = [state_genesis b], sh_finalized = [], sh_calls = []\<rparr>"
  have "\<exists>lv pr. background_ok number (snd fin) pr \<and> (\<forall>vr \<in> set (voting_rounds pr). silent vr \<and> sound_votes ancestry number vs vr \<and>
      views_ok vr (length (sh_bridged sh))) \<and> list_all is_equivocation_call (sh_calls sh) \<and> sh_finalized sh = [] \<and>
      (\<forall>n. lv = LatterView n \<longrightarrow> n < length (sh_bridged sh)) \<and>
      Option.bind (voting_round_new env (k + 1) vs fin (Some lv)) (\<lambda>best_round.
        Some (\<lparr>vt_voters = vs, vt_inner = \<lparr>iv_best_round = best_round, iv_past_rounds = pr\<rparr>,
           vt_last_finalized_number = snd fin, vt_global_in = fst comms, vt_global_out = buffered_new (snd comms),
           vt_last_finalized_in_rounds = fin, vt_outcomes = x\<rparr>, sh)) = Some (self, sh)" (is "\<exists>lv pr. ?P lv pr")
  proof (cases "0 < k")
    case False
    then have "?P (LatterView 0) past_rounds_new"
      using new background_ok_new [of number "snd fin"]
      by (auto simp: voter_new_def bridge_state_def Let_def bind_eq_Some_conv voting_rounds_def past_rounds_new_def)
    then show ?thesis by blast
  next
    case True
    then obtain inst sh1 where i: "instantiate_last_round env vs votes k b sh0 = Some (inst, sh1)"
      using new by (auto simp: voter_new_def bridge_state_def Let_def sh0_def bind_eq_Some_conv)
    note f = instantiate_last_round_facts [OF i votes b ws anc]
    obtain cs where cs: "sh_calls sh1 = cs" "list_all is_equivocation_call cs" using f by (auto simp: sh0_def)
    have f1: "length (sh_bridged sh1) = 1" "sh_finalized sh1 = []" using f by (simp_all add: sh0_def)
    show ?thesis
    proof (cases inst)
      case None
      then have "?P (LatterView 0) past_rounds_new"
        using new i True background_ok_new [of number "snd fin"] cs f1
        by (auto simp: voter_new_def bridge_state_def Let_def bind_eq_Some_conv voting_rounds_def past_rounds_new_def sh0_def)
      then show ?thesis by blast
    next
      case (Some vr)
      obtain vr' sh2 lv where br: "vr_bridge_state vr sh1 = (vr', sh2, lv)" by (cases "vr_bridge_state vr sh1") 
      note bf = vr_bridge_state_facts [OF br]
      have vr: "silent vr" "sound_votes ancestry number vs vr" "views_ok vr (length (sh_bridged sh1))"
        using f Some by (simp_all add: views_ok_def)
      have "silent vr'" "sound_votes ancestry number vs vr'" using vr bf(1,7) by (simp_all add: sound_votes_def)
      moreover have "sh = sh2" using new i True Some br
        by (auto simp: voter_new_def bridge_state_def Let_def bind_eq_Some_conv sh0_def)
      ultimately have "?P lv (past_rounds_push env past_rounds_new vr')"
        using new i True Some br background_ok_push [OF background_ok_new [of number "snd fin"], of env vr'] cs f1
          views_ok_bridge [OF br vr(3)] bf(2,3,5,6)
        by (simp add: voter_new_def bridge_state_def Let_def bind_eq_Some_conv sh0_def) (simp add: voting_rounds_def past_rounds_new_def)
      then show ?thesis by blast
    qed
  qed
  then obtain lv pr where p: "?P lv pr" by blast
  then obtain best where best: "voting_round_new env (k + 1) vs fin (Some lv) = Some best"
      and self: "vt_inner self = \<lparr>iv_best_round = best, iv_past_rounds = pr\<rparr>" "vt_voters self = vs" "vt_last_finalized_number self = snd fin"
        "vt_last_finalized_in_rounds self = fin"
    by (auto simp: bind_eq_Some_conv)
  note bf = voting_round_new_started [where number = number, OF best fin ws]
  define a where "a = \<lparr>av_rounds = add_mset best (mset (voting_rounds pr)), av_best = k + 1, av_finalized = snd fin,
    av_notified = {}, av_calls = sh_calls sh\<rparr>"
  have st: "voter_start ancestry number vs (snd fin) a"
    using p bf(1-3) by (fastforce simp: voter_start_def a_def)
  have "views_ok best (length (sh_bridged sh))" using p bf(4,5) by (simp add: views_ok_def)
  then have "follows ancestry number vs a best pr sh"
    using p rounds_ok_start [OF st] justified_ok_start [OF st] by (simp add: follows_def tracks_def a_def)
  then have "refines ancestry number vs a self sh" using bf(3) self fin by (simp add: refines_def a_def)
  then show ?thesis using st by blast
qed

section \<open>Runs\<close>

text \<open>The voter set is one that \<^verbatim>\<open>VoterSet::new\<close> gives. The ancestry is that of one chain throughout, and the blocks that
  messages name carry their numbers; all else that the environment answers may change from poll to poll.\<close>

inductive voter_run ::
  "('h \<Rightarrow> 'h \<Rightarrow> error + 'h list) \<Rightarrow> ('h \<Rightarrow> nat) \<Rightarrow> ('i :: linorder) voter_set \<Rightarrow> nat
     \<Rightarrow> (('h :: linorder, 's, 'i, 'e, 't, 'b, 'n, 'o) environment \<times> ('h, 's, 'i, 'e, 'g, 'p, 'x) global_comms \<times> (nat \<Rightarrow> nat list)) list
     \<Rightarrow> ('h, 's, 'i, 't, 'b, 'n, 'o, 'g, 'p, 'x) voter \<Rightarrow> ('h, 's, 'i) shared \<Rightarrow> bool"
  for ancestry number vs f where
  start: "voter_set_new ws = Some (Some vs) \<Longrightarrow> env_ok ancestry number (env :: ('h, 's, 'i, 'e, 't, 'b, 'n, 'o) environment) \<Longrightarrow>
    \<forall>v \<in> set last_round_votes. vote_ok number v \<Longrightarrow>
    snd last_round_base = number (fst last_round_base) \<Longrightarrow> snd last_finalized = number (fst last_finalized) \<Longrightarrow> snd last_finalized = f \<Longrightarrow>
    voter_new env vs comms last_round_number last_round_votes last_round_base last_finalized x = Some (self, sh) \<Longrightarrow>
    voter_run ancestry number vs f [] self sh"
| poll: "voter_run ancestry number vs f polls self sh \<Longrightarrow> env_ok ancestry number env \<Longrightarrow> messages_ok number gc \<Longrightarrow>
    voter_poll env gc orders self sh = Some (self', sh', res) \<Longrightarrow> voter_run ancestry number vs f (polls @ [(env, gc, orders)]) self' sh'"

context chain
begin

lemma voter_run_refines:
  assumes "voter_run ancestry number vs f polls self sh"
  shows "\<exists>a0 a. voter_start ancestry number vs f a0 \<and> voter_steps ancestry number vs a0 a \<and> refines ancestry number vs a self sh"
  using assms
proof (induction rule: voter_run.induct)
  case (start ws env votes b fin comms k x self sh)
  then show ?case using voter_new_starts [OF start(7,1,3,4,5)] by (auto simp: env_ok_def)
next
  case (poll polls self sh env gc orders self' sh' res)
  then obtain a0 a where a: "voter_start ancestry number vs f a0" "voter_steps ancestry number vs a0 a" "refines ancestry number vs a self sh"
    by blast
  have "leads ancestry number vs a self' sh'" using voter_poll_leads [OF poll.hyps(2-4) a(3)] .
  then show ?case using a(1) rtranclp_trans [OF a(2)] unfolding leads_def by blast
qed

end

end
