(* ===== verification/Voter_Properties.thy ===== *)
theory Voter_Properties
  imports Voter_Run Voting_Commit
begin

text \<open>
  The properties of the voter, each applied to a concrete run on the block tree of the fuzzing harness: a voter that starts from
  the genesis round and receives a commit.
\<close>

section \<open>A concrete run\<close>

type_synonym example_message = "(fhash, unit, nat, commit_processing_outcome list) communication_in"

fun messages_poll_next :: "example_message list \<Rightarrow> example_message list \<times> (unit + example_message) option poll" where
  "messages_poll_next [] = ([], Pending)"
| "messages_poll_next (m # ms) = (ms, if message_ok fuzz_num m then Ready (Some (Inr m)) else Pending)"

definition example_comms ::
  "(fhash, unit, nat, unit, example_message list, (fhash, unit, nat) communication_out list, commit_processing_outcome list) global_comms" where
  "example_comms = \<lparr>gc_poll_next = messages_poll_next, gc_sink = list_sink\<rparr>"

lemma example_comms_simps [simp]: "gc_poll_next example_comms = messages_poll_next" "gc_sink example_comms = list_sink"
  by (simp_all add: example_comms_def)

lemma messages_poll_next_ok: "messages_poll_next g = (g', Ready (Some (Inr m))) \<Longrightarrow> message_ok fuzz_num m"
  by (cases g) (auto split: if_split_asm)

lemma example_comms_ok [simp]: "messages_ok fuzz_num example_comms"
  by (auto simp: messages_ok_def dest: messages_poll_next_ok)

lemma example_env_ok [simp]: "env_ok fuzz_ancestry fuzz_num (example_env msgs)"
  by (simp add: env_ok_def)

definition example_commit_in :: example_message where
  "example_commit_in = CommitIn 1 (compact_from_commit (example_commit 4)) (Work (\<lambda>out outs. outs @ [out]))"

text \<open>The first round of voter 1, and its first poll.\<close>

lemma example_first_round:
  assumes vs: "voter_set_new four_voters = Some (Some vs)" "voter_ids vs = {1, 2, 3, 4}"
  shows "\<exists>best. voting_round_new (example_env []) 1 vs (0, fuzz_num 0) (Some (LatterView 0)) = Some best \<and>
    (\<forall>sh. sh_bridged sh ! 0 = state_genesis (0, fuzz_num 0) \<longrightarrow> (\<exists>best'. voting_round_poll (example_env []) best sh = Some (best', sh, Inr Pending)))"
proof -
  note ok = voter_set_new_ok [OF vs(1)]
  let ?r = "round_new \<lparr>rp_round_number = 1, rp_voters = vs, rp_base = (0, fuzz_num 0)\<rparr> :: (nat, fhash, unit) round"
  note f = round_new_fields [OF HOL.refl, where n = 1 and vs = vs and b = 0 and m = "fuzz_num 0"]
  obtain x w where x: "primary_voter ?r = Some (x, w)" using primary_voter_total [of ?r] ok by (auto simp: f)
  obtain self where self: "voting_round_new (example_env []) 1 vs (0, fuzz_num 0) (Some (LatterView 0)) = Some self"
    by (simp add: voting_round_new_def x Let_def)
  have s: "vr_votes self = ?r" "vr_state self = Some (Start () ())" "vr_incoming self = []" "vr_primary_block self = None"
    "vr_last_round_state self = Some (LatterView 0)" "is_active (vr_voting self)"
    using self voter_set_contains_iff [OF ok, of 1] vs(2) by (auto simp: voting_round_new_def x Let_def f)
  let ?self = "self\<lparr>vr_state := Some (Prevoting () (0, 0))\<rparr>"
  let ?self1 = "?self\<lparr>vr_outgoing := \<lparr>bf_inner = bf_inner (vr_outgoing ?self) @ bf_buffer (vr_outgoing ?self), bf_buffer = []\<rparr>\<rparr>"
  have "voting_round_poll (example_env []) self sh = Some (?self1, sh, Inr Pending)" if "sh_bridged sh ! 0 = state_genesis (0, fuzz_num 0)" for sh
  proof -
    have c: "cast_votes (example_env []) (Some (sh_bridged sh ! 0)) self sh = Some (?self, sh, Inr ())"
      using example_start [OF s(2,6,4)] that by simp
    have "notify (example_env []) (round_state (vr_votes self)) (round_state (vr_votes ?self)) ?self1 sh = Some (?self1, sh)"
      by (simp add: notify_def s)
    from example_poll [OF s(3,5) c _ this] show ?thesis by (simp add: s f)
  qed
  then show ?thesis using self by blast
qed

text \<open>The voter starts, receives a commit for block 4 and finalizes it.\<close>

lemma example_commit_ok: "precommits_ok fuzz_num (cm_precommits (example_commit t))"
  by (simp add: precommits_ok_def example_commit_def precommit_new_def)

lemma example_process_commit:
  assumes "validate_commit fuzz_ancestry (example_commit 4) (vt_voters self) = Some (Inr res)" "cvr_valid res"
    and "background self = past_rounds_new" "vt_last_finalized_number self = 0"
  shows "process_commit (example_env []) 1 (compact_from_commit (example_commit 4)) cb self sh =
    Some (self\<lparr>vt_last_finalized_number := 2, vt_outcomes := callback_run cb GoodCommit (vt_outcomes self)\<rparr>,
      call (CallFinalizeBlock 4 2 1 (example_commit 4)) sh, Inr ())"
proof -
  have n: "fuzz_num 4 = 2" by code_simp
  have i: "past_rounds_import_commit past_rounds_new k c = (past_rounds_new, Some c)" for k :: u64 and c :: "(fhash, unit, nat) commit"
    by (simp add: past_rounds_import_commit_def past_rounds_new_def)
  have u: "past_rounds_update_finalized past_rounds_new k = past_rounds_new" for k
    by (simp add: past_rounds_update_finalized_def past_rounds_new_def)
  have c: "commit_from_compact (compact_from_commit c) = c" for c :: "(fhash, unit, nat) commit"
    by (simp add: commit_from_compact_def compact_from_commit_def zip_map_map zip_same_conv_map comp_def map_idI)
  have t: "cm_target_number (example_commit 4) = 2" "cm_target_hash (example_commit 4) = 4" by (simp_all add: example_commit_def n)
  have b: "set_background past_rounds_new self = self" using assms(3) by simp
  show ?thesis by (simp add: process_commit_def Let_def c i u assms t b)
qed

lemma example_voter_poll:
  assumes vs: "voter_set_new four_voters = Some (Some vs)" "rw (vs_threshold vs) = 3" "voter_ids vs = {1, 2, 3, 4}"
    "\<forall>A. weight_of_set vs A = card (A \<inter> {1, 2, 3, 4})"
  shows "\<exists>self sh self' sh'. voter_new (example_env []) vs ([example_commit_in], []) 0 [] (0, fuzz_num 0) (0, fuzz_num 0) [] = Some (self, sh) \<and>
    voter_poll (example_env []) example_comms (\<lambda>_. []) self sh = Some (self', sh', Inr Pending) \<and>
    sh_calls sh' = [CallFinalizeBlock 4 2 1 (example_commit 4)] \<and> vt_outcomes self' = [GoodCommit]"
proof -
  obtain best where best: "voting_round_new (example_env []) 1 vs (0, fuzz_num 0) (Some (LatterView 0)) = Some best"
      "\<forall>sh. sh_bridged sh ! 0 = state_genesis (0, fuzz_num 0) \<longrightarrow> (\<exists>best'. voting_round_poll (example_env []) best sh = Some (best', sh, Inr Pending))"
    using example_first_round [OF vs(1,3)] by blast
  obtain res where res: "validate_commit fuzz_ancestry (example_commit 4) vs = Some (Inr res)" "cvr_valid res"
    using example_commit_valid [OF vs, of 4] by blast
  have z: "fuzz_num 0 = 0" by code_simp
  let ?sh = "genesis_shared" and ?sh1 = "call (CallFinalizeBlock 4 2 1 (example_commit 4)) genesis_shared"
  let ?v = "\<lambda>n g x. \<lparr>vt_voters = vs, vt_inner = \<lparr>iv_best_round = best, iv_past_rounds = past_rounds_new\<rparr>, vt_last_finalized_number = n,
      vt_global_in = g :: example_message list, vt_global_out = buffered_new ([] :: (fhash, unit, nat) communication_out list),
      vt_last_finalized_in_rounds = (0, 0), vt_outcomes = x\<rparr>"
  have new: "voter_new (example_env []) vs ([example_commit_in], []) 0 [] (0, fuzz_num 0) (0, fuzz_num 0) [] = Some (?v 0 [example_commit_in] [], ?sh)"
    using best(1) by (simp add: voter_new_def bridge_state_def Let_def genesis_shared_def z)
  have pc: "process_commit (example_env []) 1 (compact_from_commit (example_commit 4)) cb (?v 0 [] []) ?sh =
      Some (?v 2 [] (callback_run cb GoodCommit []), ?sh1, Inr ())" for cb
    using example_process_commit [of "?v 0 [] []" res cb ?sh] res by simp
  have ok: "message_ok fuzz_num example_commit_in"
    using example_commit_ok [of 4]
    by (simp add: example_commit_in_def commit_from_compact_def compact_from_commit_def zip_map_map zip_same_conv_map comp_def map_idI)
  have inc: "process_incoming (example_env []) example_comms (?v 2 [] [GoodCommit]) ?sh1 = Some (?v 2 [] [GoodCommit], ?sh1, Inr ())"
    by (subst process_incoming.simps) simp
  have inc2: "process_incoming (example_env []) example_comms (?v 0 [example_commit_in] []) ?sh = Some (?v 2 [] [GoodCommit], ?sh1, Inr ())"
    using ok by (subst process_incoming.simps) (simp, simp add: example_commit_in_def pc inc)
  have bc: "prune_background_rounds (example_env []) [] (?v 2 [] [GoodCommit]) ?sh1 = Some (?v 2 [] [GoodCommit], ?sh1, Inr ())"
  proof -
    have "past_rounds_poll_next (example_env []) [] past_rounds_new ?sh1 = Some ((past_rounds_new, []), ?sh1, Inr (Ready None))"
      by (subst past_rounds_poll_next.simps) (simp add: past_rounds_new_def)
    then have "broadcast_commits (example_env []) [] (?v 2 [] [GoodCommit]) ?sh1 = Some (?v 2 [] [GoodCommit], ?sh1, Inr ())"
      by (subst broadcast_commits.simps) simp
    then show ?thesis by (simp add: prune_background_rounds_def call_def genesis_shared_def)
  qed
  obtain best' where p: "voting_round_poll (example_env []) best ?sh1 = Some (best', ?sh1, Inr Pending)"
    using best(2) [rule_format, of ?sh1] by (auto simp: call_def)
  have "\<exists>self'. voter_poll (example_env []) example_comms (\<lambda>_. []) (?v 0 [example_commit_in] []) ?sh = Some (self', ?sh1, Inr Pending) \<and>
      vt_outcomes self' = [GoodCommit]"
    by (subst voter_poll.simps) (simp add: voter_turn_def inc2 bc process_best_round_def list_sink_flush p)
  moreover have "sh_calls ?sh1 = [CallFinalizeBlock 4 2 1 (example_commit 4)]" by (simp add: call_def)
  ultimately show ?thesis using new by blast
qed

type_synonym example_polls =
  "(example_environment \<times> (fhash, unit, nat, unit, example_message list, (fhash, unit, nat) communication_out list,
     commit_processing_outcome list) global_comms \<times> (nat \<Rightarrow> nat list)) list"

lemma example_run:
  "\<exists>vs (polls :: example_polls) self sh. voter_set_new four_voters = Some (Some vs) \<and> voter_run fuzz_ancestry fuzz_num vs 0 polls self sh \<and>
     sh_calls sh = [CallFinalizeBlock 4 2 1 (example_commit 4)] \<and> vt_outcomes self = [GoodCommit]"
proof -
  obtain vs where vs: "voter_set_new four_voters = Some (Some vs)" "rw (vs_threshold vs) = 3" "voter_ids vs = {1, 2, 3, 4}"
    "\<forall>A. weight_of_set vs A = card (A \<inter> {1, 2, 3, 4})" using four_voters_set by blast
  obtain self sh self' sh' where new: "voter_new (example_env []) vs ([example_commit_in], []) 0 [] (0, fuzz_num 0) (0, fuzz_num 0) [] = Some (self, sh)"
    and poll: "voter_poll (example_env []) example_comms (\<lambda>_. []) self sh = Some (self', sh', Inr Pending)"
    and calls: "sh_calls sh' = [CallFinalizeBlock 4 2 1 (example_commit 4)]" "vt_outcomes self' = [GoodCommit]"
    using example_voter_poll [OF vs] by blast
  have z: "fuzz_num 0 = 0" by code_simp
  have "voter_run fuzz_ancestry fuzz_num vs 0 ([] :: example_polls) self sh"
    by (rule voter_run.start [OF vs(1) example_env_ok _ _ _ _ new]) (simp_all add: z)
  then have "voter_run fuzz_ancestry fuzz_num vs 0 ([] @ [(example_env [], example_comms, \<lambda>_. [])]) self' sh'"
    by (rule voter_run.poll [OF _ example_env_ok example_comms_ok poll])
  then show ?thesis using vs(1) calls by blast
qed

section \<open>Refinement\<close>

text \<open>C3. The voter refines the abstract voter: whatever votes, commits and catch-ups arrive and whatever the environment, the timers
  and the sinks answer, errors included, every run of the voter is a run of the abstract machine with the same rounds, the
  same best round, the same last finalized block and the same calls to the environment.\<close>

theorem voter_refines:
  assumes "chain ancestry parent number" and "voter_run ancestry number vs f polls self sh"
  shows "\<exists>a0 a. voter_start ancestry number vs f a0 \<and> voter_steps ancestry number vs a0 a \<and>
    av_rounds a = add_mset (best_round self) (mset (voting_rounds (background self))) \<and>
    av_best a = r_round_number (vr_votes (best_round self)) \<and> av_finalized a = vt_last_finalized_number self \<and>
    av_calls a = sh_calls sh \<and> set (sh_finalized sh) \<subseteq> av_notified a"
  using chain.voter_run_refines [OF assms] by (fastforce simp: refines_def follows_def tracks_def)

theorem voter_refines_witness:
  "\<exists>vs (polls :: example_polls) self sh a0 a. voter_run fuzz_ancestry fuzz_num vs 0 polls self sh \<and>
     voter_start fuzz_ancestry fuzz_num vs 0 a0 \<and> voter_steps fuzz_ancestry fuzz_num vs a0 a \<and>
     av_rounds a = add_mset (best_round self) (mset (voting_rounds (background self))) \<and>
     av_calls a = [CallFinalizeBlock 4 2 1 (example_commit 4)]"
proof -
  obtain vs and polls :: example_polls and self sh where run: "voter_run fuzz_ancestry fuzz_num vs 0 polls self sh"
      and calls: "sh_calls sh = [CallFinalizeBlock 4 2 1 (example_commit 4)]"
    using example_run by blast
  from voter_refines [OF fuzz.chain_axioms run] show ?thesis using run calls by metis
qed

text \<open>What a run satisfies through its abstract run.\<close>

lemma voter_run_ok:
  assumes "chain ancestry parent number" and "voter_run ancestry number vs f polls self sh"
  obtains a where "av_calls a = sh_calls sh" "av_finalized a = vt_last_finalized_number self" "rounds_ok ancestry number vs a"
    "finality_ok f a" "justified_ok ancestry number vs a" "lifecycle_ok a" "refines ancestry number vs a self sh"
    "(\<forall>st b v. CallCompleted (- 1) st b v \<notin> set (sh_calls sh)) \<longrightarrow> votes_once a"
proof -
  obtain a0 a where a: "voter_start ancestry number vs f a0" "voter_steps ancestry number vs a0 a" "refines ancestry number vs a self sh"
    using chain.voter_run_refines [OF assms] by blast
  have c: "av_calls a = sh_calls sh" "av_finalized a = vt_last_finalized_number self"
    using a(3) by (simp_all add: refines_def follows_def tracks_def)
  show thesis using that [OF c] voter_steps_ok [OF a(2,1)] voter_steps_votes_once [OF a(2,1)] a(3) c(1) by simp
qed

section \<open>Finality\<close>

text \<open>C4. The numbers of the blocks that a voter tells the environment to finalize strictly increase, beginning above the block that was
  final when it started, and its record of the last finalized number is the last of them: no block is finalized twice, and finality never goes back.\<close>

theorem voter_finality_increases:
  assumes "chain ancestry parent number" and "voter_run ancestry number vs f polls self sh"
  shows "sorted_wrt (<) (f # finalized_numbers (sh_calls sh)) \<and>
    List.last (f # finalized_numbers (sh_calls sh)) = vt_last_finalized_number self"
proof -
  obtain a where "av_calls a = sh_calls sh" "av_finalized a = vt_last_finalized_number self" "finality_ok f a"
      "refines ancestry number vs a self sh" by (rule voter_run_ok [OF assms])
  then show ?thesis by (simp add: finality_ok_def)
qed

theorem voter_finality_increases_witness:
  "\<exists>vs (polls :: example_polls) self sh. voter_run fuzz_ancestry fuzz_num vs 0 polls self sh \<and> sh_calls sh \<noteq> [] \<and>
     sorted_wrt (<) (0 # finalized_numbers (sh_calls sh)) \<and> vt_last_finalized_number self = 2"
proof -
  obtain vs and polls :: example_polls and self sh where run: "voter_run fuzz_ancestry fuzz_num vs 0 polls self sh"
      and calls: "sh_calls sh = [CallFinalizeBlock 4 2 1 (example_commit 4)]"
    using example_run by blast
  show ?thesis
    using voter_finality_increases [OF fuzz.chain_axioms run] run calls
    by (intro exI [of _ vs] exI [of _ polls] exI [of _ self] exI [of _ sh]) simp
qed

text \<open>C5. Every block a voter finalizes is justified: the commit it hands to the environment is for this block, and either
  \<^verbatim>\<open>validate_commit\<close> accepts it, or it consists of the finalizing precommits of a completable round in which the block is finalized,
  with the number of that round.\<close>

theorem voter_finality_justified:
  assumes "chain ancestry parent number" and "voter_run ancestry number vs f polls self sh"
    and "CallFinalizeBlock h n k c \<in> set (sh_calls sh)"
  shows "n = number h \<and> cm_target_hash c = h \<and> cm_target_number c = n \<and>
    ((\<exists>res. validate_commit ancestry c vs = Some (Inr res) \<and> cvr_valid res) \<or>
     (\<exists>b r. reachable ancestry number vs b r \<and> r_round_number r = k \<and> r_completable r \<and> r_finalized r = Some (h, n) \<and>
        finalizing_precommits ancestry r = Some (cm_precommits c)))"
proof -
  obtain a where a: "av_calls a = sh_calls sh" "justified_ok ancestry number vs a" "refines ancestry number vs a self sh"
    by (rule voter_run_ok [OF assms(1,2)])
  then have j: "justified ancestry number vs (h, n, k, c)" using assms(3) by (simp add: justified_ok_def)
  have "n = number h"
    by (rule chain.announced_number [OF assms(1) j chain.refines_voters [OF assms(1) a(3)]])
  then show ?thesis using j unfolding justified_def announces_def valid_commit_def by auto
qed

theorem voter_finality_justified_witness:
  "\<exists>vs (polls :: example_polls) self sh. voter_run fuzz_ancestry fuzz_num vs 0 polls self sh \<and>
     CallFinalizeBlock 4 2 1 (example_commit 4) \<in> set (sh_calls sh) \<and> cm_target_hash (example_commit 4) = 4 \<and> 2 = fuzz_num 4"
proof -
  obtain vs and polls :: example_polls and self sh where run: "voter_run fuzz_ancestry fuzz_num vs 0 polls self sh"
      and calls: "sh_calls sh = [CallFinalizeBlock 4 2 1 (example_commit 4)]"
    using example_run by blast
  then have c: "CallFinalizeBlock 4 2 1 (example_commit 4) \<in> set (sh_calls sh)" by simp
  show ?thesis using voter_finality_justified [OF fuzz.chain_axioms run c] run c by blast
qed

section \<open>Votes\<close>

text \<open>C6. Over its whole life, with all the rounds it starts, concludes, loses to errors or catches up to, a voter casts in every round
  at most one hint, then at most one prevote, then at most one precommit that follows a prevote, as long as the
  number of a round does not overflow.\<close>

theorem voter_votes_once_per_round:
  assumes "chain ancestry parent number" and "voter_run ancestry number vs f polls self sh"
    and "\<forall>st b v. CallCompleted (- 1) st b v \<notin> set (sh_calls sh)"
  shows "\<exists>q. cast_run n NoVote (filter (votes_in n) (sh_calls sh)) = Some q \<and>
    length (filter is_prevoted_call (filter (votes_in n) (sh_calls sh))) \<le> 1 \<and>
    length (filter is_precommitted_call (filter (votes_in n) (sh_calls sh))) \<le> 1"
proof -
  obtain a where "av_calls a = sh_calls sh" "refines ancestry number vs a self sh"
      "(\<forall>st b v. CallCompleted (- 1) st b v \<notin> set (sh_calls sh)) \<longrightarrow> votes_once a"
    by (rule voter_run_ok [OF assms(1,2)])
  then obtain q where q: "voted n (sh_calls sh) = Some q" using assms(3) unfolding votes_once_def by metis
  show ?thesis using q cast_run_counts [OF q] by auto
qed

theorem voter_votes_once_per_round_witness:
  "\<exists>vs (polls :: example_polls) self sh q. voter_run fuzz_ancestry fuzz_num vs 0 polls self sh \<and>
     cast_run 1 NoVote (filter (votes_in 1) (sh_calls sh)) = Some q"
proof -
  obtain vs and polls :: example_polls and self sh where run: "voter_run fuzz_ancestry fuzz_num vs 0 polls self sh"
      and calls: "sh_calls sh = [CallFinalizeBlock 4 2 1 (example_commit 4)]"
    using example_run by blast
  have "\<forall>st b v. CallCompleted (- 1) st b v \<notin> set (sh_calls sh)" by (simp add: calls)
  from voter_votes_once_per_round [OF fuzz.chain_axioms run this, of 1] show ?thesis using run by blast
qed

section \<open>Rounds\<close>

text \<open>C12. The life of rounds as the environment is told it: a round is reported as completed only when it is completable, and as
  concluded only when its estimate, if it has one, is at or below a block that has been finalized.\<close>

theorem voter_round_lifecycle:
  assumes "chain ancestry parent number" and "voter_run ancestry number vs f polls self sh"
  shows "(\<forall>k st b v. CallCompleted k st b v \<in> set (sh_calls sh) \<longrightarrow> st_completable st) \<and>
    (\<forall>k st b v e n. CallConcluded k st b v \<in> set (sh_calls sh) \<longrightarrow> st_estimate st = Some (e, n) \<longrightarrow> n \<le> vt_last_finalized_number self)"
proof -
  obtain a where "av_calls a = sh_calls sh" "av_finalized a = vt_last_finalized_number self" "lifecycle_ok a"
      "refines ancestry number vs a self sh" by (rule voter_run_ok [OF assms])
  then show ?thesis by (fastforce simp: lifecycle_ok_def estimate_final_def)
qed

theorem voter_round_lifecycle_witness:
  "\<exists>vs (polls :: example_polls) self sh. voter_run fuzz_ancestry fuzz_num vs 0 polls self sh \<and>
     (\<forall>k st b v. CallCompleted k st b v \<in> set (sh_calls sh) \<longrightarrow> st_completable st)"
proof -
  obtain vs and polls :: example_polls and self sh where run: "voter_run fuzz_ancestry fuzz_num vs 0 polls self sh"
    using example_run by blast
  show ?thesis using voter_round_lifecycle [OF fuzz.chain_axioms run] run by blast
qed

lemma multiplicity_votes_ids: "fst ` set (multiplicity_votes vid m) = {vid}"
  by (cases "(vid, m)" rule: multiplicity_votes.cases) auto

lemma tracker_votes_ids: "fst ` set (tracker_votes vt) = dom (bt_get (vt_votes vt))"
proof -
  have "fst ` set (concat (map (\<lambda>(vid, m). multiplicity_votes vid m) xs)) = fst ` set xs"
    for xs :: "('a \<times> ('b, 'c) vote_multiplicity) list"
    by (induction xs) (simp_all add: split_beta image_Un multiplicity_votes_ids del: set_concat)
  then show ?thesis by (simp add: tracker_votes_def bt_get_map_of dom_map_of_conv_image_fst)
qed

text \<open>C25. What the voter reports of itself: for the best round and every background round, the participation in the two phases
  is the exact weight of the reported voters, all of them members of the set, and the total and the threshold are
  those of the set.\<close>

theorem voter_report:
  assumes "chain ancestry parent number" and "voter_run ancestry number vs f polls self sh"
    and "voter_state_get (vt_inner self) = report" and "(k, rs) = rs_best_round report \<or> rs_background_rounds report k = Some rs"
  shows "vw (rs_prevote_current_weight rs) = weight_of_set vs (rs_prevote_ids rs) \<and> rs_prevote_ids rs \<subseteq> voter_ids vs \<and>
    vw (rs_precommit_current_weight rs) = weight_of_set vs (rs_precommit_ids rs) \<and> rs_precommit_ids rs \<subseteq> voter_ids vs \<and>
    rs_total_weight rs = vs_total_weight vs \<and> rs_threshold_weight rs = vs_threshold vs"
proof -
  obtain a where r: "refines ancestry number vs a self sh" by (rule voter_run_ok [OF assms(1,2)])
  let ?R = "add_mset (best_round self) (mset (voting_rounds (background self)))"
  have R: "\<forall>vr \<in># ?R. sound_votes ancestry number vs vr" using r by (simp add: refines_def follows_def tracks_def rounds_ok_def)
  have "(k, rs) = to_round_state (best_round self) \<or> (k, rs) \<in> to_round_state ` set (voting_rounds (background self))"
    using assms(3,4) map_of_SomeD [of "rev (map to_round_state (voting_rounds (background self)))" k rs]
    by (auto simp: voter_state_get_def)
  then have "(k, rs) \<in> to_round_state ` set_mset ?R" by auto
  then obtain vr where vr: "vr \<in># ?R" "(k, rs) = to_round_state vr" by (rule imageE) (rule that)
  then obtain b where b: "reachable ancestry number vs b (vr_votes vr)" using R by (auto simp: sound_votes_def)
  obtain V where core: "core_ok parent number (vr_votes vr) V" by (rule reachable_core [OF assms(1) b])
  note t = reachable_trackers [OF b]
  note part = participation_exact [OF core t]
  have ids: "rs_prevote_ids rs = dom (view (vr_votes vr) Prevote)" "rs_precommit_ids rs = dom (view (vr_votes vr) Precommit)"
    using vr(2) tracker_votes_ids [of "r_prevote (vr_votes vr)"] tracker_votes_ids [of "r_precommit (vr_votes vr)"]
    by (auto simp: to_round_state_def Let_def round_prevotes_def round_precommits_def view_simps tracker_view_def)
  have vs: "voters (vr_votes vr) = vs" by (rule reachable_round(2) [OF assms(1) b])
  have "dom (view (vr_votes vr) p) \<subseteq> voter_ids vs" for p using phase_dom [OF core_phase [OF core]] vs by simp
  then show ?thesis using vr(2) part vs unfolding ids by (auto simp: to_round_state_def Let_def)
qed

theorem voter_report_witness:
  "\<exists>vs (polls :: example_polls) self sh k rs. voter_run fuzz_ancestry fuzz_num vs 0 polls self sh \<and>
     rs_best_round (voter_state_get (vt_inner self)) = (k, rs) \<and> vw (rs_prevote_current_weight rs) = weight_of_set vs (rs_prevote_ids rs)"
proof -
  obtain vs and polls :: example_polls and self sh where run: "voter_run fuzz_ancestry fuzz_num vs 0 polls self sh"
    using example_run by blast
  obtain k rs where b: "(k, rs) = rs_best_round (voter_state_get (vt_inner self))" by (metis surj_pair)
  show ?thesis using voter_report [OF fuzz.chain_axioms run HOL.refl disjI1 [OF b]] run b [symmetric] by blast
qed

section \<open>Commits\<close>

text \<open>C24. A round in the background broadcasts a commit at most once, when its commit timer has fired, and then the one it has built itself for
  a block it has finalized; afterwards it has no committer and never commits again.\<close>

theorem background_commits_once:
  assumes "background_round_poll env bg ch sh = Some ((bg', ch'), sh', res)"
  shows "(\<forall>c. res = Inr (Ready (Committed c)) \<longrightarrow> vr_best_finalized (bg_inner bg') = Some c \<and> r_finalized (vr_votes (bg_inner bg')) \<noteq> None \<and>
      bg_round_committer bg' = None \<and>
      (\<exists>committer. bg_round_committer bg = Some committer \<and> env_timer env (rc_commit_timer committer) = Ready (Inr ()))) \<and>
    (bg_round_committer bg = None \<longrightarrow> bg_round_committer bg' = None \<and> (\<forall>c. res \<noteq> Inr (Ready (Committed c))))"
  using assms
proof (cases rule: background_round_poll_cases)
  case (commit vr sh1 p c vr' c' cm)
  from commit(3) obtain lc where "commit_to_send vr' lc = Some cm" "env_timer env (rc_commit_timer c) = Ready (Inr ())"
    by (cases rule: rc_commit_cases) auto
  then show ?thesis using commit(2,5,6) by (auto simp: commit_to_send_def commit(4) split: option.split_asm if_split_asm)
qed (auto simp: bg_outcome_def)

lemma example_announce:
  "\<exists>vs (r :: (nat, fhash, unit) round) self' sh' p f c. reachable fuzz_ancestry fuzz_num vs 0 r \<and>
     voting_round_poll (example_env []) (example_vr r Precommitted) genesis_shared = Some (self', sh', Inr p) \<and>
     r_finalized (vr_votes self') = Some f \<and> vr_best_finalized self' = Some c"
proof -
  obtain vs r where r: "example_ok 4 vs r" using example_round [OF fuzz_base_above, of 4] by auto
  note e = example_okD [OF r]
  let ?self = "example_vr r Precommitted"
  let ?w = "?self\<lparr>vr_outgoing := \<lparr>bf_inner = bf_inner (vr_outgoing ?self) @ bf_buffer (vr_outgoing ?self), bf_buffer = []\<rparr>\<rparr>"
  have cv: "cast_votes (example_env []) (Some (sh_bridged genesis_shared ! 0)) ?self genesis_shared = Some (?self, genesis_shared, Inr ())"
    by (simp add: cast_votes_def vr_primary_propose_def vr_prevote_def vr_precommit_def)
  obtain f where f: "r_finalized r = Some (f, fuzz_num f)" using e(9) by blast
  obtain self' sh' where nt: "notify (example_env []) (round_state (vr_votes ?self)) (round_state (vr_votes ?self)) ?w genesis_shared = Some (self', sh')"
    using notify_total [of "example_env []" "round_state (vr_votes ?self)" ?w genesis_shared] by auto
  have "\<exists>c. vr_best_finalized self' = Some c"
    using nt f e(2) unfolding notify_def by (auto simp: Let_def round_state_def bind_eq_Some_conv)
  moreover have "r_finalized (vr_votes self') = Some (f, fuzz_num f)" using notify_keeps(1) [OF nt] f by simp
  moreover obtain p where "voting_round_poll (example_env []) ?self genesis_shared = Some (self', sh', Inr p)"
    using example_poll [OF _ _ cv _ nt] by simp
  ultimately show ?thesis using e(1) by blast
qed

theorem background_commits_once_witness:
  "\<exists>vs (r :: (nat, fhash, unit) round) bg' ch' sh' c. reachable fuzz_ancestry fuzz_num vs 0 r \<and>
     background_round_poll (example_env []) \<lparr>bg_inner = example_vr r Precommitted, bg_finalized_number = 0,
       bg_round_committer = Some (round_committer_new () 0)\<rparr> [Some []] genesis_shared = Some ((bg', ch'), sh', Inr (Ready (Committed c))) \<and>
     vr_best_finalized (bg_inner bg') = Some c \<and> bg_round_committer bg' = None"
proof -
  obtain vs and r :: "(nat, fhash, unit) round" and self' sh' p f c where r: "reachable fuzz_ancestry fuzz_num vs 0 r"
      and poll: "voting_round_poll (example_env []) (example_vr r Precommitted) genesis_shared = Some (self', sh', Inr p)"
      and fin: "r_finalized (vr_votes self') = Some f" "vr_best_finalized self' = Some c"
    using example_announce by blast
  let ?bg = "\<lparr>bg_inner = example_vr r Precommitted, bg_finalized_number = 0, bg_round_committer = Some (round_committer_new () 0)\<rparr>"
  have "\<exists>bg'. background_round_poll (example_env []) ?bg [Some []] genesis_shared = Some ((bg', [None]), sh', Inr (Ready (Committed c)))"
    by (simp add: background_round_poll_def Let_def poll rc_commit_def round_committer_new_def fin)
  then obtain bg' where bg': "background_round_poll (example_env []) ?bg [Some []] genesis_shared = Some ((bg', [None]), sh', Inr (Ready (Committed c)))"
    by blast
  show ?thesis using background_commits_once [OF bg'] r bg' by blast
qed

section \<open>Catching up\<close>

text \<open>C37. A catch-up for a round that is not after the best one is reported as bad, never as useless, and it ends the processing of
  messages: those behind it in the stream are left there.\<close>

theorem old_catch_up_ends_processing:
  assumes "gc_poll_next gc (vt_global_in self) = (g, Ready (Some (Inr (CatchUpIn cu cb))))"
    and "cu_round_number cu \<le> r_round_number (vr_votes (best_round self))"
  shows "process_incoming env gc self sh =
    Some (self\<lparr>vt_global_in := g, vt_outcomes := callback_run cb BadCatchUp (vt_outcomes self)\<rparr>, sh, Inr ())"
  using assms by (subst process_incoming.simps) (simp add: process_catch_up_def validate_catch_up_def)

definition old_catch_up :: example_message where
  "old_catch_up = CatchUpIn \<lparr>cu_round_number = 0, cu_prevotes = [], cu_precommits = [], cu_base_hash = 0, cu_base_number = fuzz_num 0\<rparr> Blank"

theorem old_catch_up_ends_processing_witness:
  "\<exists>vs (polls :: example_polls) self sh self'. voter_run fuzz_ancestry fuzz_num vs 0 polls self sh \<and>
     process_incoming (example_env []) example_comms (self\<lparr>vt_global_in := [old_catch_up, example_commit_in]\<rparr>) sh = Some (self', sh, Inr ()) \<and>
     vt_global_in self' = [example_commit_in]"
proof -
  obtain vs and polls :: example_polls and self sh where run: "voter_run fuzz_ancestry fuzz_num vs 0 polls self sh"
    using example_run by blast
  have "message_ok fuzz_num old_catch_up" by (simp add: old_catch_up_def precommits_ok_def)
  then have m: "gc_poll_next example_comms (vt_global_in (self\<lparr>vt_global_in := [old_catch_up, example_commit_in]\<rparr>)) =
      ([example_commit_in], Ready (Some (Inr old_catch_up)))" by simp
  show ?thesis
    using old_catch_up_ends_processing [OF m [unfolded old_catch_up_def], of "example_env []" sh] run
    by (intro exI [of _ vs] exI [of _ polls] exI [of _ self] exI [of _ sh] exI) (auto simp: old_catch_up_def)
qed

end
