(* ===== verification/Spec2Isabelle.thy ===== *)
theory Spec2Isabelle
  imports Bitfield Graph_Properties Voting_Commit Voter_Properties
begin

text \<open>
  A model of the GRANDPA finality gadget (the crate \<^verbatim>\<open>finality-grandpa\<close>) and the theorems that make it correct.

  \<^bold>\<open>The program.\<close> A voter (\<^verbatim>\<open>src/voter/mod.rs\<close>) runs rounds of voting one after the other. The best round casts votes through a state machine
  (\<^verbatim>\<open>src/voter/voting_round.rs\<close>); rounds that are completable go on in the background until their estimate is finalized
  (\<^verbatim>\<open>src/voter/past_rounds.rs\<close>). Every round counts the votes it gets (\<^verbatim>\<open>src/round.rs\<close>) in a graph of blocks (\<^verbatim>\<open>src/vote_graph.rs\<close>) whose
  nodes hold bitfields of voters (\<^verbatim>\<open>src/round/context.rs\<close>, \<^verbatim>\<open>src/bitfield.rs\<close>) and are weighed with the weights of the voter
  set (\<^verbatim>\<open>src/voter_set.rs\<close>, \<^verbatim>\<open>src/weights.rs\<close>). A round tells the next one its state through a shared cell (\<^verbatim>\<open>src/bridge_state.rs\<close>) and
  the voter what it has finalized through a channel. Commits and catch-ups of other nodes are validated by
  \<^verbatim>\<open>validate_commit\<close> (\<^verbatim>\<open>src/lib.rs\<close>) and \<^verbatim>\<open>validate_catch_up\<close>. The user of the crate provides the chain and the environment.

  \<^bold>\<open>The theories\<close>, in the order in which they build on each other:
  \<^item> \<open>Prelude\<close>: types of the source, generic lemmas; \<open>BTree\<close>: the maps of the source as sorted lists, behind the locale of a map;
  \<^item> \<open>Weights\<close> (\<^verbatim>\<open>weights.rs\<close>), \<open>Bitfield\<close> (\<^verbatim>\<open>bitfield.rs\<close>), \<open>Voter_Set\<close> (\<^verbatim>\<open>voter_set.rs\<close>): saturating weights, bit sets, the
    threshold and the intersection of quorums;
  \<^item> \<open>Chain\<close>: the locale of a chain, that is, what the trait \<^verbatim>\<open>Chain\<close> documents of \<^verbatim>\<open>ancestry\<close>; \<open>Fuzz_Chain\<close>: its interpretation
    on the block tree of \<^verbatim>\<open>fuzz_helpers.rs\<close>, on which all witnesses run;
  \<^item> \<open>Vote_Graph\<close> (\<^verbatim>\<open>vote_graph.rs\<close>) with \<open>Graph_Inv\<close> (the invariant: which nodes there are, what their votes mean), \<open>Graph_Ops\<close> (insertion,
    the base), \<open>Graph_Queries\<close> and \<open>Ghost\<close> (the searches), \<open>Graph_Properties\<close>;
  \<^item> \<open>Messages\<close> (the data of \<^verbatim>\<open>lib.rs\<close>), \<open>Round_Context\<close> (\<^verbatim>\<open>round/context.rs\<close>), \<open>Round\<close> (\<^verbatim>\<open>round.rs\<close>) with \<open>Round_Inv\<close>, \<open>Round_Update\<close>,
    \<open>Round_Import\<close>, \<open>Round_Steps\<close>, \<open>Round_Safety\<close>, \<open>Round_Facts\<close>, \<open>Round_Memo\<close>: a round against the sets of voters behind a block,
    \<open>Round_Example\<close>, \<open>Round_Properties\<close>;
  \<^item> \<open>Commit\<close> (\<^verbatim>\<open>validate_commit\<close>) with \<open>Commit_Properties\<close>, \<open>Catch_Up\<close> (\<^verbatim>\<open>validate_catch_up\<close>);
  \<^item> \<open>Environment\<close> (the trait \<^verbatim>\<open>Environment\<close>, the buffered sink, \<^verbatim>\<open>bridge_state.rs\<close>), \<open>Voting_Round\<close> (\<^verbatim>\<open>voting_round.rs\<close>) with \<open>Voting_Facts\<close>,
    \<open>Voting_Steps\<close> (the automaton of the votes cast), \<open>Voting_Poll\<close>, \<open>Voting_Properties\<close>, \<open>Voting_Commit\<close>;
  \<^item> \<open>Past_Rounds\<close> (\<^verbatim>\<open>past_rounds.rs\<close>) with \<open>Background\<close> (polls case by case, the invariant of the channels);
  \<^item> \<open>Voter\<close> (\<^verbatim>\<open>voter/mod.rs\<close>) with \<open>Voter_Spec\<close> (an abstract voter and its invariants), \<open>Voter_Rounds\<close>, \<open>Voter_Refines\<close>,
    \<open>Voter_Run\<close> (the voter refines it), \<open>Voter_Properties\<close>.

  \<^bold>\<open>How the code is modelled.\<close> There is one definition per function, with the source's name where it does not clash, and one per loop or
  block that has a proof of its own; the fields of a record carry the prefix of their type. A panic of the code (an
  \<^verbatim>\<open>expect\<close>, an index out of range) and a loop that does not end are the value \<open>None\<close>; a \<^verbatim>\<open>Result\<close> is a sum with the error on the left.
  Structs are passed and returned. What rounds of a voter share is a record \<open>shared\<close>: the heap of bridged states, the queue of finality
  notifications and the log of the calls to the environment that tell it something. The channels of commits
  are a heap too. The environment is a record of functions that says how it answers during one poll; the next poll may get
  another, so that timers fire and messages arrive between polls. Streams, sinks, timers and futures are tokens that these functions
  advance. The order in which \<^verbatim>\<open>FuturesUnordered\<close> polls the background rounds is an argument. Block numbers are natural numbers;
  weights and round numbers are 64-bit words, which saturate or wrap around as the code does in a release build. Loops over a stream
  and the repeated \<^verbatim>\<open>poll\<close> of the voter are partial functions, the others have termination proofs; no definition takes fuel.

  \<^bold>\<open>What is assumed.\<close> That \<^verbatim>\<open>ancestry\<close> describes a tree in which a child is one higher than its parent (the locale \<open>chain\<close>); that votes,
  commits and catch-ups name blocks with their numbers (\<open>env_votes_ok\<close>, \<open>messages_ok\<close>), as the documentation of the
  streams demands; in some theorems, that streams run dry within one poll, that no more than the tolerated weight equivocates (each theorem says in which
  rounds and phases), and, in the one on \<^verbatim>\<open>construct_prevote\<close>, that the ancestry of a block up to itself is an error or empty, which the
  trait leaves open. Nothing is assumed of signatures, of the other voters, of timing, or of
  what calls to the environment return.

  \<^bold>\<open>What is shown.\<close> For voter sets, that two quorums share an honest voter; for the vote graph, that insertion, the searches and
  \<^verbatim>\<open>adjust_base\<close> agree with the votes on the block tree, before and after the base moves, and end; for a round, what each kind of vote does to it when it is imported, that its memoised blocks are what the sets of voters say, that
  finalized blocks are stable while few enough equivocate, that conflicting ones expose equivocators, and that the estimate of a completable round is safe; for commits,
  exactly when they are valid; for catch-ups, that the round they give holds exactly their votes, and why they are refused; for a voting round, that it votes once, above the last estimate, that polls return, and
  what they announce; for the voter, that it refines the abstract voter, so that finality only moves up, every finalized block is justified,
  no round gets two votes over the voter's whole life, and rounds are reported as completed and concluded only when they are. Some theorems
  pin down behaviour that departs from the documentation.

  \<^bold>\<open>What is not modelled.\<close> Wakers, locks, logging (\<^verbatim>\<open>log_participation\<close>), \<^verbatim>\<open>Display\<close> and serialisation, which do not change the state;
  \<^verbatim>\<open>SelfReturningFuture\<close>, which only hands a polled round back; the constructors that exist for tests; the drivers of
  \<^verbatim>\<open>fuzz_helpers.rs\<close> and \<^verbatim>\<open>fuzz/\<close>, which feed random input to the round and the graph; \<^verbatim>\<open>testing.rs\<close>, a network and an environment for
  the tests on threads and timers.
\<close>

end
